(* ===== verification/Prelude.thy ===== *)
theory Prelude
  imports Complex_Main "HOL-Library.AList" "HOL-Library.Word"
begin

section \<open>Prelude: Python values, failures, dictionaries and slices\<close>

text \<open>
  Shared vocabulary of the development. Python integers are \<open>int\<close> (unbounded, with the floor
  division of \<open>div\<close>), \<open>bytes\<close> objects are lists of 8-bit words, dictionaries are association
  lists in insertion order, and a function that can raise returns a value of the sum type
  \<open>result\<close>, the exception on the left; \<open>NonTermination\<close> is the outcome of a loop that would not
  return for its arguments. A state change that is cut short by an exception is not
  observed: the callers of this code do not catch these exceptions.
\<close>

named_theorems result_simps \<open>unfolding rules for computations that may raise\<close>
named_theorems dict_simps \<open>look-up after an update or a deletion of a dictionary\<close>

subsection \<open>Exceptions\<close>

datatype py_error =
    ValueError
  | RuntimeError
  | AssertionError
  | IndexError
  | KeyError
  | OverflowError
  | TypeError
  | NotImplementedError
  | StopIteration
  | AttributeError
  | ZeroDivisionError
  | NonTermination

type_synonym 'a result = "py_error + 'a"

definition bindE :: "'a result \<Rightarrow> ('a \<Rightarrow> 'b result) \<Rightarrow> 'b result" where
  "bindE m f = (case m of Inl e \<Rightarrow> Inl e | Inr x \<Rightarrow> f x)"

definition assertE :: "bool \<Rightarrow> unit result" where
  "assertE b = (if b then Inr () else Inl AssertionError)"

text \<open>A \<open>for\<close> loop whose body updates a state and may raise.\<close>

fun foldE :: "('a \<Rightarrow> 's \<Rightarrow> 's result) \<Rightarrow> 'a list \<Rightarrow> 's \<Rightarrow> 's result" where
  "foldE f [] s = Inr s"
| "foldE f (x # xs) s = bindE (f x s) (foldE f xs)"

text \<open>A list comprehension whose element expression may raise.\<close>

fun mapE :: "('a \<Rightarrow> 'b result) \<Rightarrow> 'a list \<Rightarrow> 'b list result" where
  "mapE f [] = Inr []"
| "mapE f (x # xs) = bindE (f x) (\<lambda>y. bindE (mapE f xs) (\<lambda>ys. Inr (y # ys)))"

lemma bindE_simps [simp, result_simps]:
  "bindE (Inl e) f = Inl e"
  "bindE (Inr x) f = f x"
  by (simp_all add: bindE_def)

lemma bindE_Inr_iff [result_simps]:
  "bindE m f = Inr y \<longleftrightarrow> (\<exists>x. m = Inr x \<and> f x = Inr y)"
  by (cases m) simp_all

lemma bindE_Inl_iff [result_simps]:
  "bindE m f = Inl e \<longleftrightarrow> m = Inl e \<or> (\<exists>x. m = Inr x \<and> f x = Inl e)"
  by (cases m) simp_all

lemma bindE_assoc: "bindE (bindE m f) g = bindE m (\<lambda>x. bindE (f x) g)"
  by (cases m) simp_all

lemma bindE_cong [fundef_cong]:
  assumes "m = m'" and "\<And>x. m' = Inr x \<Longrightarrow> f x = g x"
  shows "bindE m f = bindE m' g"
  using assms by (cases m') simp_all

lemma assertE_iff [simp, result_simps]:
  "assertE b = Inr u \<longleftrightarrow> b"
  "assertE b = Inl e \<longleftrightarrow> \<not> b \<and> e = AssertionError"
  by (auto simp: assertE_def)

lemma assertE_simps [simp]:
  "assertE True = Inr ()"
  "assertE False = Inl AssertionError"
  by (simp_all add: assertE_def)

text \<open>An invariant of the body is an invariant of the loop.\<close>

lemma foldE_invariant:
  assumes "foldE f xs s = Inr t" and "P s"
    and "\<And>x u v. x \<in> set xs \<Longrightarrow> P u \<Longrightarrow> f x u = Inr v \<Longrightarrow> P v"
  shows "P t"
  using assms
proof (induction xs arbitrary: s)
  case Nil
  then show ?case by simp
next
  case (Cons x xs)
  from Cons.prems(1) obtain u where "f x s = Inr u" "foldE f xs u = Inr t"
    by (auto simp: bindE_Inr_iff)
  with Cons.prems(2,3) Cons.IH show ?case by (metis list.set_intros)
qed

text \<open>If the body never raises while an invariant holds, neither does the loop.\<close>

lemma foldE_total:
  assumes "P s" and "\<And>x u. x \<in> set xs \<Longrightarrow> P u \<Longrightarrow> \<exists>v. f x u = Inr v \<and> P v"
  shows "\<exists>t. foldE f xs s = Inr t \<and> P t"
  using assms
proof (induction xs arbitrary: s)
  case Nil
  then show ?case by simp
next
  case (Cons x xs)
  from Cons.prems obtain u where "f x s = Inr u" "P u" by (metis list.set_intros(1))
  with Cons.IH[of u] Cons.prems(2) show ?case by simp
qed

lemma foldE_append: "foldE f (xs @ ys) s = bindE (foldE f xs s) (foldE f ys)"
proof (induction xs arbitrary: s)
  case (Cons x xs)
  then show ?case by (cases "f x s") simp_all
qed simp

lemma mapE_length: "mapE f xs = Inr ys \<Longrightarrow> length ys = length xs"
  by (induction xs arbitrary: ys) (auto simp: bindE_Inr_iff)

lemma mapE_nth: "mapE f xs = Inr ys \<Longrightarrow> i < length xs \<Longrightarrow> f (xs ! i) = Inr (ys ! i)"
proof (induction xs arbitrary: ys i)
  case Nil
  then show ?case by simp
next
  case (Cons x xs)
  then show ?case by (cases i) (auto simp: bindE_Inr_iff)
qed

lemma mapE_total: "(\<And>x. x \<in> set xs \<Longrightarrow> f x = Inr (g x)) \<Longrightarrow> mapE f xs = Inr (map g xs)"
  by (induction xs) auto

text \<open>\<open>all(...)\<close> over a generator whose test may raise stop at the first decision.\<close>

fun allE :: "('a \<Rightarrow> bool result) \<Rightarrow> 'a list \<Rightarrow> bool result" where
  "allE f [] = Inr True"
| "allE f (x # xs) = bindE (f x) (\<lambda>b. if b then allE f xs else Inr False)"

text \<open>\<open>max(xs)\<close> and \<open>min(xs)\<close> raise on an empty sequence.\<close>

fun py_max :: "int list \<Rightarrow> int result" where
  "py_max [] = Inl ValueError"
| "py_max (x # xs) = Inr (fold max xs x)"

fun py_min :: "int list \<Rightarrow> int result" where
  "py_min [] = Inl ValueError"
| "py_min (x # xs) = Inr (fold min xs x)"

lemma py_max_eq: "xs \<noteq> [] \<Longrightarrow> py_max xs = Inr (Max (set xs))"
  by (cases xs) (simp_all add: Max.set_eq_fold flip: set_simps(2))

lemma py_min_eq: "xs \<noteq> [] \<Longrightarrow> py_min xs = Inr (Min (set xs))"
  by (cases xs) (simp_all add: Min.set_eq_fold flip: set_simps(2))

lemma py_max_Inr_iff: "py_max xs = Inr m \<longleftrightarrow> xs \<noteq> [] \<and> m = Max (set xs)"
  using py_max_eq[of xs] by (cases xs) (auto simp del: py_max.simps(2))

lemma py_min_Inr_iff: "py_min xs = Inr m \<longleftrightarrow> xs \<noteq> [] \<and> m = Min (set xs)"
  using py_min_eq[of xs] by (cases xs) (auto simp del: py_min.simps(2))

lemma allE_True_iff: "allE f xs = Inr True \<longleftrightarrow> (\<forall>x\<in>set xs. f x = Inr True)"
  by (induction xs) (auto simp: bindE_Inr_iff)

lemma mapE_Inr_iff: "mapE f xs = Inr ys \<longleftrightarrow> list_all2 (\<lambda>x y. f x = Inr y) xs ys"
proof (induction xs arbitrary: ys)
  case (Cons x xs)
  then show ?case by (cases ys) (auto simp: bindE_Inr_iff)
qed auto

lemma mapE_projr:
  "mapE f xs = Inr ys \<longleftrightarrow> (\<forall>x\<in>set xs. \<exists>y. f x = Inr y) \<and> ys = map (\<lambda>x. projr (f x)) xs"
  by (induction xs arbitrary: ys) (auto simp: bindE_Inr_iff)

lemma mapE_Inl: "mapE f xs = Inl e \<Longrightarrow> \<exists>x \<in> set xs. f x = Inl e"
  by (induction xs) (auto simp: bindE_Inl_iff)

subsection \<open>Lists\<close>

lemma in_set_tlD: "x \<in> set (tl xs) \<Longrightarrow> x \<in> set xs"
  by (cases xs) auto

lemma count_list_distinct: "distinct xs \<Longrightarrow> count_list xs x = (if x \<in> set xs then 1 else 0)"
  by (induction xs) auto

subsection \<open>Dictionaries\<close>

text \<open>
  A dictionary keeps its insertion order: storing under a new key appends the entry, storing
  under a key that is present replaces its value in place.
\<close>

type_synonym ('k, 'v) dict = "('k \<times> 'v) list"

abbreviation dict_get :: "('k, 'v) dict \<Rightarrow> 'k \<Rightarrow> 'v option" where
  "dict_get d k \<equiv> map_of d k"

abbreviation dict_set :: "'k \<Rightarrow> 'v \<Rightarrow> ('k, 'v) dict \<Rightarrow> ('k, 'v) dict" where
  "dict_set k v d \<equiv> AList.update k v d"

abbreviation dict_del :: "'k \<Rightarrow> ('k, 'v) dict \<Rightarrow> ('k, 'v) dict" where
  "dict_del k d \<equiv> AList.delete k d"

abbreviation dict_keys :: "('k, 'v) dict \<Rightarrow> 'k list" where
  "dict_keys d \<equiv> map fst d"

abbreviation dict_values :: "('k, 'v) dict \<Rightarrow> 'v list" where
  "dict_values d \<equiv> map snd d"

definition dict_get_default :: "('k, 'v) dict \<Rightarrow> 'k \<Rightarrow> 'v \<Rightarrow> 'v" where
  "dict_get_default d k v = (case dict_get d k of None \<Rightarrow> v | Some w \<Rightarrow> w)"

lemma dict_get_set [simp, dict_simps]:
  "dict_get (dict_set k v d) k' = (if k' = k then Some v else dict_get d k')"
  by (simp add: update_conv)

lemma dict_get_del [simp, dict_simps]:
  "dict_get (dict_del k d) k' = (if k' = k then None else dict_get d k')"
  by (simp add: delete_conv)

lemma dict_get_default_set [simp, dict_simps]:
  "dict_get_default (dict_set k v d) k' w = (if k' = k then v else dict_get_default d k' w)"
  by (simp add: dict_get_default_def)

lemma dict_get_default_del [simp, dict_simps]:
  "dict_get_default (dict_del k d) k' w = (if k' = k then w else dict_get_default d k' w)"
  by (simp add: dict_get_default_def)

lemma dict_keys_set_distinct [intro]:
  "distinct (dict_keys d) \<Longrightarrow> distinct (dict_keys (dict_set k v d))"
  by (rule distinct_update)

lemma dict_keys_del_distinct [intro]:
  "distinct (dict_keys d) \<Longrightarrow> distinct (dict_keys (dict_del k d))"
  by (rule distinct_delete)

subsection \<open>Slices\<close>

text \<open>
  Python slices clamp their bounds to the list; a negative bound counts from the end.
\<close>

definition slice_bound :: "int \<Rightarrow> int \<Rightarrow> int" where
  "slice_bound n i = (if i < 0 then max 0 (n + i) else min i n)"

definition py_slice :: "'a list \<Rightarrow> int \<Rightarrow> int \<Rightarrow> 'a list" where
  "py_slice xs a b =
     (let n = int (length xs); a' = slice_bound n a; b' = slice_bound n b
      in take (nat (b' - a')) (drop (nat a') xs))"

definition py_slice_from :: "'a list \<Rightarrow> int \<Rightarrow> 'a list" where
  "py_slice_from xs a = drop (nat (slice_bound (int (length xs)) a)) xs"

definition py_slice_to :: "'a list \<Rightarrow> int \<Rightarrow> 'a list" where
  "py_slice_to xs b = take (nat (slice_bound (int (length xs)) b)) xs"

lemma py_slice_nonneg:
  assumes "0 \<le> a" and "0 \<le> b"
  shows "py_slice xs a b = take (nat b - nat a) (drop (nat a) xs)"
proof (cases "a \<le> int (length xs)")
  case True
  have "take (nat (min b (int (length xs)) - a)) (drop (nat a) xs)
      = take (nat b - nat a) (drop (nat a) xs)"
  proof (cases "b \<le> int (length xs)")
    case True
    with assms show ?thesis by (simp add: nat_diff_distrib')
  next
    case False
    with \<open>a \<le> int (length xs)\<close> assms show ?thesis by simp
  qed
  with True assms show ?thesis by (simp add: py_slice_def slice_bound_def)
next
  case False
  with assms show ?thesis by (simp add: py_slice_def slice_bound_def)
qed

lemma py_slice_from_nonneg: "0 \<le> a \<Longrightarrow> py_slice_from xs a = drop (nat a) xs"
  by (auto simp: py_slice_from_def slice_bound_def min_def)

lemma py_slice_to_nonneg: "0 \<le> b \<Longrightarrow> py_slice_to xs b = take (nat b) xs"
  by (auto simp: py_slice_to_def slice_bound_def min_def)

lemma set_py_slice_subset: "set (py_slice xs a b) \<subseteq> set xs"
  unfolding py_slice_def Let_def by (meson set_drop_subset set_take_subset subset_trans)

lemma set_py_slice_from_subset: "set (py_slice_from xs a) \<subseteq> set xs"
  unfolding py_slice_from_def by (rule set_drop_subset)

text \<open>An index expression: negative indices count from the end, others raise.\<close>

definition py_index :: "'a list \<Rightarrow> int \<Rightarrow> 'a result" where
  "py_index xs i =
     (let j = (if i < 0 then int (length xs) + i else i)
      in if 0 \<le> j \<and> j < int (length xs) then Inr (xs ! nat j) else Inl IndexError)"

lemma py_index_nonneg:
  "0 \<le> i \<Longrightarrow> py_index xs i = (if i < int (length xs) then Inr (xs ! nat i) else Inl IndexError)"
  by (simp add: py_index_def)

lemma py_index_of_nat [simp]:
  "py_index xs (int n) = (if n < length xs then Inr (xs ! n) else Inl IndexError)"
  by (simp add: py_index_def)

lemma py_index_last:
  "xs \<noteq> [] \<Longrightarrow> py_index xs (-1) = Inr (last xs)"
  by (simp add: py_index_def last_conv_nth nat_diff_distrib' flip: One_nat_def)

subsection \<open>Byte strings\<close>

text \<open>\<open>int.to_bytes(n, "big", signed=False)\<close> and \<open>int.from_bytes(b, "big", signed=False)\<close>.\<close>

type_synonym bytes = "8 word list"

fun int_bytes :: "nat \<Rightarrow> int \<Rightarrow> bytes" where
  "int_bytes 0 v = []"
| "int_bytes (Suc n) v = int_bytes n (v div 256) @ [word_of_int v]"

definition to_bytes_be :: "nat \<Rightarrow> int \<Rightarrow> bytes result" where
  "to_bytes_be n v = (if 0 \<le> v \<and> v < 256 ^ n then Inr (int_bytes n v) else Inl OverflowError)"

definition from_bytes_be :: "bytes \<Rightarrow> int" where
  "from_bytes_be bs = foldl (\<lambda>a b. a * 256 + uint b) 0 bs"

lemma length_int_bytes [simp]: "length (int_bytes n v) = n"
  by (induction n arbitrary: v) auto

lemma from_bytes_be_snoc [simp]: "from_bytes_be (bs @ [b]) = from_bytes_be bs * 256 + uint b"
  by (simp add: from_bytes_be_def)

lemma from_bytes_int_bytes: "from_bytes_be (int_bytes n v) = v mod 256 ^ n"
proof (induction n arbitrary: v)
  case 0
  then show ?case by (simp add: from_bytes_be_def)
next
  case (Suc n)
  have "v mod (256 * 256 ^ n) = 256 * (v div 256 mod 256 ^ n) + v mod 256"
    by (rule zmod_zmult2_eq) simp
  then show ?case
    using Suc by (simp add: uint_word_of_int)
qed

lemma to_bytes_be_cases:
  "to_bytes_be n v = Inr bs \<longleftrightarrow> 0 \<le> v \<and> v < 256 ^ n \<and> bs = int_bytes n v"
  "to_bytes_be n v = Inl e \<longleftrightarrow> \<not> (0 \<le> v \<and> v < 256 ^ n) \<and> e = OverflowError"
  by (auto simp: to_bytes_be_def)

subsection \<open>Integer helpers (vllm/utils/math\_utils.py)\<close>

text \<open>\<open>cdiv(a, b)\<close> is written \<open>-(a // -b)\<close> in the code; \<open>//\<close> rounds down.\<close>

definition cdiv :: "int \<Rightarrow> int \<Rightarrow> int" where
  "cdiv a b = - (a div (- b))"

definition round_up :: "int \<Rightarrow> int \<Rightarrow> int" where
  "round_up x y = ((x + y - 1) div y) * y"

definition round_down :: "int \<Rightarrow> int \<Rightarrow> int" where
  "round_down x y = (x div y) * y"

text \<open>Division by zero raises.\<close>

definition py_div :: "int \<Rightarrow> int \<Rightarrow> int result" where
  "py_div a b = (if b = 0 then Inl ZeroDivisionError else Inr (a div b))"

definition py_mod :: "int \<Rightarrow> int \<Rightarrow> int result" where
  "py_mod a b = (if b = 0 then Inl ZeroDivisionError else Inr (a mod b))"

definition py_cdiv :: "int \<Rightarrow> int \<Rightarrow> int result" where
  "py_cdiv a b = (if b = 0 then Inl ZeroDivisionError else Inr (cdiv a b))"

definition py_round_up :: "int \<Rightarrow> int \<Rightarrow> int result" where
  "py_round_up a b = (if b = 0 then Inl ZeroDivisionError else Inr (round_up a b))"

lemma py_div_Inr_iff [simp]:
  "py_div a b = Inr c \<longleftrightarrow> b \<noteq> 0 \<and> c = a div b"
  "py_mod a b = Inr c \<longleftrightarrow> b \<noteq> 0 \<and> c = a mod b"
  "py_cdiv a b = Inr c \<longleftrightarrow> b \<noteq> 0 \<and> c = cdiv a b"
  "py_round_up a b = Inr c \<longleftrightarrow> b \<noteq> 0 \<and> c = round_up a b"
  by (auto simp: py_div_def py_mod_def py_cdiv_def py_round_up_def)

lemma py_div_nonzero [simp]:
  "b \<noteq> 0 \<Longrightarrow> py_div a b = Inr (a div b)"
  "b \<noteq> 0 \<Longrightarrow> py_mod a b = Inr (a mod b)"
  "b \<noteq> 0 \<Longrightarrow> py_cdiv a b = Inr (cdiv a b)"
  "b \<noteq> 0 \<Longrightarrow> py_round_up a b = Inr (round_up a b)"
  by simp_all

lemma cdiv_bounds:
  assumes "0 < b"
  shows "a \<le> cdiv a b * b" and "cdiv a b * b < a + b"
proof -
  have eq: "cdiv a b = - ((- a) div b)"
    by (simp add: cdiv_def div_minus_right)
  have "(- a) div b * b = - a - (- a) mod b" by (simp add: minus_mod_eq_div_mult)
  moreover have "0 \<le> (- a) mod b" "(- a) mod b < b" using assms by simp_all
  ultimately show "a \<le> cdiv a b * b" "cdiv a b * b < a + b"
    unfolding eq mult_minus_left by linarith+
qed

lemma cdiv_le_iff: "0 < b \<Longrightarrow> cdiv a b \<le> n \<longleftrightarrow> a \<le> n * b"
proof
  assume b: "0 < b" and "cdiv a b \<le> n"
  then have "cdiv a b * b \<le> n * b" by simp
  with cdiv_bounds(1)[OF b, of a] show "a \<le> n * b" by linarith
next
  assume b: "0 < b" and "a \<le> n * b"
  with cdiv_bounds(2)[OF b, of a] have "cdiv a b * b < (n + 1) * b" by (simp add: algebra_simps)
  with b have "cdiv a b < n + 1" by (simp add: mult_less_cancel_right)
  then show "cdiv a b \<le> n" by simp
qed

lemma cdiv_nonneg: "0 < b \<Longrightarrow> 0 \<le> a \<Longrightarrow> 0 \<le> cdiv a b"
  by (simp add: cdiv_def div_minus_right) (simp add: div_nonpos_pos_le0)

lemma cdiv_mono: "0 < b \<Longrightarrow> a \<le> a' \<Longrightarrow> cdiv a b \<le> cdiv a' b"
  using cdiv_le_iff[of b a "cdiv a' b"] cdiv_bounds(1)[of b a'] by linarith

lemma cdiv_mult [simp]: "b \<noteq> 0 \<Longrightarrow> cdiv (n * b) b = n"
  by (simp add: cdiv_def div_minus_right flip: mult_minus_left)

lemma div_le_cdiv: "0 < b \<Longrightarrow> a div b \<le> cdiv a b"
proof -
  assume b: "0 < b"
  have "a div b * b \<le> a" using b by (simp add: pos_mod_sign minus_mod_eq_div_mult[symmetric])
  with cdiv_bounds(1)[OF b, of a] have "a div b * b \<le> cdiv a b * b" by linarith
  with b show ?thesis by simp
qed

end
