(* ===== verification/Free_Block_Queue.thy ===== *)
theory Free_Block_Queue
  imports Prelude
begin

section \<open>KV-cache blocks and the free-block queue\<close>

text \<open>
  \<open>KVCacheBlock\<close> and \<open>FreeKVCacheBlockQueue\<close> of vllm/v1/core/kv\_cache\_utils.py.

  The Python objects are linked through their \<open>prev_free_block\<close> and \<open>next_free_block\<close>
  attributes, so they live in an explicit store: an \<open>addr\<close> names an object (the two sentinels of
  the queue, or the \<open>i\<close>-th block of the pool) and a \<open>block_heap\<close> gives its current attributes.
  Every assignment of the code to an attribute is one update of the store, in the code's order.
  A queue is the store together with the counter \<open>num_free_blocks\<close>.

  The second half relates the linked structure to the list of the free blocks (\<open>queue_rep\<close>) and
  shows that every operation refines the corresponding list operation, keeps all the attributes
  other than the links, and fails exactly where the code raises. The contract is the locale
  \<open>block_queue\<close>; the pool relies on its interpretation \<open>lq\<close>.
\<close>

subsection \<open>Blocks\<close>

datatype addr = FakeHead | FakeTail | Blk nat

record kv_cache_block =
  block_id :: int
  ref_cnt :: int
  block_hash :: "bytes option"
  prev_free_block :: "addr option"
  next_free_block :: "addr option"
  is_null :: bool

type_synonym block_heap = "addr \<Rightarrow> kv_cache_block"

definition new_kv_cache_block :: "int \<Rightarrow> kv_cache_block" where
  "new_kv_cache_block i =
     \<lparr>block_id = i, ref_cnt = 0, block_hash = None,
      prev_free_block = None, next_free_block = None, is_null = False\<rparr>"

definition set_block_hash :: "bytes \<Rightarrow> kv_cache_block \<Rightarrow> kv_cache_block result" where
  "set_block_hash k b =
     (if block_hash b = None then Inr (b\<lparr>block_hash := Some k\<rparr>) else Inl AssertionError)"

definition reset_hash :: "kv_cache_block \<Rightarrow> kv_cache_block" where
  "reset_hash b = b\<lparr>block_hash := None\<rparr>"

subsection \<open>The queue\<close>

record free_queue =
  heap :: block_heap
  num_free_blocks :: int

definition set_next :: "addr \<Rightarrow> addr option \<Rightarrow> block_heap \<Rightarrow> block_heap" where
  "set_next a v h = h(a := (h a)\<lparr>next_free_block := v\<rparr>)"

definition set_prev :: "addr \<Rightarrow> addr option \<Rightarrow> block_heap \<Rightarrow> block_heap" where
  "set_prev a v h = h(a := (h a)\<lparr>prev_free_block := v\<rparr>)"

text \<open>\<open>__init__\<close>: one turn of the loop over the blocks, then the sentinels.\<close>

definition link_step :: "addr list \<Rightarrow> nat \<Rightarrow> block_heap \<Rightarrow> block_heap" where
  "link_step bs i h =
     (let h1 = (if 0 < i then set_prev (bs ! i) (Some (bs ! (i - 1))) h else h)
      in if i < length bs - 1 then set_next (bs ! i) (Some (bs ! (i + 1))) h1 else h1)"

definition free_queue_init :: "block_heap \<Rightarrow> addr list \<Rightarrow> free_queue" where
  "free_queue_init h bs =
     (let h1 = fold (link_step bs) [0..<length bs] h;
          h2 = h1(FakeHead := new_kv_cache_block (-1), FakeTail := new_kv_cache_block (-1));
          h3 = (if bs \<noteq> [] then
                  set_next (last bs) (Some FakeTail)
                   (set_prev FakeTail (Some (last bs))
                    (set_prev (hd bs) (Some FakeHead)
                     (set_next FakeHead (Some (hd bs)) h2)))
                else set_prev FakeTail (Some FakeHead) (set_next FakeHead (Some FakeTail) h2))
      in \<lparr>heap = h3, num_free_blocks = int (length bs)\<rparr>)"

definition popleft :: "free_queue \<Rightarrow> (addr \<times> free_queue) result" where
  "popleft q =
     (let h = heap q in
      case next_free_block (h FakeHead) of
        None \<Rightarrow> (if num_free_blocks q = 0 then Inl ValueError else Inl AssertionError)
      | Some first_block \<Rightarrow>
          if first_block = FakeTail
          then (if num_free_blocks q = 0 then Inl ValueError else Inl AssertionError)
          else
            (case next_free_block (h first_block) of
               None \<Rightarrow> Inl RuntimeError
             | Some nxt \<Rightarrow>
                 let h1 = set_next FakeHead (Some nxt) h;
                     h2 = set_prev nxt (Some FakeHead) h1;
                     h3 = set_next first_block None (set_prev first_block None h2)
                 in Inr (first_block,
                         q\<lparr>heap := h3, num_free_blocks := num_free_blocks q - 1\<rparr>)))"

text \<open>The loop of \<open>popleft_n\<close>: it returns the popped blocks and the block it stopped at.\<close>

fun popleft_n_loop ::
  "nat \<Rightarrow> addr option \<Rightarrow> block_heap \<Rightarrow> (addr list \<times> addr option \<times> block_heap) result" where
  "popleft_n_loop 0 curr_block h = Inr ([], curr_block, h)"
| "popleft_n_loop (Suc n) None h = Inl AssertionError"
| "popleft_n_loop (Suc n) (Some last_block) h =
     (let curr_block = next_free_block (h last_block);
          h' = set_next last_block None (set_prev last_block None h)
      in bindE (popleft_n_loop n curr_block h')
           (\<lambda>(ret, curr_block', h''). Inr (last_block # ret, curr_block', h'')))"

definition popleft_n :: "int \<Rightarrow> free_queue \<Rightarrow> (addr list \<times> free_queue) result" where
  "popleft_n n q =
     (if n = 0 then Inr ([], q)
      else if num_free_blocks q < n then Inl AssertionError
      else
        bindE (popleft_n_loop (nat n) (next_free_block (heap q FakeHead)) (heap q))
          (\<lambda>(ret, curr_block, h).
             let h' = (case curr_block of
                         None \<Rightarrow> h
                       | Some c \<Rightarrow> set_prev c (Some FakeHead) (set_next FakeHead (Some c) h))
             in Inr (ret, q\<lparr>heap := h', num_free_blocks := num_free_blocks q - n\<rparr>)))"

definition remove_block :: "addr \<Rightarrow> free_queue \<Rightarrow> free_queue result" where
  "remove_block b q =
     (let h = heap q in
      case (prev_free_block (h b), next_free_block (h b)) of
        (Some p, Some n) \<Rightarrow>
          let h1 = set_next p (Some n) h;
              h2 = set_prev n (Some p) h1;
              h3 = set_next b None (set_prev b None h2)
          in Inr (q\<lparr>heap := h3, num_free_blocks := num_free_blocks q - 1\<rparr>)
      | _ \<Rightarrow> Inl RuntimeError)"

definition append_block :: "addr \<Rightarrow> free_queue \<Rightarrow> free_queue result" where
  "append_block b q =
     (let h = heap q in
      case prev_free_block (h FakeTail) of
        None \<Rightarrow> Inl RuntimeError
      | Some last_block \<Rightarrow>
          let h1 = set_prev b (Some last_block) (set_next last_block (Some b) h);
              h2 = set_prev FakeTail (Some b) (set_next b (Some FakeTail) h1)
          in Inr (q\<lparr>heap := h2, num_free_blocks := num_free_blocks q + 1\<rparr>))"

text \<open>The loop shared by \<open>prepend_n\<close> and \<open>append_n\<close>; it returns the last block linked.\<close>

fun link_after :: "addr list \<Rightarrow> addr \<Rightarrow> block_heap \<Rightarrow> addr \<times> block_heap" where
  "link_after [] prv h = (prv, h)"
| "link_after (b # bs) prv h =
     link_after bs b (set_next prv (Some b) (set_prev b (Some prv) h))"

definition prepend_n :: "addr list \<Rightarrow> free_queue \<Rightarrow> free_queue result" where
  "prepend_n bs q =
     (if bs = [] then Inr q
      else
        (case next_free_block (heap q FakeHead) of
           None \<Rightarrow> Inl AssertionError
         | Some first_block \<Rightarrow>
             let (prv, h1) = link_after bs FakeHead (heap q);
                 h2 = set_prev first_block (Some prv) (set_next prv (Some first_block) h1)
             in Inr (q\<lparr>heap := h2,
                       num_free_blocks := num_free_blocks q + int (length bs)\<rparr>)))"

definition append_n :: "addr list \<Rightarrow> free_queue \<Rightarrow> free_queue result" where
  "append_n bs q =
     (if bs = [] then Inr q
      else
        (case prev_free_block (heap q FakeTail) of
           None \<Rightarrow> Inl AssertionError
         | Some last_block \<Rightarrow>
             let (lst, h1) = link_after bs last_block (heap q);
                 h2 = set_prev FakeTail (Some lst) (set_next lst (Some FakeTail) h1)
             in Inr (q\<lparr>heap := h2,
                       num_free_blocks := num_free_blocks q + int (length bs)\<rparr>)))"

text \<open>
  \<open>get_all_free_blocks\<close> follows the links until a block without successor; on a cyclic
  structure it would not return, which is the value \<open>None\<close> of the loop.
\<close>

partial_function (option) get_all_free_blocks_loop ::
  "block_heap \<Rightarrow> addr \<Rightarrow> addr list option" where
  "get_all_free_blocks_loop h curr_block =
     (case next_free_block (h curr_block) of
        None \<Rightarrow> Some []
      | Some nxt \<Rightarrow> Option.bind (get_all_free_blocks_loop h nxt) (\<lambda>ret. Some (curr_block # ret)))"

definition get_all_free_blocks :: "free_queue \<Rightarrow> addr list option result" where
  "get_all_free_blocks q =
     (case next_free_block (heap q FakeHead) of
        None \<Rightarrow> Inl RuntimeError
      | Some curr_block \<Rightarrow> Inr (get_all_free_blocks_loop (heap q) curr_block))"

subsection \<open>The list a queue represents\<close>

fun linked :: "block_heap \<Rightarrow> addr list \<Rightarrow> bool" where
  "linked h [] = True"
| "linked h [a] = True"
| "linked h (a # b # as) =
     (next_free_block (h a) = Some b \<and> prev_free_block (h b) = Some a \<and> linked h (b # as))"

definition queue_rep :: "free_queue \<Rightarrow> addr list \<Rightarrow> bool" where
  "queue_rep q xs \<longleftrightarrow>
     linked (heap q) (FakeHead # xs @ [FakeTail]) \<and> distinct xs \<and> set xs \<subseteq> range Blk \<and>
     next_free_block (heap q FakeTail) = None \<and> prev_free_block (heap q FakeHead) = None \<and>
     (\<forall>i. Blk i \<notin> set xs \<longrightarrow>
        next_free_block (heap q (Blk i)) = None \<and> prev_free_block (heap q (Blk i)) = None) \<and>
     num_free_blocks q = int (length xs)"

text \<open>The attributes of a block other than its links.\<close>

definition payload :: "kv_cache_block \<Rightarrow> int \<times> int \<times> bytes option \<times> bool" where
  "payload b = (block_id b, ref_cnt b, block_hash b, is_null b)"

definition queue_data :: "free_queue \<Rightarrow> addr \<Rightarrow> int \<times> int \<times> bytes option \<times> bool" where
  "queue_data q = (\<lambda>a. payload (heap q a))"

subsection \<open>Updates of the links\<close>

lemma set_next_fields [simp]:
  "next_free_block (set_next a v h x) = (if x = a then v else next_free_block (h x))"
  "prev_free_block (set_next a v h x) = prev_free_block (h x)"
  "payload (set_next a v h x) = payload (h x)"
  by (simp_all add: set_next_def payload_def)

lemma set_prev_fields [simp]:
  "prev_free_block (set_prev a v h x) = (if x = a then v else prev_free_block (h x))"
  "next_free_block (set_prev a v h x) = next_free_block (h x)"
  "payload (set_prev a v h x) = payload (h x)"
  by (simp_all add: set_prev_def payload_def)

lemma linked_append:
  "linked h (as @ a # bs) \<longleftrightarrow> linked h (as @ [a]) \<and> linked h (a # bs)"
  by (induction as rule: induct_list012) (cases bs, auto)

lemma linked_cong:
  assumes "\<And>x. x \<in> set (butlast as) \<Longrightarrow> next_free_block (h' x) = next_free_block (h x)"
    and "\<And>x. x \<in> set (tl as) \<Longrightarrow> prev_free_block (h' x) = prev_free_block (h x)"
  shows "linked h' as = linked h as"
  using assms by (induction as rule: induct_list012) auto

lemma linked_set_next [simp]:
  "a \<notin> set (butlast as) \<Longrightarrow> linked (set_next a v h) as = linked h as"
  by (rule linked_cong) auto

lemma linked_set_prev [simp]:
  "a \<notin> set (tl as) \<Longrightarrow> linked (set_prev a v h) as = linked h as"
  by (rule linked_cong) auto

lemma linked_set_notin [simp]:
  "a \<notin> set as \<Longrightarrow> linked (set_next a v h) as = linked h as"
  "a \<notin> set as \<Longrightarrow> linked (set_prev a v h) as = linked h as"
  by (rule linked_cong; auto dest: in_set_butlastD in_set_tlD)+

lemma linked_next: "linked h (a # as) \<Longrightarrow> as \<noteq> [] \<Longrightarrow> next_free_block (h a) = Some (hd as)"
  by (cases as) auto

lemma linked_prev: "linked h (as @ [a]) \<Longrightarrow> as \<noteq> [] \<Longrightarrow> prev_free_block (h a) = Some (last as)"
  by (induction as rule: induct_list012) auto

text \<open>The linking loop builds a chain and touches nothing else.\<close>

lemma link_after_spec:
  assumes "distinct (prv # bs)" and "link_after bs prv h = (l, h')"
  shows "linked h' (prv # bs)" and "l = last (prv # bs)"
    and "\<And>x. x \<notin> set bs \<Longrightarrow> prev_free_block (h' x) = prev_free_block (h x)"
    and "\<And>x. x \<notin> set (butlast (prv # bs)) \<Longrightarrow> next_free_block (h' x) = next_free_block (h x)"
    and "\<And>x. payload (h' x) = payload (h x)"
  using assms
proof (induction bs arbitrary: prv h)
  case Nil
  { case 1 then show ?case by simp next
    case 2 then show ?case by simp next
    case 3 then show ?case by simp next
    case 4 then show ?case by simp next
    case 5 then show ?case by simp }
next
  case (Cons b bs)
  { case 1
    then have d: "distinct (b # bs)"
      and e: "link_after bs b (set_next prv (Some b) (set_prev b (Some prv) h)) = (l, h')"
      by auto
    have nin: "prv \<notin> set (butlast (b # bs))" using 1 by (auto dest: in_set_butlastD)
    have "prev_free_block (h' b) = Some prv"
      using Cons.IH(3)[OF _ d e, of b] d by simp
    moreover have "next_free_block (h' prv) = Some b"
      using Cons.IH(4)[OF nin d e] by simp
    ultimately show ?case using Cons.IH(1)[OF d e] by simp
  next
    case 2 then show ?case using Cons.IH(2)[of b] by simp
  next
    case (3 x) then show ?case using Cons.IH(3)[of x b] by auto
  next
    case (4 x) then show ?case using Cons.IH(4)[of x b] by auto
  next
    case (5 x) then show ?case using Cons.IH(5)[of b _ x] by auto }
qed

subsection \<open>Every operation refines the list operation\<close>

lemma queue_rep_distinct:
  "queue_rep q xs \<Longrightarrow> distinct (FakeHead # xs @ [FakeTail])"
  by (auto simp: queue_rep_def)

lemma queue_rep_links:
  assumes "\<And>a. next_free_block (heap q' a) = next_free_block (heap q a)"
    and "\<And>a. prev_free_block (heap q' a) = prev_free_block (heap q a)"
    and "num_free_blocks q' = num_free_blocks q"
  shows "queue_rep q' xs = queue_rep q xs"
  using linked_cong[of "FakeHead # xs @ [FakeTail]" "heap q'" "heap q"] assms
  by (simp add: queue_rep_def)

lemma queue_data_fields:
  assumes "queue_data q' = queue_data q"
  shows "block_id (heap q' a) = block_id (heap q a)" "ref_cnt (heap q' a) = ref_cnt (heap q a)"
    "block_hash (heap q' a) = block_hash (heap q a)" "is_null (heap q' a) = is_null (heap q a)"
  using fun_cong[OF assms, of a] by (simp_all add: queue_data_def payload_def)

lemma queue_rep_detached:
  "queue_rep q xs \<Longrightarrow> a \<in> range Blk \<Longrightarrow> a \<notin> set xs \<Longrightarrow>
     next_free_block (heap q a) = None \<and> prev_free_block (heap q a) = None"
  by (auto simp: queue_rep_def)

lemma popleft_empty: "queue_rep q [] \<Longrightarrow> popleft q = Inl ValueError"
  by (simp add: queue_rep_def popleft_def)

lemma popleft_rep:
  assumes rep: "queue_rep q (x # xs)"
  shows "\<exists>q'. popleft q = Inr (x, q') \<and> queue_rep q' xs \<and> queue_data q' = queue_data q"
proof -
  obtain n zs where ns: "xs @ [FakeTail] = n # zs" by (cases xs) auto
  have dist: "distinct (FakeHead # x # n # zs)"
    using queue_rep_distinct[OF rep] unfolding append_Cons ns .
  have lk: "linked (heap q) (FakeHead # x # n # zs)"
    using rep ns by (simp add: queue_rep_def)
  let ?h = "set_next x None (set_prev x None
              (set_prev n (Some FakeHead) (set_next FakeHead (Some n) (heap q))))"
  let ?q = "q\<lparr>heap := ?h, num_free_blocks := num_free_blocks q - 1\<rparr>"
  have "x \<noteq> FakeTail" using rep by (auto simp: queue_rep_def)
  then have "popleft q = Inr (x, ?q)"
    using lk dist by (auto simp: popleft_def Let_def)
  moreover have "queue_rep ?q xs"
  proof -
    have "linked ?h (FakeHead # n # zs)"
      using lk dist by (auto dest: in_set_butlastD)
    then have "linked (heap ?q) (FakeHead # xs @ [FakeTail])" by (simp add: ns)
    moreover have "n = FakeTail \<or> n \<in> set xs" using ns by (cases xs) auto
    ultimately show ?thesis using rep dist by (auto simp: queue_rep_def)
  qed
  moreover have "queue_data ?q = queue_data q" by (simp add: queue_data_def)
  ultimately show ?thesis by blast
qed

lemma popleft_n_loop_spec:
  assumes "linked h (as @ c # zs)" and "distinct (as @ c # zs)"
  shows "\<exists>h'. popleft_n_loop (length as) (Some (hd (as @ [c]))) h = Inr (as, Some c, h') \<and>
     (\<forall>x. payload (h' x) = payload (h x)) \<and>
     (\<forall>x. next_free_block (h' x) = (if x \<in> set as then None else next_free_block (h x))) \<and>
     (\<forall>x. prev_free_block (h' x) = (if x \<in> set as then None else prev_free_block (h x)))"
  using assms
proof (induction as arbitrary: h)
  case Nil
  then show ?case by simp
next
  case (Cons a as)
  let ?h = "set_next a None (set_prev a None h)"
  have nxt: "next_free_block (h a) = Some (hd (as @ [c]))"
    using Cons.prems(1) by (cases as) auto
  have "linked h (as @ c # zs)"
    using Cons.prems(1) by (cases as) auto
  moreover have "a \<notin> set (as @ c # zs)" using Cons.prems(2) by simp
  ultimately have "linked ?h (as @ c # zs)"
    by (metis in_set_butlastD linked_set_next linked_set_prev list.set_sel(2) append_is_Nil_conv
        list.distinct(1))
  from Cons.IH[OF this] Cons.prems(2) obtain h' where
    "popleft_n_loop (length as) (Some (hd (as @ [c]))) ?h = Inr (as, Some c, h')"
    "\<forall>x. payload (h' x) = payload (?h x)"
    "\<forall>x. next_free_block (h' x) = (if x \<in> set as then None else next_free_block (?h x))"
    "\<forall>x. prev_free_block (h' x) = (if x \<in> set as then None else prev_free_block (?h x))"
    by auto
  then show ?case by (simp add: nxt Let_def)
qed

lemma popleft_n_rep:
  assumes rep: "queue_rep q xs" and n: "0 \<le> n" "n \<le> int (length xs)"
  shows "\<exists>q'. popleft_n n q = Inr (take (nat n) xs, q') \<and> queue_rep q' (drop (nat n) xs) \<and>
     queue_data q' = queue_data q"
proof (cases "n = 0")
  case True
  with rep show ?thesis by (simp add: popleft_n_def)
next
  case False
  let ?as = "take (nat n) xs" and ?bs = "drop (nat n) xs"
  obtain c zs where cz: "?bs @ [FakeTail] = c # zs" by (cases ?bs) auto
  have split: "FakeHead # xs @ [FakeTail] = FakeHead # ?as @ c # zs"
    by (simp flip: cz)
  have lk: "linked (heap q) (FakeHead # ?as @ c # zs)" and
    dist: "distinct (FakeHead # ?as @ c # zs)"
    using rep queue_rep_distinct[OF rep] unfolding queue_rep_def split by simp_all
  have len: "length ?as = nat n" using n by simp
  have lk': "linked (heap q) (?as @ c # zs)" using lk by (cases ?as) auto
  have first: "next_free_block (heap q FakeHead) = Some (hd (?as @ [c]))"
    using lk by (cases ?as) auto
  from popleft_n_loop_spec[OF lk'] dist obtain h' where
    loop: "popleft_n_loop (nat n) (Some (hd (?as @ [c]))) (heap q) = Inr (?as, Some c, h')" and
    pay: "\<forall>x. payload (h' x) = payload (heap q x)" and
    nx: "\<forall>x. next_free_block (h' x) =
            (if x \<in> set ?as then None else next_free_block (heap q x))" and
    pv: "\<forall>x. prev_free_block (h' x) =
            (if x \<in> set ?as then None else prev_free_block (heap q x))"
    unfolding len by auto
  let ?h = "set_prev c (Some FakeHead) (set_next FakeHead (Some c) h')"
  let ?q = "q\<lparr>heap := ?h, num_free_blocks := num_free_blocks q - n\<rparr>"
  have pop: "popleft_n n q = Inr (?as, ?q)"
    using False n rep loop first by (simp add: popleft_n_def queue_rep_def)
  have "linked (heap q) (c # zs)" using lk' linked_append by blast
  then have "linked h' (c # zs)"
    using dist nx pv
    by (subst linked_cong[of _ _ "heap q"]) (auto dest: in_set_butlastD split: if_splits)
  then have "linked ?h (FakeHead # c # zs)"
    using dist by (auto dest: in_set_butlastD)
  then have link: "linked (heap ?q) (FakeHead # ?bs @ [FakeTail])" by (simp add: cz)
  have tail: "FakeTail \<notin> set ?as" "FakeHead \<notin> set ?as" "c \<noteq> FakeHead"
    using dist cz rep by (auto simp: queue_rep_def dest: in_set_takeD)
  have det: "next_free_block (?h (Blk i)) = None \<and> prev_free_block (?h (Blk i)) = None"
    if "Blk i \<notin> set ?bs" for i
  proof (cases "Blk i \<in> set ?as")
    case True
    with dist have "Blk i \<noteq> c" by auto
    with True show ?thesis by (simp add: nx pv)
  next
    case False
    with that have "Blk i \<notin> set xs" by (metis append_take_drop_id Un_iff set_append)
    moreover have "Blk i \<noteq> c"
      using that cz by (metis Un_iff addr.distinct(5) empty_iff empty_set list.set_intros(1)
          set_ConsD set_append)
    ultimately show ?thesis using False rep by (auto simp: nx pv queue_rep_def)
  qed
  have "queue_rep ?q ?bs"
    unfolding queue_rep_def
    using link det rep tail n nx pv by (auto simp: queue_rep_def dest: in_set_dropD)
  moreover have "queue_data ?q = queue_data q" using pay by (simp add: queue_data_def)
  ultimately show ?thesis using pop by blast
qed

lemma popleft_n_short:
  "queue_rep q xs \<Longrightarrow> int (length xs) < n \<Longrightarrow> popleft_n n q = Inl AssertionError"
  by (simp add: popleft_n_def queue_rep_def)

lemma remove_rep:
  assumes rep: "queue_rep q xs" and b: "b \<in> set xs"
  shows "\<exists>q'. remove_block b q = Inr q' \<and> queue_rep q' (remove1 b xs) \<and>
     queue_data q' = queue_data q"
proof -
  obtain as bs where xs: "xs = as @ b # bs" using b by (meson split_list)
  have rm: "remove1 b xs = as @ bs"
    using rep xs by (simp add: queue_rep_def remove1_append)
  obtain us p where up: "FakeHead # as = us @ [p]" by (metis rev_exhaust list.distinct(1))
  obtain n vs where nv: "bs @ [FakeTail] = n # vs" by (cases bs) auto
  have full: "FakeHead # xs @ [FakeTail] = us @ p # b # n # vs"
    using up nv xs by (metis append_Cons append_assoc append_eq_append_conv2 self_append_conv)
  have lk: "linked (heap q) (us @ p # b # n # vs)" and
    dist: "distinct (us @ p # b # n # vs)"
    using rep queue_rep_distinct[OF rep] unfolding queue_rep_def full by simp_all
  have parts: "linked (heap q) (us @ [p])" "linked (heap q) (n # vs)"
    "next_free_block (heap q b) = Some n" "prev_free_block (heap q b) = Some p"
    using lk linked_append[of _ us p "b # n # vs"] by simp_all
  let ?h = "set_next b None (set_prev b None (set_prev n (Some p) (set_next p (Some n) (heap q))))"
  let ?q = "q\<lparr>heap := ?h, num_free_blocks := num_free_blocks q - 1\<rparr>"
  have "remove_block b q = Inr ?q"
    using parts by (simp add: remove_block_def)
  moreover have "linked ?h (us @ [p])"
    using parts(1) dist by (simp add: butlast_append) (auto dest: in_set_tlD)
  then have "linked ?h (us @ p # n # vs)"
    using parts(2) dist by (subst linked_append) auto
  moreover have "FakeHead # (as @ bs) @ [FakeTail] = us @ p # n # vs"
    using up nv by (metis append_Cons append_assoc append_Nil)
  moreover have "p = FakeHead \<or> p \<in> set as" "n = FakeTail \<or> n \<in> set bs"
    using up nv by (metis Un_iff list.set_intros(1) set_ConsD set_append, metis Un_iff
        empty_iff empty_set list.set_intros(1) set_ConsD set_append)
  ultimately have "remove_block b q = Inr ?q" "queue_rep ?q (as @ bs)"
    using rep dist by (auto simp: queue_rep_def xs)
  moreover have "queue_data ?q = queue_data q" by (simp add: queue_data_def)
  ultimately show ?thesis unfolding rm by blast
qed

lemma remove_absent:
  "queue_rep q xs \<Longrightarrow> b \<in> range Blk \<Longrightarrow> b \<notin> set xs \<Longrightarrow> remove_block b q = Inl RuntimeError"
  using queue_rep_detached[of q xs b] by (simp add: remove_block_def)

lemma append_n_rep:
  assumes rep: "queue_rep q xs" and bs: "distinct bs" "set bs \<subseteq> range Blk" "set bs \<inter> set xs = {}"
  shows "\<exists>q'. append_n bs q = Inr q' \<and> queue_rep q' (xs @ bs) \<and> queue_data q' = queue_data q"
proof (cases "bs = []")
  case True
  with rep show ?thesis by (simp add: append_n_def)
next
  case False
  obtain us p where up: "FakeHead # xs = us @ [p]" by (metis rev_exhaust list.distinct(1))
  obtain ws l where wl: "bs = ws @ [l]" using False by (metis rev_exhaust)
  have "linked (heap q) ((FakeHead # xs) @ [FakeTail])" using rep by (simp add: queue_rep_def)
  then have lk: "linked (heap q) (us @ [p, FakeTail])" unfolding up by simp
  have "set (us @ [p]) = insert FakeHead (set xs)" by (simp flip: up)
  moreover have "distinct (us @ [p])" "FakeTail \<notin> set (us @ [p])"
    using queue_rep_distinct[OF rep] by (auto simp flip: up)
  ultimately have dist: "distinct (us @ p # bs @ [FakeTail])"
    using bs by auto
  have parts: "linked (heap q) (us @ [p])" "prev_free_block (heap q FakeTail) = Some p"
    using lk linked_append[of _ us p "[FakeTail]"] by simp_all
  obtain l' h1 where la: "link_after bs p (heap q) = (l', h1)" by fastforce
  have dp: "distinct (p # bs)" using dist by simp
  note spec = link_after_spec[OF dp la]
  have l': "l' = l" using spec(2) wl by simp
  let ?h = "set_prev FakeTail (Some l) (set_next l (Some FakeTail) h1)"
  let ?q = "q\<lparr>heap := ?h, num_free_blocks := num_free_blocks q + int (length bs)\<rparr>"
  have app: "append_n bs q = Inr ?q"
    using False parts la l' by (simp add: append_n_def)
  have "next_free_block (h1 x) = next_free_block (heap q x)" if "x \<in> set us" for x
    using that dist by (intro spec(4)) (auto dest: in_set_butlastD split: if_splits)
  moreover have "prev_free_block (h1 x) = prev_free_block (heap q x)"
    if "x \<in> set (tl (us @ [p]))" for x
    using in_set_tlD[OF that] dist by (intro spec(3)) auto
  ultimately have "linked h1 (us @ [p])"
    using parts(1) by (subst linked_cong[of _ _ "heap q"]) auto
  moreover have "linked h1 (p # bs)" by (rule spec(1))
  ultimately have "linked h1 (us @ p # bs)" by (rule linked_append[THEN iffD2, OF conjI])
  then have "linked ?h (us @ p # ws @ [l])"
    using dist wl by (auto simp: butlast_append)
  then have "linked (heap ?q) ((us @ p # ws) @ l # [FakeTail])"
    by (subst linked_append) simp
  moreover have "FakeHead # (xs @ bs) @ [FakeTail] = (FakeHead # xs) @ bs @ [FakeTail]" by simp
  then have "FakeHead # (xs @ bs) @ [FakeTail] = (us @ p # ws) @ l # [FakeTail]"
    unfolding up wl by simp
  ultimately have link: "linked (heap ?q) (FakeHead # (xs @ bs) @ [FakeTail])" by metis
  have "p = FakeHead \<or> p \<in> set xs" using up by (metis Un_iff list.set_intros(1) set_ConsD set_append)
  then have det: "next_free_block (?h (Blk i)) = None \<and> prev_free_block (?h (Blk i)) = None"
    if "Blk i \<notin> set (xs @ bs)" for i
    using that rep wl spec(3)[of "Blk i"] spec(4)[of "Blk i"]
    by (auto simp: queue_rep_def butlast_append)
  have "FakeTail \<notin> set (butlast (p # bs))" "FakeHead \<notin> set bs" "l \<noteq> FakeTail"
    using dist wl bs by (auto dest: in_set_butlastD)
  then have "queue_rep ?q (xs @ bs)"
    unfolding queue_rep_def using link det rep bs spec(3)[of FakeHead] spec(4)[of FakeTail]
    by (auto simp: queue_rep_def)
  moreover have "queue_data ?q = queue_data q" by (simp add: queue_data_def spec(5))
  ultimately show ?thesis using app by blast
qed

lemma prepend_n_rep:
  assumes rep: "queue_rep q xs" and bs: "distinct bs" "set bs \<subseteq> range Blk" "set bs \<inter> set xs = {}"
  shows "\<exists>q'. prepend_n bs q = Inr q' \<and> queue_rep q' (bs @ xs) \<and> queue_data q' = queue_data q"
proof (cases "bs = []")
  case True
  with rep show ?thesis by (simp add: prepend_n_def)
next
  case False
  obtain ws l where wl: "bs = ws @ [l]" using False by (metis rev_exhaust)
  obtain f vs where fv: "xs @ [FakeTail] = f # vs" by (cases xs) auto
  have lk: "linked (heap q) (FakeHead # f # vs)"
    using rep fv by (simp add: queue_rep_def)
  have "set (f # vs) = insert FakeTail (set xs)" by (simp flip: fv)
  moreover have "distinct (FakeHead # f # vs)"
    using queue_rep_distinct[OF rep] unfolding fv .
  ultimately have dist: "distinct (FakeHead # bs @ f # vs)"
    using bs by auto
  obtain l' h1 where la: "link_after bs FakeHead (heap q) = (l', h1)" by fastforce
  have dp: "distinct (FakeHead # bs)" using dist by simp
  note spec = link_after_spec[OF dp la]
  have l': "l' = l" using spec(2) wl by simp
  let ?h = "set_prev f (Some l) (set_next l (Some f) h1)"
  let ?q = "q\<lparr>heap := ?h, num_free_blocks := num_free_blocks q + int (length bs)\<rparr>"
  have pre: "prepend_n bs q = Inr ?q"
    using False lk la l' by (simp add: prepend_n_def)
  have "next_free_block (h1 x) = next_free_block (heap q x)" if "x \<in> set (butlast (f # vs))" for x
    using in_set_butlastD[OF that] dist
    by (intro spec(4)) (auto dest: in_set_butlastD split: if_splits)
  moreover have "prev_free_block (h1 x) = prev_free_block (heap q x)"
    if "x \<in> set (tl (f # vs))" for x
    using that dist by (intro spec(3)) auto
  ultimately have "linked h1 (f # vs)"
    using lk by (subst linked_cong[of _ _ "heap q"]) auto
  then have "linked ?h (f # vs)"
    using dist wl by simp
  moreover have "linked ?h (FakeHead # ws @ [l])"
    using spec(1) dist wl by (auto simp: butlast_append)
  ultimately have "linked ?h ((FakeHead # ws) @ l # f # vs)"
    by (subst linked_append) simp
  then have link: "linked (heap ?q) (FakeHead # (bs @ xs) @ [FakeTail])"
    using fv wl by simp
  have "f = FakeTail \<or> f \<in> set xs" using fv by (cases xs) auto
  then have det: "next_free_block (?h (Blk i)) = None \<and> prev_free_block (?h (Blk i)) = None"
    if "Blk i \<notin> set (bs @ xs)" for i
    using that rep wl spec(3)[of "Blk i"] spec(4)[of "Blk i"]
    by (auto simp: queue_rep_def butlast_append)
  have "FakeTail \<notin> set (butlast (FakeHead # bs))" "FakeHead \<notin> set bs" "l \<noteq> FakeTail" "f \<noteq> FakeHead"
    using dist wl bs by (auto dest: in_set_butlastD)
  then have "queue_rep ?q (bs @ xs)"
    unfolding queue_rep_def using link det rep bs spec(3)[of FakeHead] spec(4)[of FakeTail]
    by (auto simp: queue_rep_def)
  moreover have "queue_data ?q = queue_data q" by (simp add: queue_data_def spec(5))
  ultimately show ?thesis using pre by blast
qed

text \<open>\<open>append\<close> is \<open>append_n\<close> on one block.\<close>

lemma append_block_eq:
  assumes "prev_free_block (heap q FakeTail) = Some l" and "l \<noteq> b"
  shows "append_block b q = append_n [b] q"
proof -
  have "set_prev b (Some l) (set_next l (Some b) (heap q)) =
      set_next l (Some b) (set_prev b (Some l) (heap q))"
    using assms(2) by (simp add: set_prev_def set_next_def fun_upd_twist)
  then show ?thesis
    using assms by (simp add: append_block_def append_n_def Let_def)
qed

lemma append_block_rep:
  assumes "queue_rep q xs" and "b \<in> range Blk" and "b \<notin> set xs"
  shows "\<exists>q'. append_block b q = Inr q' \<and> queue_rep q' (xs @ [b]) \<and> queue_data q' = queue_data q"
proof -
  have "linked (heap q) ((FakeHead # xs) @ [FakeTail])" using assms by (simp add: queue_rep_def)
  from linked_prev[OF this] have "prev_free_block (heap q FakeTail) = Some (last (FakeHead # xs))"
    by simp
  moreover have "last (FakeHead # xs) \<noteq> b"
    using assms(2,3) last_in_set[of xs] by (cases "xs = []") (auto simp del: last_in_set)
  ultimately have "append_block b q = append_n [b] q" by (rule append_block_eq)
  with append_n_rep[OF assms(1), of "[b]"] assms(2,3) show ?thesis by simp
qed

text \<open>Walking the links returns, and returns the represented list.\<close>

lemma get_all_free_blocks_loop_linked:
  "linked h (xs @ [z]) \<Longrightarrow> next_free_block (h z) = None \<Longrightarrow>
     get_all_free_blocks_loop h (hd (xs @ [z])) = Some xs"
proof (induction xs)
  case Nil
  then show ?case by (simp add: get_all_free_blocks_loop.simps[of h z])
next
  case (Cons x xs)
  then have "next_free_block (h x) = Some (hd (xs @ [z]))" "linked h (xs @ [z])"
    by (cases xs; simp)+
  with Cons show ?case by (simp add: get_all_free_blocks_loop.simps[of h x])
qed

lemma get_all_free_blocks_rep:
  assumes "queue_rep q xs"
  shows "get_all_free_blocks q = Inr (Some xs)"
proof -
  have lk: "linked (heap q) (FakeHead # xs @ [FakeTail])"
    and z: "next_free_block (heap q FakeTail) = None"
    using assms by (simp_all add: queue_rep_def)
  then have "next_free_block (heap q FakeHead) = Some (hd (xs @ [FakeTail]))"
    by (cases xs) auto
  moreover have "linked (heap q) (xs @ [FakeTail])" using lk by (cases xs) auto
  ultimately show ?thesis
    using get_all_free_blocks_loop_linked[of "heap q" xs FakeTail] z
    by (simp add: get_all_free_blocks_def)
qed

lemma queue_rep_unique: "queue_rep q xs \<Longrightarrow> queue_rep q ys \<Longrightarrow> xs = ys"
  by (metis Inr_inject get_all_free_blocks_rep option.inject)

text \<open>The constructor links the given blocks in order.\<close>

lemma linked_nth:
  "linked h as \<longleftrightarrow>
     (\<forall>i. Suc i < length as \<longrightarrow>
        next_free_block (h (as ! i)) = Some (as ! Suc i) \<and>
        prev_free_block (h (as ! Suc i)) = Some (as ! i))"
proof (induction as rule: induct_list012)
  case (3 a b as)
  show ?case
    unfolding linked.simps "3.IH"(2)
    by (auto simp: nth_Cons' less_Suc_eq_0_disj dest: spec[of _ 0])
qed simp_all

lemma link_step_fields:
  "next_free_block (link_step bs k h x) =
     (if x = bs ! k \<and> Suc k < length bs then Some (bs ! Suc k) else next_free_block (h x))"
  "prev_free_block (link_step bs k h x) =
     (if x = bs ! k \<and> 0 < k then Some (bs ! (k - 1)) else prev_free_block (h x))"
  "payload (link_step bs k h x) = payload (h x)"
  "x \<noteq> bs ! k \<Longrightarrow> link_step bs k h x = h x"
  by (auto simp: link_step_def Let_def set_next_def set_prev_def payload_def)

lemma link_step_fold:
  assumes d: "distinct bs" and k: "k \<le> length bs"
  shows "\<forall>i < length bs. next_free_block (fold (link_step bs) [0..<k] h (bs ! i)) =
            (if i < k \<and> Suc i < length bs then Some (bs ! Suc i)
             else next_free_block (h (bs ! i)))"
    and "\<forall>i < length bs. prev_free_block (fold (link_step bs) [0..<k] h (bs ! i)) =
            (if i < k \<and> 0 < i then Some (bs ! (i - 1)) else prev_free_block (h (bs ! i)))"
    and "\<forall>x. x \<notin> set bs \<longrightarrow> fold (link_step bs) [0..<k] h x = h x"
    and "\<forall>x. payload (fold (link_step bs) [0..<k] h x) = payload (h x)"
  using k
proof (induction k)
  case (Suc k)
  { case 1 then show ?case
      using Suc.IH(1) d by (auto simp: link_step_fields nth_eq_iff_index_eq less_Suc_eq)
  next
    case 2 then show ?case
      using Suc.IH(2) d by (auto simp: link_step_fields nth_eq_iff_index_eq less_Suc_eq)
  next
    case 3 then show ?case
      using Suc.IH(3) by (auto intro!: link_step_fields(4)[THEN trans])
  next
    case 4 then show ?case
      using Suc.IH(4) by (auto simp: link_step_fields) }
qed simp_all

lemma free_queue_init_rep:
  assumes d: "distinct bs" and bs: "set bs \<subseteq> range Blk"
    and fresh: "\<And>i. next_free_block (h (Blk i)) = None \<and> prev_free_block (h (Blk i)) = None"
  shows "queue_rep (free_queue_init h bs) bs"
    and "\<And>i. payload (heap (free_queue_init h bs) (Blk i)) = payload (h (Blk i))"
proof -
  let ?h1 = "fold (link_step bs) [0..<length bs] h"
  let ?h2 = "?h1(FakeHead := new_kv_cache_block (-1), FakeTail := new_kv_cache_block (-1))"
  note fold = link_step_fold[OF d le_refl, of h]
  show "payload (heap (free_queue_init h bs) (Blk i)) = payload (h (Blk i))" for i
    using fold(4) by (simp add: free_queue_init_def Let_def)
  have "linked ?h1 bs"
    using fold(1,2) by (simp add: linked_nth)
  then have "linked ?h2 bs"
    using bs by (subst linked_cong[of _ _ ?h1]) (auto dest!: in_set_butlastD in_set_tlD)
  have det: "next_free_block (?h2 (Blk i)) = None \<and> prev_free_block (?h2 (Blk i)) = None"
    if "Blk i \<notin> set bs" for i using that fold(3) fresh by simp
  show "queue_rep (free_queue_init h bs) bs"
  proof (cases "bs = []")
    case True
    then show ?thesis
      using fresh by (simp add: queue_rep_def free_queue_init_def new_kv_cache_block_def)
  next
    case False
    let ?h3 = "set_next (last bs) (Some FakeTail) (set_prev FakeTail (Some (last bs))
                 (set_prev (hd bs) (Some FakeHead) (set_next FakeHead (Some (hd bs)) ?h2)))"
    obtain f vs ws l where fl: "bs = f # vs" "bs = ws @ [l]"
      using False by (metis neq_Nil_conv rev_exhaust)
    have ne: "f \<notin> set vs" "l \<notin> set ws" "FakeHead \<notin> set bs" "FakeTail \<notin> set bs"
      using d d[unfolded fl(2)] bs fl(1) by auto
    have hl: "hd bs = f" "last bs = l" unfolding fl(1) using fl by (simp, metis last_snoc)
    have "linked ?h3 bs"
      using \<open>linked ?h2 bs\<close> ne unfolding hl by (subst linked_set_next, simp add: fl(2))
        (subst linked_set_notin(2), simp, subst linked_set_prev, simp add: fl(1), simp)
    then have "linked ?h3 (ws @ [l])" unfolding fl(2) .
    then have "linked ?h3 (ws @ l # [FakeTail])"
      using ne fl(2) by (subst linked_append) auto
    moreover have "ws @ l # [FakeTail] = f # vs @ [FakeTail]"
      using arg_cong[OF fl(2)[symmetric, unfolded fl(1)], of "\<lambda>z. z @ [FakeTail]"] by simp
    ultimately have "linked ?h3 (f # vs @ [FakeTail])" by metis
    then have "linked ?h3 (FakeHead # bs @ [FakeTail])"
      using ne fl last_in_set[OF False] by (auto simp del: last_in_set)
    moreover have "hd bs \<in> range Blk" "last bs \<in> range Blk"
      using bs False by (auto simp: subset_iff)
    moreover have "Blk i \<in> set bs" if "hd bs = Blk i \<or> last bs = Blk i" for i
      using that False by (metis hd_in_set last_in_set)
    ultimately show ?thesis
      using False ne bs d det
      by (auto simp: queue_rep_def free_queue_init_def Let_def new_kv_cache_block_def)
  qed
qed

subsection \<open>The contract of the queue\<close>

text \<open>
  What the block pool relies on: a queue represents a list of distinct objects of \<open>univ\<close>, its
  operations act on that list as their names say, and none of them touches the objects' data.
\<close>

locale block_queue =
  fixes rep :: "'q \<Rightarrow> 'a list \<Rightarrow> bool" and univ :: "'a set" and data :: "'q \<Rightarrow> 'd"
    and size :: "'q \<Rightarrow> int"
    and pop_n :: "int \<Rightarrow> 'q \<Rightarrow> ('a list \<times> 'q) result"
    and remove :: "'a \<Rightarrow> 'q \<Rightarrow> 'q result"
    and app_n :: "'a list \<Rightarrow> 'q \<Rightarrow> 'q result"
    and pre_n :: "'a list \<Rightarrow> 'q \<Rightarrow> 'q result"
  assumes rep_unique: "rep q xs \<Longrightarrow> rep q ys \<Longrightarrow> xs = ys"
    and rep_elems: "rep q xs \<Longrightarrow> distinct xs \<and> set xs \<subseteq> univ"
    and rep_size: "rep q xs \<Longrightarrow> size q = int (length xs)"
    and pop_law: "rep q xs \<Longrightarrow> 0 \<le> n \<Longrightarrow> n \<le> int (length xs) \<Longrightarrow>
          \<exists>q'. pop_n n q = Inr (take (nat n) xs, q') \<and> rep q' (drop (nat n) xs) \<and> data q' = data q"
    and pop_short: "rep q xs \<Longrightarrow> int (length xs) < n \<Longrightarrow> pop_n n q = Inl AssertionError"
    and remove_law: "rep q xs \<Longrightarrow> b \<in> set xs \<Longrightarrow>
          \<exists>q'. remove b q = Inr q' \<and> rep q' (remove1 b xs) \<and> data q' = data q"
    and remove_none: "rep q xs \<Longrightarrow> b \<in> univ \<Longrightarrow> b \<notin> set xs \<Longrightarrow> remove b q = Inl RuntimeError"
    and app_law: "rep q xs \<Longrightarrow> distinct bs \<Longrightarrow> set bs \<subseteq> univ \<Longrightarrow> set bs \<inter> set xs = {} \<Longrightarrow>
          \<exists>q'. app_n bs q = Inr q' \<and> rep q' (xs @ bs) \<and> data q' = data q"
    and pre_law: "rep q xs \<Longrightarrow> distinct bs \<Longrightarrow> set bs \<subseteq> univ \<Longrightarrow> set bs \<inter> set xs = {} \<Longrightarrow>
          \<exists>q'. pre_n bs q = Inr q' \<and> rep q' (bs @ xs) \<and> data q' = data q"
begin

lemma pop_result:
  assumes "rep q xs" and "0 \<le> n" and "pop_n n q = Inr (bs, q')"
  shows "n \<le> int (length xs)" and "bs = take (nat n) xs" and "rep q' (drop (nat n) xs)"
    and "data q' = data q"
proof -
  show le: "n \<le> int (length xs)"
    using pop_short[OF assms(1), of n] assms(3) by (cases "n \<le> int (length xs)") auto
  from pop_law[OF assms(1,2) le] assms(3)
  show "bs = take (nat n) xs" "rep q' (drop (nat n) xs)" "data q' = data q" by auto
qed

text \<open>Popping succeeds exactly when the counter says that there are enough objects.\<close>

lemma pop_ok_iff: "rep q xs \<Longrightarrow> 0 \<le> n \<Longrightarrow> (\<exists>r. pop_n n q = Inr r) \<longleftrightarrow> n \<le> size q"
  using pop_law[of q xs n] pop_short[of q xs n] rep_size[of q xs]
  by (cases "n \<le> int (length xs)") auto

text \<open>Two pops are one pop of the sum: blocks leave in the order of the list.\<close>

lemma pop_pop:
  assumes "rep q xs" and "0 \<le> m" "0 \<le> n"
    and "pop_n m q = Inr (as, q1)" and "pop_n n q1 = Inr (bs, q2)"
  shows "\<exists>q'. pop_n (m + n) q = Inr (as @ bs, q') \<and> rep q' (drop (nat (m + n)) xs)"
proof -
  note p1 = pop_result[OF assms(1,2,4)]
  note p2 = pop_result[OF p1(3) assms(3,5)]
  from p1(1) p2(1) assms(2,3) have "m + n \<le> int (length xs)" by auto
  from pop_law[OF assms(1) _ this] assms(2,3) show ?thesis
    using p1(2) p2(2) by (auto simp: nat_add_distrib take_add)
qed

text \<open>First in, first out: appended blocks leave after all the blocks that were waiting.\<close>

lemma app_then_pop:
  assumes "rep q xs" "distinct bs" "set bs \<subseteq> univ" "set bs \<inter> set xs = {}"
    and "app_n bs q = Inr q1" and "pop_n (size q + int (length bs)) q1 = Inr (ys, q2)"
  shows "ys = xs @ bs" and "rep q2 []"
proof -
  from app_law[OF assms(1-4)] assms(5) have "rep q1 (xs @ bs)" by auto
  from pop_result[OF this _ assms(6)] rep_size[OF assms(1)]
  show "ys = xs @ bs" "rep q2 []" by auto
qed

text \<open>Prepended blocks are the next ones to leave.\<close>

lemma pre_then_pop:
  assumes "rep q xs" "distinct bs" "set bs \<subseteq> univ" "set bs \<inter> set xs = {}"
    and "pre_n bs q = Inr q1" and "pop_n (int (length bs)) q1 = Inr (ys, q2)"
  shows "ys = bs" and "rep q2 xs"
proof -
  from pre_law[OF assms(1-4)] assms(5) have "rep q1 (bs @ xs)" by auto
  from pop_result[OF this _ assms(6)] show "ys = bs" "rep q2 xs" by auto
qed

end

interpretation lq: block_queue queue_rep "range Blk" queue_data num_free_blocks
  popleft_n remove_block append_n prepend_n
proof (unfold_locales, goal_cases)
  case (1 q xs ys) then show ?case by (rule queue_rep_unique)
next
  case (2 q xs) then show ?case by (simp add: queue_rep_def)
next
  case (3 q xs) then show ?case by (simp add: queue_rep_def)
next
  case (4 q xs n) then show ?case by (rule popleft_n_rep)
next
  case (5 q xs n) then show ?case by (rule popleft_n_short)
next
  case (6 q xs b) then show ?case by (rule remove_rep)
next
  case (7 q xs b) then show ?case by (rule remove_absent)
next
  case (8 q xs bs) then show ?case by (rule append_n_rep)
next
  case (9 q xs bs) then show ?case by (rule prepend_n_rep)
qed

subsection \<open>Properties\<close>

text \<open>A pool of blocks as the constructor sees it: the \<open>i\<close>-th object is block \<open>i\<close>, unlinked.\<close>

definition fresh_heap :: block_heap where
  "fresh_heap a = (case a of Blk i \<Rightarrow> new_kv_cache_block (int i) | _ \<Rightarrow> new_kv_cache_block (-1))"

lemma fresh_heap_links [simp]:
  "next_free_block (fresh_heap a) = None" "prev_free_block (fresh_heap a) = None"
  by (simp_all add: fresh_heap_def new_kv_cache_block_def split: addr.split)

lemma free_queue_init_fresh:
  "distinct bs \<Longrightarrow> set bs \<subseteq> range Blk \<Longrightarrow> queue_rep (free_queue_init fresh_heap bs) bs"
  by (rule free_queue_init_rep) simp_all

text \<open>The constructor links the blocks it is given in their order: walking the links of the new
  queue returns, and returns exactly that list; its counter is the number of blocks; and the
  attributes of the blocks other than the links are untouched.\<close>

theorem free_queue_init_correct:
  assumes "distinct bs" and "set bs \<subseteq> range Blk"
    and "\<And>i. next_free_block (h (Blk i)) = None \<and> prev_free_block (h (Blk i)) = None"
  shows "get_all_free_blocks (free_queue_init h bs) = Inr (Some bs) \<and>
     num_free_blocks (free_queue_init h bs) = int (length bs) \<and>
     payload (heap (free_queue_init h bs) (Blk i)) = payload (h (Blk i))"
  using free_queue_init_rep[of bs h, OF assms] by (simp add: get_all_free_blocks_rep lq.rep_size)

theorem free_queue_init_correct_witness:
  "get_all_free_blocks (free_queue_init fresh_heap [Blk 0, Blk 1, Blk 2])
     = Inr (Some [Blk 0, Blk 1, Blk 2])"
  using free_queue_init_correct[of "[Blk 0, Blk 1, Blk 2]" fresh_heap 0] by simp

text \<open>C9. On a queue that represents the list \<open>xs\<close>, popping \<open>n\<close> blocks returns the first \<open>n\<close> of them
  and leaves the rest, removing a block takes it out of the middle, appending and prepending
  blocks put them at the end and at the front; none raises, and none changes a reference count,
  a hash or an identifier of any block.\<close>

theorem free_queue_refines_list:
  assumes "queue_rep q xs" and "0 \<le> n" "n \<le> int (length xs)" and "b \<in> set xs"
    and "distinct bs" "set bs \<subseteq> range Blk" "set bs \<inter> set xs = {}"
  shows "(\<exists>q'. popleft_n n q = Inr (take (nat n) xs, q') \<and> queue_rep q' (drop (nat n) xs) \<and>
           queue_data q' = queue_data q) \<and>
     (\<exists>q'. remove_block b q = Inr q' \<and> queue_rep q' (remove1 b xs) \<and>
           queue_data q' = queue_data q) \<and>
     (\<exists>q'. append_n bs q = Inr q' \<and> queue_rep q' (xs @ bs) \<and> queue_data q' = queue_data q) \<and>
     (\<exists>q'. prepend_n bs q = Inr q' \<and> queue_rep q' (bs @ xs) \<and> queue_data q' = queue_data q)"
  using assms by (intro conjI lq.pop_law lq.remove_law lq.app_law lq.pre_law)

theorem free_queue_refines_list_witness:
  "\<exists>q'. popleft_n 2 (free_queue_init fresh_heap [Blk 0, Blk 1, Blk 2]) = Inr ([Blk 0, Blk 1], q') \<and>
     queue_rep q' [Blk 2]"
  using free_queue_refines_list[OF free_queue_init_fresh, of "[Blk 0, Blk 1, Blk 2]" 2 "Blk 1" "[Blk 7]"]
  by (auto simp: numeral_2_eq_2)

text \<open>Popping succeeds exactly when the counter covers the request, otherwise the assertion of
  the code fails; the single-block \<open>popleft\<close> of an empty queue raises \<open>ValueError\<close>; and removing
  a block that is not linked raises \<open>RuntimeError\<close>.\<close>

theorem free_queue_errors:
  assumes "queue_rep q xs"
  shows "(popleft_n n q = Inl AssertionError \<longleftrightarrow> num_free_blocks q < n) \<and>
     (popleft q = Inl ValueError \<longleftrightarrow> num_free_blocks q = 0) \<and>
     (remove_block (Blk i) q = Inl RuntimeError \<longleftrightarrow> Blk i \<notin> set xs)"
proof -
  have 1: "popleft_n n q = Inl AssertionError \<longleftrightarrow> num_free_blocks q < n" if "0 \<le> n"
    using lq.pop_law[OF assms that] lq.pop_short[OF assms, of n] lq.rep_size[OF assms]
    by (cases "n \<le> int (length xs)") auto
  have "popleft_n n q \<noteq> Inl AssertionError \<and> \<not> num_free_blocks q < n" if "n < 0"
    using that lq.rep_size[OF assms] by (simp add: popleft_n_def Let_def split: option.splits)
  with 1 have "popleft_n n q = Inl AssertionError \<longleftrightarrow> num_free_blocks q < n" by (cases "0 \<le> n") auto
  moreover have "popleft q = Inl ValueError \<longleftrightarrow> num_free_blocks q = 0"
    using assms popleft_empty popleft_rep lq.rep_size[OF assms] by (cases xs) fastforce+
  moreover have "remove_block (Blk i) q = Inl RuntimeError \<longleftrightarrow> Blk i \<notin> set xs"
    using lq.remove_law[OF assms, of "Blk i"] lq.remove_none[OF assms, of "Blk i"] by auto
  ultimately show ?thesis by blast
qed

theorem free_queue_errors_witness:
  "popleft_n 3 (free_queue_init fresh_heap [Blk 0, Blk 1]) = Inl AssertionError \<and>
   remove_block (Blk 5) (free_queue_init fresh_heap [Blk 0, Blk 1]) = Inl RuntimeError"
  using free_queue_errors[OF free_queue_init_fresh, of "[Blk 0, Blk 1]" 3 5]
  by (auto simp: free_queue_init_def)

end
