(* ===== verification/Hash_Keys.thy ===== *)
theory Hash_Keys
  imports Prelude
begin

section \<open>Block-hash keys\<close>

text \<open>
  The key of the prefix cache is the hash of a block followed by the identifier of its KV-cache
  group in four big-endian bytes: \<open>make_block_hash_with_group_id\<close>, \<open>get_block_hash\<close> and
  \<open>get_group_id\<close> of vllm/v1/core/kv\_cache\_utils.py. \<open>maybe_convert_block_hash\<close> gives the form of
  a hash that leaves the process in an event; the environment variable
  \<open>VLLM_KV_EVENTS_USE_INT_BLOCK_HASHES\<close> is its first argument. \<open>BlockHashListWithBlockSize\<close>
  reads a list of hashes at a coarser block size.

  The lemmas show that packing and unpacking are inverse, that distinct pairs have distinct keys,
  and that the coarser list is the list of concatenations.
\<close>

unbundle bit_operations_syntax

definition make_block_hash_with_group_id :: "bytes \<Rightarrow> int \<Rightarrow> bytes result" where
  "make_block_hash_with_group_id block_hash group_id =
     bindE (to_bytes_be 4 group_id) (\<lambda>g. Inr (block_hash @ g))"

definition get_block_hash :: "bytes \<Rightarrow> bytes" where
  "get_block_hash key = py_slice_to key (-4)"

definition get_group_id :: "bytes \<Rightarrow> int" where
  "get_group_id key = from_bytes_be (py_slice_from key (-4))"

datatype external_block_hash = ExtBytes bytes | ExtInt int

definition maybe_convert_block_hash :: "bool \<Rightarrow> bytes \<Rightarrow> external_block_hash" where
  "maybe_convert_block_hash use_int hash_bytes =
     (if \<not> use_int then ExtBytes hash_bytes
      else ExtInt (from_bytes_be hash_bytes AND ((push_bit 64 1) - 1)))"

subsection \<open>Hash lists at a coarser block size\<close>

record block_hash_list_with_block_size =
  bhl_block_hashes :: "bytes list"
  scale_factor :: int

definition bhl_init ::
  "bytes list \<Rightarrow> int \<Rightarrow> int \<Rightarrow> block_hash_list_with_block_size result" where
  "bhl_init block_hashes hash_block_size target_block_size =
     bindE (assertE (target_block_size mod hash_block_size = 0)) (\<lambda>_.
       Inr \<lparr>bhl_block_hashes = block_hashes,
            scale_factor = target_block_size div hash_block_size\<rparr>)"

definition bhl_len :: "block_hash_list_with_block_size \<Rightarrow> int" where
  "bhl_len l = int (length (bhl_block_hashes l)) div scale_factor l"

definition bhl_get_value_at :: "block_hash_list_with_block_size \<Rightarrow> int \<Rightarrow> bytes" where
  "bhl_get_value_at l idx =
     (let base = idx * scale_factor l; stop = base + scale_factor l
      in concat (py_slice (bhl_block_hashes l) base stop))"

text \<open>\<open>l[a:]\<close>, \<open>l[:b]\<close> and iteration: the indices are clamped to the length, then read one by one.\<close>

definition bhl_slice_from :: "block_hash_list_with_block_size \<Rightarrow> int \<Rightarrow> bytes list" where
  "bhl_slice_from l a = map (bhl_get_value_at l) [slice_bound (bhl_len l) a..bhl_len l - 1]"

definition bhl_iter :: "block_hash_list_with_block_size \<Rightarrow> bytes list" where
  "bhl_iter l = map (bhl_get_value_at l) [0..bhl_len l - 1]"

subsection \<open>Packing and unpacking\<close>

lemma make_key_iff:
  "make_block_hash_with_group_id h g = Inr k \<longleftrightarrow> 0 \<le> g \<and> g < 256 ^ 4 \<and> k = h @ int_bytes 4 g"
  by (auto simp: make_block_hash_with_group_id_def bindE_Inr_iff to_bytes_be_cases)

lemma make_key_error:
  "make_block_hash_with_group_id h g = Inl e \<longleftrightarrow> \<not> (0 \<le> g \<and> g < 256 ^ 4) \<and> e = OverflowError"
  by (auto simp: make_block_hash_with_group_id_def bindE_Inl_iff to_bytes_be_cases)

lemma get_block_hash_append: "length g = 4 \<Longrightarrow> get_block_hash (h @ g) = h"
  by (simp add: get_block_hash_def py_slice_to_def slice_bound_def)

lemma get_group_id_append: "length g = 4 \<Longrightarrow> get_group_id (h @ g) = from_bytes_be g"
  by (simp add: get_group_id_def py_slice_from_def slice_bound_def)

lemma key_round_trip:
  assumes "make_block_hash_with_group_id h g = Inr k"
  shows "get_block_hash k = h" and "get_group_id k = g"
  using assms by (auto simp: make_key_iff get_block_hash_append get_group_id_append
      from_bytes_int_bytes)

lemma make_key_inj:
  assumes "make_block_hash_with_group_id h g = Inr k" "make_block_hash_with_group_id h' g' = Inr k"
  shows "h = h'" and "g = g'"
  using key_round_trip[OF assms(1)] key_round_trip[OF assms(2)] by simp_all

text \<open>C12. Packing a hash with a group identifier succeeds exactly for identifiers that fit in four
  unsigned bytes and raises \<open>OverflowError\<close> otherwise; unpacking a key recovers both components, so
  two different (hash, group) pairs never share a key of the prefix cache.\<close>

theorem block_hash_key_round_trip:
  "case make_block_hash_with_group_id h g of
     Inr k \<Rightarrow> 0 \<le> g \<and> g < 2 ^ 32 \<and> get_block_hash k = h \<and> get_group_id k = g
   | Inl e \<Rightarrow> (g < 0 \<or> 2 ^ 32 \<le> g) \<and> e = OverflowError"
proof (cases "make_block_hash_with_group_id h g")
  case (Inl e)
  then have "\<not> (0 \<le> g \<and> g < 2 ^ 32) \<and> e = OverflowError" by (simp add: make_key_error)
  with Inl show ?thesis by auto
next
  case (Inr k)
  then have "0 \<le> g \<and> g < 2 ^ 32" by (simp add: make_key_iff)
  with Inr key_round_trip[OF Inr] show ?thesis by simp
qed

text \<open>The integer form of a hash is its value modulo \<open>2^64\<close>, so it fits in eight bytes.\<close>

lemma maybe_convert_int:
  "maybe_convert_block_hash True b = ExtInt (from_bytes_be b mod 2 ^ 64)"
proof -
  have "push_bit 64 1 - 1 = (mask 64 :: int)" by (simp add: mask_eq_exp_minus_1 push_bit_eq_mult)
  then have "maybe_convert_block_hash True b = ExtInt (take_bit 64 (from_bytes_be b))"
    by (simp only: maybe_convert_block_hash_def take_bit_eq_mask simp_thms if_False)
  then show ?thesis by (simp add: take_bit_eq_mod)
qed

subsection \<open>The coarser list\<close>

lemma bhl_init_iff:
  "bhl_init bh hs ts = Inr l \<longleftrightarrow>
     ts mod hs = 0 \<and> l = \<lparr>bhl_block_hashes = bh, scale_factor = ts div hs\<rparr>"
  by (auto simp: bhl_init_def bindE_Inr_iff)

lemma bhl_get_value_at_nonneg:
  assumes "0 \<le> i" and "0 < scale_factor l"
  shows "bhl_get_value_at l i =
    concat (take (nat (scale_factor l)) (drop (nat i * nat (scale_factor l)) (bhl_block_hashes l)))"
proof -
  have "0 \<le> i * scale_factor l" using assms by simp
  moreover have "nat (i * scale_factor l + scale_factor l) - nat (i * scale_factor l)
      = nat (scale_factor l)" using assms by (subst nat_add_distrib) simp_all
  ultimately show ?thesis
    using assms by (simp add: bhl_get_value_at_def py_slice_nonneg nat_mult_distrib)
qed

lemma bhl_slice_from_nonneg:
  assumes "0 \<le> a" and "a \<le> bhl_len l"
  shows "length (bhl_slice_from l a) = nat (bhl_len l - a)"
    and "i < nat (bhl_len l - a) \<Longrightarrow> bhl_slice_from l a ! i = bhl_get_value_at l (a + int i)"
  using assms by (simp_all add: bhl_slice_from_def slice_bound_def)

text \<open>Reading hashes at \<open>k\<close> times the block size splits the list of hashes into consecutive
  groups of \<open>k\<close>: joining all the coarse hashes gives the join of the complete groups, in order,
  and every coarse hash is the concatenation of \<open>k\<close> hashes.\<close>

theorem coarse_hash_list_correct:
  assumes "bhl_init hashes hash_block_size (int k * hash_block_size) = Inr l"
    and "0 < k" and "0 < hash_block_size"
  shows "concat (bhl_iter l) = concat (take (length hashes div k * k) hashes) \<and>
     bhl_len l = int (length hashes div k)"
proof -
  have l: "bhl_block_hashes l = hashes" "scale_factor l = int k"
    using assms by (auto simp: bhl_init_iff)
  have len: "bhl_len l = int (length hashes div k)"
    by (simp add: bhl_len_def l zdiv_int)
  have val: "bhl_get_value_at l (int i) = concat (take k (drop (i * k) hashes))" for i
    using assms(2) l by (simp add: bhl_get_value_at_nonneg)
  have iter: "bhl_iter l = map (\<lambda>i. concat (take k (drop (i * k) hashes))) [0..<length hashes div k]"
    unfolding bhl_iter_def len by (rule nth_equalityI) (simp_all add: val)
  have "concat (map (\<lambda>i. concat (take k (drop (i * k) hashes))) [0..<n]) = concat (take (n * k) hashes)" for n
  proof (induction n)
    case (Suc n)
    have "take (Suc n * k) hashes = take (n * k) hashes @ take k (drop (n * k) hashes)"
      by (simp add: take_add add.commute[of k])
    with Suc show ?case by simp
  qed simp
  with iter len show ?thesis by simp
qed

theorem coarse_hash_list_correct_witness:
  "concat (bhl_iter \<lparr>bhl_block_hashes = [[1], [2], [3], [4], [5]], scale_factor = 2\<rparr>) = [1, 2, 3, 4]"
  using coarse_hash_list_correct[of "[[1], [2], [3], [4], [5]]" 16 2
      "\<lparr>bhl_block_hashes = [[1], [2], [3], [4], [5]], scale_factor = 2\<rparr>"]
  by (simp add: bhl_init_iff)

end
