(* ===== verification/Request.thy ===== *)
theory Request
  imports Prelude "HOL-Library.Char_ord" "HOL-Library.List_Lexorder" "HOL-Library.Product_Lexorder"
begin

section \<open>Requests\<close>

text \<open>
  The data of a request: \<open>Request\<close> and \<open>RequestStatus\<close> of vllm/v1/request.py with the parts of
  \<open>SamplingParams\<close>, \<open>PoolingParams\<close>, \<open>LoRARequest\<close>, \<open>MultiModalFeatureSpec\<close> and
  \<open>PlaceholderRange\<close> (vllm/multimodal/inputs.py) that the scheduler and the KV-cache code read.

  A prompt-embeddings tensor is the list of its rows, each row the bytes of its storage. The
  block hasher of a request, a closure in the code, is the pair of what it closes over: the block
  size and the hash function. The identity \<open>id(self)\<close> that breaks ties of the priority order is
  the field \<open>obj_id\<close>. Floating-point times are exact rationals. Fields that only travel through
  (trace headers, connector parameters, statistics) are not part of the record.
\<close>

subsection \<open>Multi-modal inputs\<close>

record placeholder_range =
  offset :: int
  range_length :: int
  is_embed :: "bool list option"

text \<open>\<open>embeds_cumsum\<close>: the running number of positions that receive an embedding.\<close>

fun cumsum :: "int \<Rightarrow> bool list \<Rightarrow> int list" where
  "cumsum acc [] = []"
| "cumsum acc (b # bs) = (let acc' = acc + (if b then 1 else 0) in acc' # cumsum acc' bs)"

definition embeds_cumsum :: "placeholder_range \<Rightarrow> int list option" where
  "embeds_cumsum p = map_option (cumsum 0) (is_embed p)"

definition get_num_embeds :: "placeholder_range \<Rightarrow> int" where
  "get_num_embeds p =
     (case embeds_cumsum p of
        None \<Rightarrow> range_length p
      | Some cs \<Rightarrow> if cs \<noteq> [] then last cs else 0)"

definition get_embeds_indices_in_range ::
  "placeholder_range \<Rightarrow> int \<Rightarrow> int \<Rightarrow> (int \<times> int) result" where
  "get_embeds_indices_in_range p start_idx end_idx =
     (case embeds_cumsum p of
        None \<Rightarrow> Inr (start_idx, end_idx)
      | Some cs \<Rightarrow>
          bindE (if 0 < start_idx then py_index cs (start_idx - 1) else Inr 0) (\<lambda>embeds_start_idx.
          bindE (if 0 < end_idx then py_index cs (end_idx - 1) else Inr 0) (\<lambda>embeds_end_idx.
            Inr (embeds_start_idx, embeds_end_idx))))"

record mm_feature =
  modality :: string
  mm_identifier :: string
  mm_position :: placeholder_range

subsection \<open>Parameters of a request\<close>

record lora_request_data =
  lora_name :: string
  lora_int_id :: int

record repetition_detection_params =
  max_pattern_size :: int
  min_pattern_size :: int
  min_count :: int

record sampling_params_data =
  sp_max_tokens :: "int option"
  min_tokens :: int
  eos_token_id :: "int option"
  stop_token_ids :: "int list option"
  repetition_detection :: "repetition_detection_params option"
  sp_skip_reading_prefix_cache :: "bool option"
  sp_structured_outputs :: bool

record pooling_params_data =
  pp_skip_reading_prefix_cache :: "bool option"

datatype request_status =
    WAITING
  | WAITING_FOR_STRUCTURED_OUTPUT_GRAMMAR
  | WAITING_FOR_REMOTE_KVS
  | WAITING_FOR_STREAMING_REQ
  | RUNNING
  | PREEMPTED
  | FINISHED_STOPPED
  | FINISHED_LENGTH_CAPPED
  | FINISHED_ABORTED
  | FINISHED_IGNORED
  | FINISHED_ERROR
  | FINISHED_REPETITION

text \<open>\<open>enum.auto()\<close> numbers the members from one; an \<open>IntEnum\<close> compares by these numbers.\<close>

fun status_value :: "request_status \<Rightarrow> nat" where
  "status_value WAITING = 1"
| "status_value WAITING_FOR_STRUCTURED_OUTPUT_GRAMMAR = 2"
| "status_value WAITING_FOR_REMOTE_KVS = 3"
| "status_value WAITING_FOR_STREAMING_REQ = 4"
| "status_value RUNNING = 5"
| "status_value PREEMPTED = 6"
| "status_value FINISHED_STOPPED = 7"
| "status_value FINISHED_LENGTH_CAPPED = 8"
| "status_value FINISHED_ABORTED = 9"
| "status_value FINISHED_IGNORED = 10"
| "status_value FINISHED_ERROR = 11"
| "status_value FINISHED_REPETITION = 12"

lemma status_value_inject [simp]: "status_value s = status_value t \<longleftrightarrow> s = t"
  by (cases s; cases t) simp_all

instantiation request_status :: linorder
begin

definition less_eq_request_status :: "request_status \<Rightarrow> request_status \<Rightarrow> bool" where
  "less_eq_request_status s t \<longleftrightarrow> status_value s \<le> status_value t"

definition less_request_status :: "request_status \<Rightarrow> request_status \<Rightarrow> bool" where
  "less_request_status s t \<longleftrightarrow> status_value s < status_value t"

instance
  by standard (auto simp: less_eq_request_status_def less_request_status_def)

end

definition status_is_finished :: "request_status \<Rightarrow> bool" where
  "status_is_finished s \<longleftrightarrow> s > PREEMPTED"

datatype finish_reason =
  FINISH_STOP | FINISH_LENGTH | FINISH_ABORT | FINISH_ERROR | FINISH_REPETITION

fun get_finished_reason :: "request_status \<Rightarrow> finish_reason option" where
  "get_finished_reason FINISHED_STOPPED = Some FINISH_STOP"
| "get_finished_reason FINISHED_LENGTH_CAPPED = Some FINISH_LENGTH"
| "get_finished_reason FINISHED_ABORTED = Some FINISH_ABORT"
| "get_finished_reason FINISHED_IGNORED = Some FINISH_LENGTH"
| "get_finished_reason FINISHED_ERROR = Some FINISH_ERROR"
| "get_finished_reason WAITING_FOR_STREAMING_REQ = Some FINISH_STOP"
| "get_finished_reason FINISHED_REPETITION = Some FINISH_REPETITION"
| "get_finished_reason _ = None"

subsection \<open>The request\<close>

text \<open>An element of the tuple of extra keys: a string, a multi-modal pair, or a digest.\<close>

datatype extra_key = StrKey string | MmKey string int | BytesKey bytes

type_synonym hash_input = "bytes \<times> int list \<times> extra_key list option"

record block_hasher_closure =
  hasher_block_size :: int
  caching_hash_fn :: "hash_input \<Rightarrow> bytes"

datatype stop_reason_value = StopToken int | StopString string

record request =
  request_id :: string
  obj_id :: nat
  client_index :: int
  priority :: int
  arrival_time :: rat
  sampling_params :: "sampling_params_data option"
  pooling_params :: "pooling_params_data option"
  lora_request :: "lora_request_data option"
  structured_output_request :: bool
  status :: request_status
  stop_reason :: "stop_reason_value option"
  max_tokens :: int
  prompt_token_ids :: "int list option"
  prompt_embeds :: "bytes list option"
  prompt_embeds_per_block_hashes :: "(int \<times> int, bytes) dict"
  num_prompt_tokens :: int
  output_token_ids :: "int list"
  all_token_ids :: "int list"
  num_output_placeholders :: int
  async_tokens_to_discard :: int
  next_decode_eligible_step :: int
  spec_token_ids :: "int list"
  num_computed_tokens :: int
  cache_salt :: "string option"
  mm_features :: "mm_feature list"
  is_prefill_chunk :: bool
  num_nans_in_logits :: int
  num_preemptions :: int
  block_hashes :: "bytes list"
  block_hasher :: "block_hasher_closure option"
  skip_reading_prefix_cache :: bool
  resumable :: bool
  abort_immediately :: bool

definition num_tokens :: "request \<Rightarrow> int" where
  "num_tokens r = int (length (all_token_ids r))"

definition num_tokens_with_spec :: "request \<Rightarrow> int" where
  "num_tokens_with_spec r = int (length (all_token_ids r)) + int (length (spec_token_ids r))"

definition num_output_tokens :: "request \<Rightarrow> int" where
  "num_output_tokens r = int (length (output_token_ids r))"

definition num_encoder_inputs :: "request \<Rightarrow> int" where
  "num_encoder_inputs r = int (length (mm_features r))"

definition has_encoder_inputs :: "request \<Rightarrow> bool" where
  "has_encoder_inputs r \<longleftrightarrow> num_encoder_inputs r > 0"

definition use_structured_output :: "request \<Rightarrow> bool" where
  "use_structured_output r = structured_output_request r"

definition get_skip_reading_prefix_cache ::
  "sampling_params_data option \<Rightarrow> pooling_params_data option \<Rightarrow> bool" where
  "get_skip_reading_prefix_cache sp pp =
     (case Option.bind sp sp_skip_reading_prefix_cache of
        Some b \<Rightarrow> b
      | None \<Rightarrow> (case Option.bind pp pp_skip_reading_prefix_cache of Some b \<Rightarrow> b | None \<Rightarrow> False))"

definition is_finished :: "request \<Rightarrow> bool" where
  "is_finished r = status_is_finished (status r)"

definition get_num_encoder_embeds :: "request \<Rightarrow> int \<Rightarrow> int result" where
  "get_num_encoder_embeds r input_id =
     bindE (assertE (input_id < int (length (mm_features r)))) (\<lambda>_.
     bindE (py_index (mm_features r) input_id) (\<lambda>f. Inr (get_num_embeds (mm_position f))))"

text \<open>\<open>__lt__\<close>: priority, then arrival time, then identifier, then object identity.\<close>

definition request_lt :: "request \<Rightarrow> request \<Rightarrow> bool" where
  "request_lt a b =
     (if priority a \<noteq> priority b then priority a < priority b
      else if arrival_time a \<noteq> arrival_time b then arrival_time a < arrival_time b
      else if request_id a \<noteq> request_id b then request_id a < request_id b
      else obj_id a < obj_id b)"

definition length_from_prompt_token_ids_or_embeds ::
  "int list option \<Rightarrow> bytes list option \<Rightarrow> int result" where
  "length_from_prompt_token_ids_or_embeds toks embeds =
     (case toks of
        None \<Rightarrow>
          (case embeds of None \<Rightarrow> Inl ValueError | Some es \<Rightarrow> Inr (int (length es)))
      | Some ts \<Rightarrow>
          (case embeds of
             None \<Rightarrow> Inr (int (length ts))
           | Some es \<Rightarrow>
               if length es \<noteq> length ts then Inl ValueError else Inr (int (length ts))))"

subsection \<open>Lemmas\<close>

lemma length_cumsum [simp]: "length (cumsum a bs) = length bs"
  by (induction bs arbitrary: a) (simp_all add: Let_def)

lemma cumsum_nth:
  "i < length bs \<Longrightarrow> cumsum a bs ! i = a + int (length (filter id (take (Suc i) bs)))"
proof (induction bs arbitrary: a i)
  case (Cons b bs)
  then show ?case by (cases i) (auto simp: Let_def)
qed simp

lemma get_num_embeds_mask:
  assumes "is_embed p = Some m"
  shows "get_num_embeds p = int (length (filter id m))"
proof (cases "m = []")
  case True
  with assms show ?thesis by (simp add: get_num_embeds_def embeds_cumsum_def)
next
  case False
  then have ne: "cumsum 0 m \<noteq> []" by (metis length_cumsum length_0_conv)
  then have "last (cumsum 0 m) = int (length (filter id m))"
    using False by (simp add: last_conv_nth cumsum_nth)
  with assms ne show ?thesis by (simp add: get_num_embeds_def embeds_cumsum_def)
qed

text \<open>
  The finished statuses are exactly the ones with a finish reason, but for the sessions that wait
  for more input, whose reason is reported at the end of each turn.
\<close>

lemma finished_reason_iff:
  "get_finished_reason s \<noteq> None \<longleftrightarrow> status_is_finished s \<or> s = WAITING_FOR_STREAMING_REQ"
  by (cases s) (simp_all add: status_is_finished_def less_request_status_def)

text \<open>The order of requests is a strict linear order on objects.\<close>

abbreviation request_key :: "request \<Rightarrow> int \<times> rat \<times> string \<times> nat" where
  "request_key r \<equiv> (priority r, arrival_time r, request_id r, obj_id r)"

lemma request_lt_key: "request_lt a b \<longleftrightarrow> request_key a < request_key b"
  unfolding request_lt_def less_prod_simp by (simp add: order.order_iff_strict) blast

lemma request_lt_irrefl: "\<not> request_lt a a"
  by (simp add: request_lt_key)

lemma request_lt_trans: "request_lt a b \<Longrightarrow> request_lt b c \<Longrightarrow> request_lt a c"
  unfolding request_lt_key by (rule less_trans)

lemma request_lt_total:
  "obj_id a \<noteq> obj_id b \<Longrightarrow> request_lt a b \<or> request_lt b a"
  unfolding request_lt_key by (metis Pair_inject linorder_neqE)

end
