(* ===== verification/Block_Hashing.thy ===== *)
theory Block_Hashing
  imports Request Hash_Keys
begin

section \<open>Block hashes of a request\<close>

text \<open>
  The hashes under which the full blocks of a request are cached: \<open>need_extra_keys\<close>,
  \<open>_gen_mm_extra_hash_keys\<close>, \<open>_gen_lora_extra_hash_keys\<close>, \<open>_gen_prompt_embeds_extra_hash_keys\<close>,
  \<open>generate_block_hash_extra_keys\<close>, \<open>hash_block_tokens\<close> and \<open>get_request_block_hasher\<close> of
  vllm/v1/core/kv\_cache\_utils.py, the methods of \<open>Request\<close> that call them, its constructor, and
  the update of a streaming session (\<open>_update_request_as_session\<close> of the scheduler).

  The hash function of a request, the digest of prompt embeddings, the seed \<open>NONE_HASH\<close> and the
  environment variable \<open>VLLM_KV_EVENTS_USE_INT_BLOCK_HASHES\<close> are parameters. The lemmas compare the incremental computation with a reference that hashes every
  block from the whole request, and show what equal hashes say about two requests when the hash
  function does not collide on their inputs.
\<close>

record hash_env =
  none_hash :: bytes
  sha256 :: "bytes \<Rightarrow> bytes"
  use_int_block_hashes :: bool

subsection \<open>Extra keys\<close>

definition need_extra_keys :: "request \<Rightarrow> bool" where
  "need_extra_keys r \<longleftrightarrow>
     mm_features r \<noteq> [] \<or> lora_request r \<noteq> None \<or> cache_salt r \<noteq> None"

abbreviation mm_offset :: "mm_feature \<Rightarrow> int" where
  "mm_offset f \<equiv> offset (mm_position f)"

abbreviation mm_end :: "mm_feature \<Rightarrow> int" where
  "mm_end f \<equiv> offset (mm_position f) + range_length (mm_position f)"

text \<open>The \<open>while\<close> loop over the inputs from \<open>curr_mm_idx\<close> on.\<close>

fun mm_keys_loop :: "mm_feature list \<Rightarrow> int \<Rightarrow> int \<Rightarrow> int \<Rightarrow> extra_key list \<times> int" where
  "mm_keys_loop [] start_token_idx end_token_idx curr_mm_idx = ([], curr_mm_idx)"
| "mm_keys_loop (f # fs) start_token_idx end_token_idx curr_mm_idx =
     (if end_token_idx > mm_offset f then
        if start_token_idx \<ge> mm_end f
        then mm_keys_loop fs start_token_idx end_token_idx (curr_mm_idx + 1)
        else
          let key = MmKey (mm_identifier f) (mm_offset f - start_token_idx) in
          if end_token_idx \<ge> mm_end f then
            let (keys, idx) = mm_keys_loop fs start_token_idx end_token_idx (curr_mm_idx + 1)
            in (key # keys, idx)
          else ([key], curr_mm_idx)
      else ([], curr_mm_idx))"

definition gen_mm_extra_hash_keys ::
  "request \<Rightarrow> int \<Rightarrow> int \<Rightarrow> int \<Rightarrow> (extra_key list \<times> int) result" where
  "gen_mm_extra_hash_keys r start_token_idx end_token_idx start_mm_idx =
     (let feats = mm_features r in
      if feats = [] then Inr ([], start_mm_idx)
      else if mm_end (last feats) \<le> start_token_idx then Inr ([], start_mm_idx)
      else
        bindE (if start_mm_idx < 0 then
                 bindE (assertE (- start_mm_idx \<le> int (length feats)))
                   (\<lambda>_. Inr (int (length feats) + start_mm_idx))
               else Inr start_mm_idx)
          (\<lambda>idx. Inr (mm_keys_loop (drop (nat idx) feats) start_token_idx end_token_idx idx)))"

definition gen_lora_extra_hash_keys :: "request \<Rightarrow> extra_key list" where
  "gen_lora_extra_hash_keys r =
     (case lora_request r of None \<Rightarrow> [] | Some l \<Rightarrow> [StrKey (lora_name l)])"

text \<open>The digest of a slice of the embeddings is computed once and kept on the request.\<close>

definition gen_prompt_embeds_extra_hash_keys ::
  "hash_env \<Rightarrow> request \<Rightarrow> int \<Rightarrow> int \<Rightarrow> extra_key list \<times> request" where
  "gen_prompt_embeds_extra_hash_keys env r start_token_idx end_token_idx =
     (case prompt_embeds r of
        None \<Rightarrow> ([], r)
      | Some embeds \<Rightarrow>
          (case dict_get (prompt_embeds_per_block_hashes r) (start_token_idx, end_token_idx) of
             Some embeds_hash \<Rightarrow> ([BytesKey embeds_hash], r)
           | None \<Rightarrow>
               let embeds_hash = sha256 env (concat (py_slice embeds start_token_idx end_token_idx))
               in ([BytesKey embeds_hash],
                   r\<lparr>prompt_embeds_per_block_hashes :=
                       dict_set (start_token_idx, end_token_idx) embeds_hash
                         (prompt_embeds_per_block_hashes r)\<rparr>)))"

definition cache_salt_keys :: "request \<Rightarrow> int \<Rightarrow> extra_key list" where
  "cache_salt_keys r start_token_idx =
     (case cache_salt r of
        None \<Rightarrow> []
      | Some salt \<Rightarrow> if start_token_idx = 0 \<and> salt \<noteq> [] then [StrKey salt] else [])"

definition generate_block_hash_extra_keys ::
  "hash_env \<Rightarrow> request \<Rightarrow> int \<Rightarrow> int \<Rightarrow> int \<Rightarrow> (extra_key list option \<times> int \<times> request) result" where
  "generate_block_hash_extra_keys env r start_token_idx end_token_idx start_mm_idx =
     bindE (gen_mm_extra_hash_keys r start_token_idx end_token_idx start_mm_idx)
       (\<lambda>(mm_extra_keys, new_start_mm_idx).
         let lora_extra_keys = gen_lora_extra_hash_keys r;
             salt_keys = cache_salt_keys r start_token_idx;
             (prompt_embeds_keys, r') =
               gen_prompt_embeds_extra_hash_keys env r start_token_idx end_token_idx;
             extra_keys = lora_extra_keys @ mm_extra_keys @ salt_keys @ prompt_embeds_keys
         in Inr (if extra_keys = [] then None else Some extra_keys, new_start_mm_idx, r'))"

subsection \<open>Hashes\<close>

definition hash_block_tokens ::
  "hash_env \<Rightarrow> (hash_input \<Rightarrow> bytes) \<Rightarrow> bytes option \<Rightarrow> int list \<Rightarrow> extra_key list option \<Rightarrow> bytes" where
  "hash_block_tokens env hash_function parent_block_hash curr_block_token_ids extra_keys =
     (let parent = (case parent_block_hash of
                      None \<Rightarrow> none_hash env
                    | Some p \<Rightarrow> if p = [] then none_hash env else p)
      in hash_function (parent, curr_block_token_ids, extra_keys))"

function hasher_loop ::
  "hash_env \<Rightarrow> block_hasher_closure \<Rightarrow> int \<Rightarrow> request \<Rightarrow> int \<Rightarrow> bytes option \<Rightarrow> int \<Rightarrow>
     (bytes list \<times> request) result" where
  "hasher_loop env c n_tokens r start_token_idx prev_block_hash_value curr_mm_idx =
     (let end_token_idx = start_token_idx + hasher_block_size c in
      if end_token_idx > n_tokens then Inr ([], r)
      else if hasher_block_size c \<le> 0 then Inl NonTermination
      else
        bindE (generate_block_hash_extra_keys env r start_token_idx end_token_idx curr_mm_idx)
          (\<lambda>(extra_keys, curr_mm_idx', r').
            let block_tokens = py_slice (all_token_ids r') start_token_idx end_token_idx;
                block_hash = hash_block_tokens env (caching_hash_fn c) prev_block_hash_value
                               block_tokens extra_keys
            in bindE (hasher_loop env c n_tokens r' end_token_idx (Some block_hash) curr_mm_idx')
                 (\<lambda>(new_block_hashes, r''). Inr (block_hash # new_block_hashes, r''))))"
  by pat_completeness auto
termination
  by (relation "measure (\<lambda>(env, c, n, r, s, p, i). nat (n - s))") auto

declare hasher_loop.simps [simp del]

definition request_block_hasher ::
  "hash_env \<Rightarrow> block_hasher_closure \<Rightarrow> request \<Rightarrow> (bytes list \<times> request) result" where
  "request_block_hasher env c r =
     (let start_token_idx = int (length (block_hashes r)) * hasher_block_size c;
          n_tokens = num_tokens r
      in if start_token_idx + hasher_block_size c > n_tokens then Inr ([], r)
         else
           let curr_mm_idx = (if start_token_idx > 0 then -1 else 0);
               prev_block_hash_value =
                 (if block_hashes r \<noteq> [] then Some (last (block_hashes r)) else None)
           in hasher_loop env c n_tokens r start_token_idx prev_block_hash_value curr_mm_idx)"

definition update_block_hashes :: "hash_env \<Rightarrow> request \<Rightarrow> request result" where
  "update_block_hashes env r =
     (case block_hasher r of
        None \<Rightarrow> Inr r
      | Some c \<Rightarrow>
          bindE (request_block_hasher env c r)
            (\<lambda>(new_hashes, r'). Inr (r'\<lparr>block_hashes := block_hashes r' @ new_hashes\<rparr>)))"

definition append_output_token_ids :: "hash_env \<Rightarrow> int list \<Rightarrow> request \<Rightarrow> request result" where
  "append_output_token_ids env token_ids r =
     update_block_hashes env
       (r\<lparr>output_token_ids := output_token_ids r @ token_ids,
          all_token_ids := all_token_ids r @ token_ids\<rparr>)"

subsection \<open>The constructor\<close>

text \<open>The arguments of \<open>Request.__init__\<close>; \<open>now\<close> is the value of \<open>time.time()\<close>.\<close>

record request_args =
  arg_request_id :: string
  arg_prompt_token_ids :: "int list option"
  arg_sampling_params :: "sampling_params_data option"
  arg_pooling_params :: "pooling_params_data option"
  arg_client_index :: int
  arg_arrival_time :: "rat option"
  arg_prompt_embeds :: "bytes list option"
  arg_mm_features :: "mm_feature list option"
  arg_lora_request :: "lora_request_data option"
  arg_cache_salt :: "string option"
  arg_priority :: int
  arg_resumable :: bool
  arg_abort_immediately :: bool

definition request_init ::
  "hash_env \<Rightarrow> nat \<Rightarrow> rat \<Rightarrow> block_hasher_closure option \<Rightarrow> request_args \<Rightarrow> request result" where
  "request_init env oid now hasher a =
     (let so = (case arg_sampling_params a of None \<Rightarrow> False | Some sp \<Rightarrow> sp_structured_outputs sp) in
      bindE (case arg_pooling_params a of
               Some _ \<Rightarrow> Inr (1, WAITING)
             | None \<Rightarrow>
                 (case arg_sampling_params a of
                    None \<Rightarrow> Inl ValueError
                  | Some sp \<Rightarrow>
                      (case sp_max_tokens sp of
                         None \<Rightarrow> Inl AssertionError
                       | Some m \<Rightarrow>
                           Inr (m, if so then WAITING_FOR_STRUCTURED_OUTPUT_GRAMMAR else WAITING))))
        (\<lambda>(max_toks, st).
      bindE (length_from_prompt_token_ids_or_embeds (arg_prompt_token_ids a) (arg_prompt_embeds a))
        (\<lambda>n_prompt.
      update_block_hashes env
        \<lparr>request_id = arg_request_id a, obj_id = oid, client_index = arg_client_index a,
         priority = arg_priority a,
         arrival_time = (case arg_arrival_time a of Some t \<Rightarrow> t | None \<Rightarrow> now),
         sampling_params = arg_sampling_params a, pooling_params = arg_pooling_params a,
         lora_request = arg_lora_request a, structured_output_request = so, status = st,
         stop_reason = None, max_tokens = max_toks,
         prompt_token_ids = arg_prompt_token_ids a, prompt_embeds = arg_prompt_embeds a,
         prompt_embeds_per_block_hashes = [], num_prompt_tokens = n_prompt,
         output_token_ids = [],
         all_token_ids = (case arg_prompt_token_ids a of
                            Some ts \<Rightarrow> ts | None \<Rightarrow> replicate (nat n_prompt) 0),
         num_output_placeholders = 0, async_tokens_to_discard = 0,
         next_decode_eligible_step = 0, spec_token_ids = [], num_computed_tokens = 0,
         cache_salt = arg_cache_salt a,
         mm_features = (case arg_mm_features a of None \<Rightarrow> [] | Some fs \<Rightarrow> fs),
         is_prefill_chunk = False, num_nans_in_logits = 0, num_preemptions = 0,
         block_hashes = [], block_hasher = hasher,
         skip_reading_prefix_cache =
           get_skip_reading_prefix_cache (arg_sampling_params a) (arg_pooling_params a),
         resumable = arg_resumable a, abort_immediately = arg_abort_immediately a\<rparr>)))"

subsection \<open>Streaming sessions\<close>

record streaming_update =
  su_mm_features :: "mm_feature list option"
  su_prompt_token_ids :: "int list option"
  su_max_tokens :: int
  su_arrival_time :: rat
  su_sampling_params :: "sampling_params_data option"

definition streaming_update_from_request :: "request \<Rightarrow> streaming_update option" where
  "streaming_update_from_request r =
     (if \<not> resumable r then None
      else Some \<lparr>su_mm_features = Some (mm_features r), su_prompt_token_ids = prompt_token_ids r,
                 su_max_tokens = max_tokens r, su_arrival_time = arrival_time r,
                 su_sampling_params = sampling_params r\<rparr>)"

definition shift_mm_feature :: "int \<Rightarrow> mm_feature \<Rightarrow> mm_feature" where
  "shift_mm_feature base f = f\<lparr>mm_position := (mm_position f)\<lparr>offset := mm_offset f + base\<rparr>\<rparr>"

text \<open>
  \<open>n_waiting\<close> is the scheduler's counter \<open>num_waiting_for_streaming_input\<close>. The statistics event of
  the code is not part of the state.
\<close>

definition update_request_as_session ::
  "hash_env \<Rightarrow> streaming_update \<Rightarrow> int \<Rightarrow> request \<Rightarrow> (request \<times> int) result" where
  "update_request_as_session env upd n_waiting session =
     (let n_computed = num_computed_tokens session;
          kept_output_tokens = py_slice (all_token_ids session) (num_prompt_tokens session) n_computed;
          s1 = session\<lparr>all_token_ids := py_slice_to (all_token_ids session) n_computed,
                       output_token_ids := []\<rparr>
      in case prompt_token_ids s1 of
           None \<Rightarrow> Inl AssertionError
         | Some prompt \<Rightarrow>
             let new_features =
                   (case su_mm_features upd of
                      None \<Rightarrow> []
                    | Some fs \<Rightarrow> map (shift_mm_feature (num_tokens s1)) fs);
                 new_tokens = (case su_prompt_token_ids upd of None \<Rightarrow> [] | Some ts \<Rightarrow> ts);
                 prompt' = prompt @ kept_output_tokens @ new_tokens;
                 s2 = s1\<lparr>mm_features := mm_features s1 @ new_features,
                         all_token_ids := all_token_ids s1 @ new_tokens,
                         prompt_token_ids := Some prompt'\<rparr>
             in bindE (update_block_hashes env s2) (\<lambda>s3.
                  Inr (s3\<lparr>num_prompt_tokens := int (length prompt'),
                          arrival_time := su_arrival_time upd,
                          sampling_params := su_sampling_params upd,
                          status := WAITING\<rparr>,
                       if status s3 = WAITING_FOR_STREAMING_REQ then n_waiting - 1 else n_waiting)))"

subsection \<open>The reference: every block from the whole request\<close>

definition mm_overlaps :: "int \<Rightarrow> int \<Rightarrow> mm_feature \<Rightarrow> bool" where
  "mm_overlaps s e f \<longleftrightarrow> mm_offset f < e \<and> s < mm_end f"

definition ref_mm_keys :: "mm_feature list \<Rightarrow> int \<Rightarrow> int \<Rightarrow> extra_key list" where
  "ref_mm_keys fs s e =
     map (\<lambda>f. MmKey (mm_identifier f) (mm_offset f - s)) (filter (mm_overlaps s e) fs)"

definition ref_embeds_keys :: "hash_env \<Rightarrow> request \<Rightarrow> int \<Rightarrow> int \<Rightarrow> extra_key list" where
  "ref_embeds_keys env r s e =
     (case prompt_embeds r of
        None \<Rightarrow> []
      | Some embeds \<Rightarrow> [BytesKey (sha256 env (concat (py_slice embeds s e)))])"

definition ref_extra_keys :: "hash_env \<Rightarrow> request \<Rightarrow> int \<Rightarrow> int \<Rightarrow> extra_key list option" where
  "ref_extra_keys env r s e =
     (let ks = gen_lora_extra_hash_keys r @ ref_mm_keys (mm_features r) s e @
               cache_salt_keys r s @ ref_embeds_keys env r s e
      in if ks = [] then None else Some ks)"

text \<open>The inputs have their placeholders in the order of the list, and these do not overlap.\<close>

definition mm_sorted :: "mm_feature list \<Rightarrow> bool" where
  "mm_sorted fs \<longleftrightarrow>
     sorted_wrt (\<lambda>f g. mm_end f \<le> mm_offset g) fs \<and> (\<forall>f \<in> set fs. 0 \<le> range_length (mm_position f))"

text \<open>An index from which the loop may start for a block at \<open>s\<close>: all earlier inputs have ended.\<close>

definition mm_idx_ok :: "mm_feature list \<Rightarrow> int \<Rightarrow> int \<Rightarrow> bool" where
  "mm_idx_ok fs s idx \<longleftrightarrow> fs = [] \<or>
     (let j = (if idx < 0 then int (length fs) + idx else idx)
      in 0 \<le> j \<and> j \<le> int (length fs) \<and> (\<forall>f \<in> set (take (nat j) fs). mm_end f \<le> s))"

lemma mm_sorted_Cons [simp]:
  "mm_sorted (f # fs) \<longleftrightarrow>
     mm_sorted fs \<and> 0 \<le> range_length (mm_position f) \<and> (\<forall>g \<in> set fs. mm_end f \<le> mm_offset g)"
  by (auto simp: mm_sorted_def)

lemma mm_sorted_drop: "mm_sorted fs \<Longrightarrow> mm_sorted (drop n fs)"
  by (auto simp: mm_sorted_def sorted_wrt_drop dest: in_set_dropD)

lemma ref_mm_keys_none:
  "(\<And>f. f \<in> set fs \<Longrightarrow> e \<le> mm_offset f \<or> mm_end f \<le> s) \<Longrightarrow> ref_mm_keys fs s e = []"
  by (fastforce simp: ref_mm_keys_def mm_overlaps_def filter_empty_conv)

lemma ref_mm_keys_append: "ref_mm_keys (fs @ gs) s e = ref_mm_keys fs s e @ ref_mm_keys gs s e"
  by (simp add: ref_mm_keys_def)

lemma ref_mm_keys_Cons:
  "ref_mm_keys (f # fs) s e =
     (if mm_overlaps s e f then [MmKey (mm_identifier f) (mm_offset f - s)] else []) @
     ref_mm_keys fs s e"
  by (simp add: ref_mm_keys_def)

lemma mm_keys_loop_ref:
  assumes "mm_sorted fs" and "s \<le> e"
  shows "\<exists>k \<le> length fs. mm_keys_loop fs s e i = (ref_mm_keys fs s e, i + int k) \<and>
           (\<forall>f \<in> set (take k fs). mm_end f \<le> e)"
  using assms(1)
proof (induction fs arbitrary: i)
  case Nil
  then show ?case by (simp add: ref_mm_keys_def)
next
  case (Cons f fs)
  have later: "mm_end f \<le> mm_offset g \<and> mm_offset g \<le> mm_end g" if "g \<in> set fs" for g
    using Cons.prems that by (auto simp: mm_sorted_def)
  obtain k where k: "k \<le> length fs"
      "mm_keys_loop fs s e (i + 1) = (ref_mm_keys fs s e, i + 1 + int k)"
      "\<forall>g \<in> set (take k fs). mm_end g \<le> e"
    using Cons.IH[of "i + 1"] Cons.prems by auto
  consider (skip) "mm_offset f < e" "mm_end f \<le> s" | (whole) "mm_offset f < e" "s < mm_end f" "mm_end f \<le> e"
    | (part) "mm_offset f < e" "s < mm_end f" "e < mm_end f" | (far) "e \<le> mm_offset f" by linarith
  then show ?case
  proof cases
    case skip
    with k assms(2) show ?thesis
      by (intro exI[of _ "Suc k"]) (auto simp: ref_mm_keys_Cons mm_overlaps_def)
  next
    case whole
    with k show ?thesis
      by (intro exI[of _ "Suc k"]) (auto simp: ref_mm_keys_Cons mm_overlaps_def)
  next
    case part
    then have "ref_mm_keys fs s e = []" using later by (fastforce intro: ref_mm_keys_none)
    with part show ?thesis
      by (intro exI[of _ 0]) (auto simp: ref_mm_keys_Cons mm_overlaps_def)
  next
    case far
    then have "ref_mm_keys (f # fs) s e = []"
      using later Cons.prems by (fastforce intro: ref_mm_keys_none)
    with far show ?thesis by (intro exI[of _ 0]) auto
  qed
qed

lemma mm_sorted_last:
  "mm_sorted fs \<Longrightarrow> f \<in> set fs \<Longrightarrow> mm_end f \<le> mm_end (last fs)"
proof (induction fs)
  case (Cons g fs)
  show ?case
  proof (cases "fs = []")
    case False
    then have "last fs \<in> set fs" by simp
    then have "mm_end g \<le> mm_offset (last fs)" "0 \<le> range_length (mm_position (last fs))"
      using Cons.prems(1) by (auto simp: mm_sorted_def)
    then have "mm_end g \<le> mm_end (last fs)" by linarith
    with Cons False show ?thesis by auto
  qed (use Cons.prems in simp)
qed simp

lemma gen_mm_extra_hash_keys_ref:
  assumes srt: "mm_sorted (mm_features r)" and se: "s \<le> e" and ok: "mm_idx_ok (mm_features r) s idx"
  shows "\<exists>idx'. gen_mm_extra_hash_keys r s e idx = Inr (ref_mm_keys (mm_features r) s e, idx') \<and>
           mm_idx_ok (mm_features r) e idx'"
proof -
  let ?fs = "mm_features r"
  consider (empty) "?fs = []" | (past) "?fs \<noteq> []" "mm_end (last ?fs) \<le> s"
    | (loop) "?fs \<noteq> []" "\<not> mm_end (last ?fs) \<le> s" by blast
  then show ?thesis
  proof cases
    case empty
    then show ?thesis by (simp add: gen_mm_extra_hash_keys_def ref_mm_keys_def mm_idx_ok_def)
  next
    case past
    then have "ref_mm_keys ?fs s e = []"
      using mm_sorted_last[OF srt] by (fastforce intro: ref_mm_keys_none)
    moreover have "mm_idx_ok ?fs e idx"
      using ok se past(1) by (fastforce simp: mm_idx_ok_def Let_def)
    ultimately show ?thesis using past by (simp add: gen_mm_extra_hash_keys_def)
  next
    case loop
    define j where "j = nat (if idx < 0 then int (length ?fs) + idx else idx)"
    have j: "j \<le> length ?fs" "\<forall>f \<in> set (take j ?fs). mm_end f \<le> s"
      using ok loop(1) by (auto simp: mm_idx_ok_def j_def Let_def)
    have ij: "int j = (if idx < 0 then int (length ?fs) + idx else idx)"
      using ok loop(1) by (auto simp: mm_idx_ok_def j_def Let_def)
    have "- idx \<le> int (length ?fs)"
      using ok loop(1) by (auto simp: mm_idx_ok_def Let_def split: if_splits)
    then have "gen_mm_extra_hash_keys r s e idx = Inr (mm_keys_loop (drop j ?fs) s e (int j))"
      using loop ij by (cases "idx < 0") (simp_all add: gen_mm_extra_hash_keys_def Let_def j_def)
    moreover obtain k where k: "k \<le> length (drop j ?fs)"
        "mm_keys_loop (drop j ?fs) s e (int j) = (ref_mm_keys (drop j ?fs) s e, int j + int k)"
        "\<forall>f \<in> set (take k (drop j ?fs)). mm_end f \<le> e"
      using mm_keys_loop_ref[OF mm_sorted_drop[OF srt] se] by blast
    moreover have "ref_mm_keys ?fs s e = ref_mm_keys (drop j ?fs) s e"
      using ref_mm_keys_append[of "take j ?fs" "drop j ?fs" s e] j(2)
        ref_mm_keys_none[of "take j ?fs" e s] by fastforce
    moreover have "mm_idx_ok ?fs e (int j + int k)"
      using j k(1,3) se by (auto simp: mm_idx_ok_def Let_def take_add nat_add_distrib)
    ultimately show ?thesis by auto
  qed
qed

text \<open>The digests kept on the request are the digests of its slices.\<close>

definition embeds_cache_ok :: "hash_env \<Rightarrow> request \<Rightarrow> bool" where
  "embeds_cache_ok env r \<longleftrightarrow>
     (\<forall>embeds s e d. prompt_embeds r = Some embeds \<longrightarrow>
        dict_get (prompt_embeds_per_block_hashes r) (s, e) = Some d \<longrightarrow>
        d = sha256 env (concat (py_slice embeds s e)))"

lemma embeds_keys_ref:
  assumes "embeds_cache_ok env r"
  shows "\<exists>d. gen_prompt_embeds_extra_hash_keys env r s e =
             (ref_embeds_keys env r s e, r\<lparr>prompt_embeds_per_block_hashes := d\<rparr>) \<and>
           embeds_cache_ok env (r\<lparr>prompt_embeds_per_block_hashes := d\<rparr>)"
proof (cases "prompt_embeds r")
  case None
  then show ?thesis
    by (intro exI[of _ "prompt_embeds_per_block_hashes r"])
      (simp add: gen_prompt_embeds_extra_hash_keys_def ref_embeds_keys_def embeds_cache_ok_def)
next
  case (Some embeds)
  show ?thesis
  proof (cases "dict_get (prompt_embeds_per_block_hashes r) (s, e)")
    case None
    with Some assms show ?thesis
      by (simp add: gen_prompt_embeds_extra_hash_keys_def ref_embeds_keys_def embeds_cache_ok_def
          Let_def) (rule exI, rule conjI, rule refl, auto)
  next
    case (Some d)
    with \<open>prompt_embeds r = _\<close> assms show ?thesis
      by (intro exI[of _ "prompt_embeds_per_block_hashes r"])
        (simp add: gen_prompt_embeds_extra_hash_keys_def ref_embeds_keys_def embeds_cache_ok_def)
  qed
qed

lemma generate_extra_keys_ref:
  assumes "mm_sorted (mm_features r)" and "s \<le> e" and "mm_idx_ok (mm_features r) s idx"
    and "embeds_cache_ok env r"
  shows "\<exists>idx' d. generate_block_hash_extra_keys env r s e idx =
             Inr (ref_extra_keys env r s e, idx', r\<lparr>prompt_embeds_per_block_hashes := d\<rparr>) \<and>
           mm_idx_ok (mm_features r) e idx' \<and>
           embeds_cache_ok env (r\<lparr>prompt_embeds_per_block_hashes := d\<rparr>)"
  using gen_mm_extra_hash_keys_ref[OF assms(1-3)] embeds_keys_ref[OF assms(4), of s e]
  by (auto simp: generate_block_hash_extra_keys_def ref_extra_keys_def Let_def)

text \<open>The hash of the \<open>n\<close>-th block: the hash of its parent, its tokens and its extra keys.\<close>

definition block_tokens_of :: "block_hasher_closure \<Rightarrow> request \<Rightarrow> nat \<Rightarrow> int list" where
  "block_tokens_of c r n =
     (let s = int n * hasher_block_size c in py_slice (all_token_ids r) s (s + hasher_block_size c))"

definition block_keys_of ::
  "hash_env \<Rightarrow> block_hasher_closure \<Rightarrow> request \<Rightarrow> nat \<Rightarrow> extra_key list option" where
  "block_keys_of env c r n =
     (let s = int n * hasher_block_size c in ref_extra_keys env r s (s + hasher_block_size c))"

primrec ref_hash :: "hash_env \<Rightarrow> block_hasher_closure \<Rightarrow> request \<Rightarrow> nat \<Rightarrow> bytes" where
  "ref_hash env c r 0 =
     hash_block_tokens env (caching_hash_fn c) None (block_tokens_of c r 0) (block_keys_of env c r 0)"
| "ref_hash env c r (Suc n) =
     hash_block_tokens env (caching_hash_fn c) (Some (ref_hash env c r n))
       (block_tokens_of c r (Suc n)) (block_keys_of env c r (Suc n))"

definition parent_hash :: "hash_env \<Rightarrow> block_hasher_closure \<Rightarrow> request \<Rightarrow> nat \<Rightarrow> bytes option" where
  "parent_hash env c r n = (case n of 0 \<Rightarrow> None | Suc m \<Rightarrow> Some (ref_hash env c r m))"

lemma ref_hash_unfold:
  "ref_hash env c r n = hash_block_tokens env (caching_hash_fn c) (parent_hash env c r n)
     (block_tokens_of c r n) (block_keys_of env c r n)"
  by (cases n) (simp_all add: parent_hash_def)

lemma ref_cache_irrelevant [simp]:
  "ref_extra_keys env (r\<lparr>prompt_embeds_per_block_hashes := d\<rparr>) s e = ref_extra_keys env r s e"
  "gen_lora_extra_hash_keys (r\<lparr>prompt_embeds_per_block_hashes := d\<rparr>) = gen_lora_extra_hash_keys r"
  by (simp_all add: ref_extra_keys_def gen_lora_extra_hash_keys_def cache_salt_keys_def
      ref_embeds_keys_def)

lemma ref_hash_cong:
  assumes "\<And>m. m \<le> n \<Longrightarrow> block_tokens_of c r m = block_tokens_of c r' m"
    and "\<And>m. m \<le> n \<Longrightarrow> block_keys_of env c r m = block_keys_of env c r' m"
  shows "ref_hash env c r n = ref_hash env c r' n"
  using assms by (induction n) simp_all

lemma ref_hash_cache [simp]:
  "ref_hash env c (r\<lparr>prompt_embeds_per_block_hashes := d\<rparr>) n = ref_hash env c r n"
  by (rule ref_hash_cong) (simp_all add: block_tokens_of_def block_keys_of_def)

lemma hasher_loop_ref:
  assumes bs: "0 < hasher_block_size c"
    and "mm_sorted (mm_features r)" and "mm_idx_ok (mm_features r) (int k * hasher_block_size c) idx"
    and "embeds_cache_ok env r" and "num_tokens r = n"
    and "k \<le> m" and "int m * hasher_block_size c \<le> n" and "n < int (Suc m) * hasher_block_size c"
    and "prev = parent_hash env c r k"
  shows "\<exists>d. hasher_loop env c n r (int k * hasher_block_size c) prev idx =
             Inr (map (ref_hash env c r) [k..<m], r\<lparr>prompt_embeds_per_block_hashes := d\<rparr>) \<and>
           embeds_cache_ok env (r\<lparr>prompt_embeds_per_block_hashes := d\<rparr>)"
  using assms(2-)
proof (induction "m - k" arbitrary: k r prev idx)
  case 0
  then have "k = m" by simp
  with 0 show ?case
    by (intro exI[of _ "prompt_embeds_per_block_hashes r"])
      (subst hasher_loop.simps, simp add: Let_def distrib_right)
next
  case (Suc x)
  let ?b = "hasher_block_size c"
  let ?s = "int k * ?b" and ?e = "int k * ?b + ?b"
  have e: "?e = int (Suc k) * ?b" by (simp add: algebra_simps)
  have "int (Suc k) * ?b \<le> int m * ?b" using Suc.hyps(2) bs by (intro mult_right_mono) simp_all
  then have en: "?e \<le> n" using Suc.prems e by linarith
  have "?s \<le> ?e" using bs by simp
  from generate_extra_keys_ref[OF Suc.prems(1) this Suc.prems(2,3)] obtain idx' d where
    g: "generate_block_hash_extra_keys env r ?s ?e idx =
          Inr (ref_extra_keys env r ?s ?e, idx', r\<lparr>prompt_embeds_per_block_hashes := d\<rparr>)"
       "mm_idx_ok (mm_features r) ?e idx'" "embeds_cache_ok env (r\<lparr>prompt_embeds_per_block_hashes := d\<rparr>)"
    by blast
  let ?r = "r\<lparr>prompt_embeds_per_block_hashes := d\<rparr>"
  have h: "hash_block_tokens env (caching_hash_fn c) prev (py_slice (all_token_ids r) ?s ?e)
             (ref_extra_keys env r ?s ?e) = ref_hash env c r k"
    using Suc.prems(8) by (simp add: ref_hash_unfold[of _ _ _ k] block_tokens_of_def block_keys_of_def Let_def)
  have "\<exists>d'. hasher_loop env c n ?r (int (Suc k) * ?b) (Some (ref_hash env c r k)) idx' =
             Inr (map (ref_hash env c ?r) [Suc k..<m], ?r\<lparr>prompt_embeds_per_block_hashes := d'\<rparr>) \<and>
           embeds_cache_ok env (?r\<lparr>prompt_embeds_per_block_hashes := d'\<rparr>)"
  proof (rule Suc.hyps(1))
    show "mm_idx_ok (mm_features ?r) (int (Suc k) * ?b) idx'" using g(2) e by simp
  qed (use Suc.prems Suc.hyps(2) g(3) in \<open>simp_all add: num_tokens_def parent_hash_def\<close>)
  then obtain d' where
    l: "hasher_loop env c n ?r ?e (Some (ref_hash env c r k)) idx' =
          Inr (map (ref_hash env c r) [Suc k..<m], r\<lparr>prompt_embeds_per_block_hashes := d'\<rparr>)"
       "embeds_cache_ok env (r\<lparr>prompt_embeds_per_block_hashes := d'\<rparr>)"
    unfolding e by auto
  have "[k..<m] = k # [Suc k..<m]" using Suc.hyps(2) by (simp add: upt_conv_Cons)
  then show ?case
    using bs en l(2) by (intro exI[of _ d']) (subst hasher_loop.simps, simp add: Let_def g(1) h l(1))
qed

subsection \<open>The incremental computation agrees with the reference\<close>

lemma update_block_hashes_ref:
  assumes c: "block_hasher r = Some c" and bs: "0 < hasher_block_size c"
    and srt: "mm_sorted (mm_features r)" and emb: "embeds_cache_ok env r"
    and bh: "block_hashes r = map (ref_hash env c r) [0..<k]"
    and k: "int k * hasher_block_size c \<le> num_tokens r"
    and tail: "0 < k \<Longrightarrow> \<forall>f \<in> set (butlast (mm_features r)). mm_end f \<le> int k * hasher_block_size c"
  shows "\<exists>d. update_block_hashes env r =
             Inr (r\<lparr>prompt_embeds_per_block_hashes := d,
                    block_hashes := map (ref_hash env c r) [0..<nat (num_tokens r div hasher_block_size c)]\<rparr>) \<and>
           embeds_cache_ok env (r\<lparr>prompt_embeds_per_block_hashes := d\<rparr>)"
proof -
  let ?b = "hasher_block_size c" and ?n = "num_tokens r"
  define m where "m = nat (?n div ?b)"
  have n0: "0 \<le> ?n" by (simp add: num_tokens_def)
  have m: "int m = ?n div ?b" using n0 bs by (simp add: m_def pos_imp_zdiv_nonneg_iff)
  have mb: "int m * ?b \<le> ?n" "?n < int (Suc m) * ?b"
    using bs m by (simp_all add: minus_mod_eq_div_mult[symmetric] distrib_right)
  have km: "k \<le> m" using zdiv_mono1[OF k bs] bs m by simp
  have start: "int (length (block_hashes r)) * ?b = int k * ?b" by (simp add: bh)
  show ?thesis
  proof (cases "k = m")
    case True
    then have "int k * ?b + ?b > ?n" using mb(2) by (simp add: distrib_right)
    then have "update_block_hashes env r = Inr r"
      using c by (simp add: update_block_hashes_def request_block_hasher_def bh Let_def)
    moreover have "r\<lparr>block_hashes := block_hashes r\<rparr> = r" by simp
    then have "r\<lparr>block_hashes := map (ref_hash env c r) [0..<m]\<rparr> = r" unfolding bh True .
    ultimately show ?thesis
      unfolding m_def[symmetric] using emb
      by (intro exI[of _ "prompt_embeds_per_block_hashes r"]) simp
  next
    case False
    then have "int (Suc k) * ?b \<le> int m * ?b" using km bs by (intro mult_right_mono) simp_all
    then have go: "\<not> ?n < int k * ?b + ?b" using mb by (simp add: distrib_right)
    let ?idx = "if 0 < int k * ?b then -1 else 0 :: int"
    have "mm_idx_ok (mm_features r) (int k * ?b) ?idx"
      using tail bs by (auto simp: mm_idx_ok_def Let_def butlast_conv_take nat_diff_distrib
          zero_less_mult_iff simp flip: length_greater_0_conv)
    then have "\<exists>d. hasher_loop env c ?n r (int k * ?b) (parent_hash env c r k) ?idx =
             Inr (map (ref_hash env c r) [k..<m], r\<lparr>prompt_embeds_per_block_hashes := d\<rparr>) \<and>
           embeds_cache_ok env (r\<lparr>prompt_embeds_per_block_hashes := d\<rparr>)"
      by (rule hasher_loop_ref[OF bs srt _ emb refl km mb refl])
    moreover have "(if block_hashes r \<noteq> [] then Some (last (block_hashes r)) else None)
        = parent_hash env c r k"
      by (cases k) (simp_all add: bh parent_hash_def)
    moreover have "map (ref_hash env c r) [0..<m] = block_hashes r @ map (ref_hash env c r) [k..<m]"
      using km upt_add_eq_append[of 0 k "m - k"] by (simp add: bh)
    ultimately show ?thesis
      using c go unfolding m_def[symmetric]
      by (auto simp: update_block_hashes_def request_block_hasher_def start Let_def)
  qed
qed

text \<open>
  A request is \<open>hashed\<close> when its list of hashes is the reference for all its full blocks. The
  constructor establishes this and appending tokens keeps it, if the multi-modal inputs other than
  the last one lie in the blocks that are already hashed.
\<close>

definition hashed :: "hash_env \<Rightarrow> block_hasher_closure \<Rightarrow> request \<Rightarrow> bool" where
  "hashed env c r \<longleftrightarrow>
     block_hasher r = Some c \<and> 0 < hasher_block_size c \<and> mm_sorted (mm_features r) \<and>
     embeds_cache_ok env r \<and>
     block_hashes r = map (ref_hash env c r) [0..<nat (num_tokens r div hasher_block_size c)]"

definition mm_tail_ok :: "block_hasher_closure \<Rightarrow> request \<Rightarrow> bool" where
  "mm_tail_ok c r \<longleftrightarrow>
     (\<forall>f \<in> set (mm_features r). mm_end f \<le> num_tokens r) \<and>
     (let n = num_tokens r div hasher_block_size c * hasher_block_size c
      in 0 < n \<longrightarrow> (\<forall>f \<in> set (butlast (mm_features r)). mm_end f \<le> n))"

lemma block_tokens_of_append:
  assumes "0 < hasher_block_size c" and "int (Suc n) * hasher_block_size c \<le> num_tokens r"
  shows "block_tokens_of c (r\<lparr>all_token_ids := all_token_ids r @ ts\<rparr>) n = block_tokens_of c r n"
proof -
  have "0 \<le> int n * hasher_block_size c" using assms(1) by simp
  moreover have "nat (int n * hasher_block_size c + hasher_block_size c) \<le> length (all_token_ids r)"
    using assms(2) by (simp add: num_tokens_def distrib_right nat_le_iff)
  ultimately show ?thesis
    using assms(1) by (simp add: block_tokens_of_def Let_def py_slice_nonneg flip: drop_take)
qed

lemma ref_hash_append:
  assumes "0 < hasher_block_size c" and "int (Suc n) * hasher_block_size c \<le> num_tokens r"
    and "all_token_ids r' = all_token_ids r @ ts"
    and "\<And>s e. ref_extra_keys env r' s e = ref_extra_keys env r s e"
  shows "ref_hash env c r' n = ref_hash env c r n"
proof (rule ref_hash_cong)
  fix m assume "m \<le> n"
  then have "int (Suc m) * hasher_block_size c \<le> num_tokens r"
    using assms(1,2) by (meson Suc_le_mono mult_right_mono of_nat_mono order.trans less_imp_le)
  from block_tokens_of_append[OF assms(1) this, of ts]
  show "block_tokens_of c r' m = block_tokens_of c r m" using assms(3) by (simp add: block_tokens_of_def)
qed (simp add: block_keys_of_def assms(4))

lemma ref_extra_keys_cong:
  assumes "lora_request r' = lora_request r" "mm_features r' = mm_features r"
    "cache_salt r' = cache_salt r" "prompt_embeds r' = prompt_embeds r"
  shows "ref_extra_keys env r' s e = ref_extra_keys env r s e"
  using assms by (simp add: ref_extra_keys_def gen_lora_extra_hash_keys_def cache_salt_keys_def
      ref_embeds_keys_def)

lemma ref_hash_attrs:
  assumes "lora_request r' = lora_request r" "mm_features r' = mm_features r"
    "cache_salt r' = cache_salt r" "prompt_embeds r' = prompt_embeds r"
    "all_token_ids r' = all_token_ids r"
  shows "ref_hash env c r' n = ref_hash env c r n"
  by (rule ref_hash_cong)
    (simp_all add: block_tokens_of_def block_keys_of_def assms ref_extra_keys_cong[OF assms(1-4)])

lemma mm_tail_ok_append:
  assumes bs: "0 < hasher_block_size c" and "mm_tail_ok c r"
    and "all_token_ids r' = all_token_ids r @ ts" and "mm_features r' = mm_features r"
  shows "mm_tail_ok c r'"
proof -
  let ?b = "hasher_block_size c" and ?n = "num_tokens r" and ?n' = "num_tokens r'"
  have nn: "?n \<le> ?n'" "0 \<le> ?n" using assms(3) by (simp_all add: num_tokens_def)
  then have le: "?n div ?b * ?b \<le> ?n' div ?b * ?b" using bs by (simp add: zdiv_mono1)
  have "mm_end f \<le> ?n' div ?b * ?b"
    if f: "f \<in> set (butlast (mm_features r))" and pos: "0 < ?n' div ?b * ?b" for f
  proof (cases "0 < ?n div ?b * ?b")
    case True
    with assms(2) f have "mm_end f \<le> ?n div ?b * ?b" by (simp add: mm_tail_ok_def Let_def)
    with le show ?thesis by linarith
  next
    case False
    then have "?n div ?b = 0" using bs nn(2) pos_imp_zdiv_nonneg_iff[OF bs, of ?n]
      by (simp add: zero_less_mult_iff)
    then have "?n < ?b" using pos_mod_bound[OF bs, of ?n] mult_div_mod_eq[of ?b ?n] by simp
    moreover have "?b \<le> ?n' div ?b * ?b" using pos bs by (simp add: zero_less_mult_iff)
    moreover have "mm_end f \<le> ?n" using assms(2) f by (simp add: mm_tail_ok_def in_set_butlastD)
    ultimately show ?thesis by linarith
  qed
  moreover have "mm_end f \<le> ?n'" if "f \<in> set (mm_features r)" for f
    using assms(2) that nn(1) by (fastforce simp: mm_tail_ok_def)
  ultimately show ?thesis using assms(4) by (auto simp: mm_tail_ok_def Let_def)
qed

lemma append_hashed:
  assumes h: "hashed env c r" and tail: "mm_tail_ok c r"
  shows "\<exists>r'. append_output_token_ids env ts r = Inr r' \<and> hashed env c r' \<and> mm_tail_ok c r' \<and>
           all_token_ids r' = all_token_ids r @ ts"
proof -
  let ?b = "hasher_block_size c"
  let ?r = "r\<lparr>output_token_ids := output_token_ids r @ ts, all_token_ids := all_token_ids r @ ts\<rparr>"
  define k where "k = nat (num_tokens r div ?b)"
  have bs: "0 < ?b" using h by (simp add: hashed_def)
  have ik: "int k = num_tokens r div ?b"
    using bs by (simp add: k_def num_tokens_def pos_imp_zdiv_nonneg_iff)
  then have kb: "int k * ?b \<le> num_tokens r" using bs by (simp add: minus_mod_eq_div_mult[symmetric])
  have "ref_hash env c ?r n = ref_hash env c r n" if "n < k" for n
  proof (rule ref_hash_append[where ts = ts, OF bs])
    have "int (Suc n) * ?b \<le> int k * ?b" using that bs by (intro mult_right_mono) simp_all
    with kb show "int (Suc n) * ?b \<le> num_tokens r" by linarith
  qed (simp, (rule ref_extra_keys_cong; simp))
  then have "block_hashes ?r = map (ref_hash env c ?r) [0..<k]"
    using h by (simp add: hashed_def k_def)
  moreover have "int k * ?b \<le> num_tokens ?r" using kb by (simp add: num_tokens_def)
  moreover have "\<forall>f \<in> set (butlast (mm_features ?r)). mm_end f \<le> int k * ?b" if "0 < k"
    using tail that bs ik by (auto simp: mm_tail_ok_def Let_def)
  moreover have "embeds_cache_ok env ?r" using h by (simp add: hashed_def embeds_cache_ok_def)
  ultimately obtain d where
    "update_block_hashes env ?r = Inr (?r\<lparr>prompt_embeds_per_block_hashes := d,
       block_hashes := map (ref_hash env c ?r) [0..<nat (num_tokens ?r div ?b)]\<rparr>)"
    "embeds_cache_ok env (?r\<lparr>prompt_embeds_per_block_hashes := d\<rparr>)"
    using update_block_hashes_ref[of ?r c env k] h by (auto simp: hashed_def)
  moreover have "ref_hash env c (?r\<lparr>prompt_embeds_per_block_hashes := d, block_hashes := x\<rparr>) n =
      ref_hash env c ?r n" for x n
    by (rule ref_hash_attrs) simp_all
  moreover have "mm_tail_ok c ?r" by (rule mm_tail_ok_append[OF bs tail]) simp_all
  ultimately show ?thesis
    using h by (auto simp: append_output_token_ids_def hashed_def num_tokens_def embeds_cache_ok_def
        mm_tail_ok_def)
qed

lemma update_block_hashes_fresh:
  assumes "block_hasher r = Some c" and "0 < hasher_block_size c" and "mm_sorted fs"
    and "embeds_cache_ok env r" and "block_hashes r = []" and "all_token_ids r = toks"
    and "mm_features r = fs" and "lora_request r = l" and "cache_salt r = cs" and "prompt_embeds r = pe"
  shows "\<exists>r'. update_block_hashes env r = Inr r' \<and> all_token_ids r' = toks \<and> mm_features r' = fs \<and>
           lora_request r' = l \<and> cache_salt r' = cs \<and> prompt_embeds r' = pe"
  using update_block_hashes_ref[of r c env 0] assms by (auto simp: num_tokens_def)

lemma request_init_hashed:
  assumes "request_init env oid now (Some c) a = Inr r" and "0 < hasher_block_size c"
    and "mm_sorted (case arg_mm_features a of None \<Rightarrow> [] | Some fs \<Rightarrow> fs)"
  shows "hashed env c r"
proof -
  obtain r0 where r0: "update_block_hashes env r0 = Inr r" "block_hasher r0 = Some c"
      "block_hashes r0 = []" "prompt_embeds_per_block_hashes r0 = []"
      "mm_features r0 = (case arg_mm_features a of None \<Rightarrow> [] | Some fs \<Rightarrow> fs)"
    using assms(1) by (auto simp: request_init_def bindE_Inr_iff Let_def)
  have "embeds_cache_ok env r0" using r0(4) by (simp add: embeds_cache_ok_def)
  with update_block_hashes_ref[OF r0(2) assms(2), of env 0] r0 assms(3) obtain d where
    r: "r = r0\<lparr>prompt_embeds_per_block_hashes := d,
       block_hashes := map (ref_hash env c r0) [0..<nat (num_tokens r0 div hasher_block_size c)]\<rparr>"
    "embeds_cache_ok env (r0\<lparr>prompt_embeds_per_block_hashes := d\<rparr>)"
    by (auto simp: num_tokens_def)
  moreover have "ref_hash env c (r0\<lparr>prompt_embeds_per_block_hashes := d, block_hashes := x\<rparr>) n =
      ref_hash env c r0 n" for x n
    by (rule ref_hash_attrs) simp_all
  ultimately show ?thesis
    using r0 assms by (simp add: hashed_def num_tokens_def embeds_cache_ok_def)
qed

subsection \<open>What equal hashes say about two requests\<close>

text \<open>
  The inputs that are hashed for the first \<open>n\<close> blocks of a request, and the assumption on the
  hash function: no two of the inputs in question collide, and none has the seed or the empty
  string as its hash.
\<close>

definition hash_input_of :: "hash_env \<Rightarrow> block_hasher_closure \<Rightarrow> request \<Rightarrow> nat \<Rightarrow> hash_input" where
  "hash_input_of env c r n =
     (case parent_hash env c r n of
        None \<Rightarrow> none_hash env
      | Some p \<Rightarrow> if p = [] then none_hash env else p,
      block_tokens_of c r n, block_keys_of env c r n)"

definition hash_inputs :: "hash_env \<Rightarrow> block_hasher_closure \<Rightarrow> request \<Rightarrow> hash_input set" where
  "hash_inputs env c r =
     hash_input_of env c r ` {..<nat (num_tokens r div hasher_block_size c)}"

definition collision_free :: "hash_env \<Rightarrow> block_hasher_closure \<Rightarrow> hash_input set \<Rightarrow> bool" where
  "collision_free env c S \<longleftrightarrow>
     inj_on (caching_hash_fn c) S \<and> none_hash env \<notin> caching_hash_fn c ` S \<and>
     [] \<notin> caching_hash_fn c ` S"

lemma ref_hash_input: "ref_hash env c r n = caching_hash_fn c (hash_input_of env c r n)"
  by (simp add: ref_hash_unfold hash_block_tokens_def hash_input_of_def Let_def)

lemma hash_not_seed:
  assumes "collision_free env c S" and "hash_input_of env c r m \<in> S"
  shows "ref_hash env c r m \<noteq> none_hash env" and "ref_hash env c r m \<noteq> []"
  using assms unfolding ref_hash_input collision_free_def by (metis imageI)+

lemma equal_ref_hash_prefix:
  assumes cf: "collision_free env c S"
    and "\<And>k. k \<le> i \<Longrightarrow> hash_input_of env c r k \<in> S" and "\<And>k. k \<le> j \<Longrightarrow> hash_input_of env c r' k \<in> S"
    and "ref_hash env c r i = ref_hash env c r' j"
  shows "i = j \<and> (\<forall>k \<le> i. block_tokens_of c r k = block_tokens_of c r' k \<and>
                       block_keys_of env c r k = block_keys_of env c r' k)"
  using assms(2-)
proof (induction i arbitrary: j)
  case 0
  have eq: "hash_input_of env c r 0 = hash_input_of env c r' j"
    using 0 cf by (auto simp: ref_hash_input collision_free_def dest!: inj_onD)
  show ?case
  proof (cases j)
    case (Suc m)
    with hash_not_seed[OF cf, of r' m] 0(2)[of m] eq show ?thesis
      by (simp add: hash_input_of_def parent_hash_def)
  qed (use eq in \<open>simp add: hash_input_of_def\<close>)
next
  case (Suc i)
  have eq: "hash_input_of env c r (Suc i) = hash_input_of env c r' j"
    using Suc.prems cf by (auto simp: ref_hash_input collision_free_def dest!: inj_onD)
  note ri = hash_not_seed[OF cf Suc.prems(1), of i]
  show ?case
  proof (cases j)
    case 0
    with eq ri show ?thesis by (simp add: hash_input_of_def parent_hash_def)
  next
    case (Suc m)
    with hash_not_seed[OF cf, of r' m] Suc.prems(2)[of m] ri eq
    have "ref_hash env c r i = ref_hash env c r' m"
      by (simp add: hash_input_of_def parent_hash_def)
    with Suc.IH[of m] Suc.prems \<open>j = Suc m\<close>
    have "i = m" "\<forall>k \<le> i. block_tokens_of c r k = block_tokens_of c r' k \<and>
        block_keys_of env c r k = block_keys_of env c r' k" by auto
    with eq \<open>j = Suc m\<close> show ?thesis by (auto simp: hash_input_of_def le_Suc_eq)
  qed
qed

text \<open>Equal blocks are an equal prefix of the tokens.\<close>

lemma take_blocks:
  assumes "0 < hasher_block_size c"
    and "\<And>k. k < n \<Longrightarrow> block_tokens_of c r k = block_tokens_of c r' k"
  shows "take (n * nat (hasher_block_size c)) (all_token_ids r) =
         take (n * nat (hasher_block_size c)) (all_token_ids r')"
  using assms(2)
proof (induction n)
  case (Suc n)
  let ?b = "nat (hasher_block_size c)"
  have blk: "block_tokens_of c q n = take ?b (drop (n * ?b) (all_token_ids q))" for q
    using assms(1) by (simp add: block_tokens_of_def Let_def py_slice_nonneg nat_add_distrib
        nat_mult_distrib)
  have "take (Suc n * ?b) (all_token_ids q) = take (n * ?b) (all_token_ids q) @ block_tokens_of c q n"
    for q unfolding blk by (simp add: take_add add.commute[of ?b])
  with Suc show ?case by simp
qed simp

subsection \<open>Properties\<close>

text \<open>C8. A request that is created by the constructor and then extended by any sequence of token
  lists carries, after each step, exactly the hashes that hashing every full block from scratch
  would give: the incremental hasher never raises and misses no token, LoRA name, salt, embedding
  or multi-modal input. The multi-modal inputs are sorted, lie in the prompt, and all but the last
  end within the full blocks of the prompt.\<close>

theorem request_hashes_from_scratch:
  assumes "request_init env oid now (Some c) a = Inr r" and "0 < hasher_block_size c"
    and "mm_sorted (case arg_mm_features a of None \<Rightarrow> [] | Some fs \<Rightarrow> fs)" and "mm_tail_ok c r"
  shows "\<exists>r'. foldE (append_output_token_ids env) tss r = Inr r' \<and>
     all_token_ids r' = all_token_ids r @ concat tss \<and>
     block_hashes r' = map (ref_hash env c r') [0..<nat (num_tokens r' div hasher_block_size c)]"
proof -
  have "hashed env c r" by (rule request_init_hashed[OF assms(1-3)])
  then have "\<exists>r'. foldE (append_output_token_ids env) tss r = Inr r' \<and> hashed env c r' \<and>
      all_token_ids r' = all_token_ids r @ concat tss"
    using assms(4)
  proof (induction tss arbitrary: r)
    case (Cons ts tss)
    from append_hashed[OF Cons.prems, of ts] obtain r1 where
      "append_output_token_ids env ts r = Inr r1" "hashed env c r1" "mm_tail_ok c r1"
      "all_token_ids r1 = all_token_ids r @ ts" by blast
    with Cons.IH[of r1] show ?case by auto
  qed simp
  then show ?thesis by (auto simp: hashed_def)
qed

text \<open>A concrete hasher, and requests with a given prompt and given multi-modal inputs.\<close>

definition ex_env :: hash_env where
  "ex_env = \<lparr>none_hash = [0], sha256 = (\<lambda>b. b), use_int_block_hashes = False\<rparr>"

definition ex_hasher :: block_hasher_closure where
  "ex_hasher = \<lparr>hasher_block_size = 2, caching_hash_fn = (\<lambda>(p, ts, k). p @ map word_of_int ts)\<rparr>"

definition ex_sampling :: sampling_params_data where
  "ex_sampling =
     \<lparr>sp_max_tokens = Some 16, min_tokens = 0, eos_token_id = None, stop_token_ids = None,
      repetition_detection = None, sp_skip_reading_prefix_cache = None, sp_structured_outputs = False\<rparr>"

definition ex_args :: "int list \<Rightarrow> mm_feature list \<Rightarrow> request_args" where
  "ex_args toks fs =
     \<lparr>arg_request_id = ''r'', arg_prompt_token_ids = Some toks,
      arg_sampling_params = Some ex_sampling, arg_pooling_params = None, arg_client_index = 0,
      arg_arrival_time = Some 0, arg_prompt_embeds = None, arg_mm_features = Some fs,
      arg_lora_request = None, arg_cache_salt = None, arg_priority = 0, arg_resumable = False,
      arg_abort_immediately = False\<rparr>"

definition ex_request :: "int list \<Rightarrow> mm_feature list \<Rightarrow> request" where
  "ex_request toks fs = projr (request_init ex_env 0 0 (Some ex_hasher) (ex_args toks fs))"

lemma ex_request_ok:
  assumes "mm_sorted fs"
  shows "request_init ex_env 0 0 (Some ex_hasher) (ex_args toks fs) = Inr (ex_request toks fs)"
    and "all_token_ids (ex_request toks fs) = toks" and "mm_features (ex_request toks fs) = fs"
    and "hashed ex_env ex_hasher (ex_request toks fs)"
    and "ref_extra_keys env (ex_request toks fs) s e =
           (if ref_mm_keys fs s e = [] then None else Some (ref_mm_keys fs s e))"
proof -
  have "\<exists>r. request_init ex_env 0 0 (Some ex_hasher) (ex_args toks fs) = Inr r \<and>
      all_token_ids r = toks \<and> mm_features r = fs \<and> lora_request r = None \<and> cache_salt r = None \<and>
      prompt_embeds r = None"
    unfolding request_init_def Let_def
    by (simp add: ex_args_def ex_sampling_def length_from_prompt_token_ids_or_embeds_def)
      (rule update_block_hashes_fresh[where c = ex_hasher];
        simp add: ex_hasher_def assms embeds_cache_ok_def)
  then obtain r where r: "request_init ex_env 0 0 (Some ex_hasher) (ex_args toks fs) = Inr r"
    "all_token_ids r = toks" "mm_features r = fs" "lora_request r = None" "cache_salt r = None"
    "prompt_embeds r = None" by blast
  then show "request_init ex_env 0 0 (Some ex_hasher) (ex_args toks fs) = Inr (ex_request toks fs)"
    "all_token_ids (ex_request toks fs) = toks" "mm_features (ex_request toks fs) = fs"
    "ref_extra_keys env (ex_request toks fs) s e =
           (if ref_mm_keys fs s e = [] then None else Some (ref_mm_keys fs s e))"
    by (simp_all add: ex_request_def ref_extra_keys_def gen_lora_extra_hash_keys_def
        cache_salt_keys_def ref_embeds_keys_def)
  show "hashed ex_env ex_hasher (ex_request toks fs)"
    by (rule request_init_hashed) (use r assms in \<open>auto simp: ex_request_def ex_hasher_def ex_args_def\<close>)
qed

lemma ex_request_hash:
  "block_hashes (ex_request [1, 2, t] []) = [[0, 1, 2]]"
  "hash_inputs ex_env ex_hasher (ex_request [1, 2, t] []) = {([0], [1, 2], None)}"
proof -
  have srt: "mm_sorted []" by (simp add: mm_sorted_def)
  note ok = ex_request_ok[OF srt]
  have blk: "block_tokens_of ex_hasher (ex_request [1, 2, t] []) 0 = [1, 2]"
    "block_keys_of ex_env ex_hasher (ex_request [1, 2, t] []) 0 = None"
    "num_tokens (ex_request [1, 2, t] []) div hasher_block_size ex_hasher = 1"
    by (simp_all add: block_tokens_of_def block_keys_of_def ok ex_hasher_def ref_mm_keys_def
        num_tokens_def py_slice_def slice_bound_def)
  show "block_hashes (ex_request [1, 2, t] []) = [[0, 1, 2]]"
    using ok(4)[of "[1, 2, t]"] blk
    by (simp add: hashed_def hash_block_tokens_def) (simp add: ex_hasher_def ex_env_def)
  show "hash_inputs ex_env ex_hasher (ex_request [1, 2, t] []) = {([0], [1, 2], None)}"
    using blk by (simp add: hash_inputs_def hash_input_of_def parent_hash_def)
      (simp add: ex_env_def lessThan_Suc)
qed

theorem request_hashes_from_scratch_witness:
  "\<exists>r'. foldE (append_output_token_ids ex_env) [[7], [8, 9]] (ex_request [1, 2, 3] []) = Inr r' \<and>
     all_token_ids r' = [1, 2, 3, 7, 8, 9] \<and> length (block_hashes r') = 3"
  using request_hashes_from_scratch[OF ex_request_ok(1), of "[]" "[1, 2, 3]" "[[7], [8, 9]]"]
  by (auto simp: ex_request_ok mm_sorted_def mm_tail_ok_def ex_hasher_def ex_args_def num_tokens_def)



subsection \<open>Where equal hashes do not mean equal contents\<close>

text \<open>Two inputs that both lie in the unfinished last block of the prompt.\<close>

definition ex_input :: "string \<Rightarrow> int \<Rightarrow> mm_feature" where
  "ex_input x off =
     \<lparr>modality = ''image'', mm_identifier = x,
      mm_position = \<lparr>offset = off, range_length = 1, is_embed = None\<rparr>\<rparr>"

definition two_inputs_request ::
  "hash_env \<Rightarrow> (hash_input \<Rightarrow> bytes) \<Rightarrow> string \<Rightarrow> request result" where
  "two_inputs_request env h x =
     bindE (request_init env 0 0 (Some \<lparr>hasher_block_size = 4, caching_hash_fn = h\<rparr>)
              (ex_args [1, 2, 3, 4, 9, 9] [ex_input x 4, ex_input ''B'' 5]))
       (append_output_token_ids env [7, 8])"

lemmas hashing_eval =
  request_init_def append_output_token_ids_def update_block_hashes_def request_block_hasher_def
  generate_block_hash_extra_keys_def gen_mm_extra_hash_keys_def gen_lora_extra_hash_keys_def
  gen_prompt_embeds_extra_hash_keys_def cache_salt_keys_def hash_block_tokens_def
  length_from_prompt_token_ids_or_embeds_def num_tokens_def py_slice_def slice_bound_def
  ex_args_def ex_sampling_def ex_input_def

lemma two_inputs_request_result:
  "\<exists>r. two_inputs_request env h x = Inr r \<and> mm_features r = [ex_input x 4, ex_input ''B'' 5] \<and>
     block_hashes r =
       [h (none_hash env, [1, 2, 3, 4], None),
        h (let p = h (none_hash env, [1, 2, 3, 4], None) in if p = [] then none_hash env else p,
           [9, 9, 7, 8], Some [MmKey ''B'' 1])]"
  unfolding two_inputs_request_def
  by (simp add: hashing_eval hasher_loop.simps Let_def)


text \<open>
  A session with block size 2 whose first turn is the token 1 and whose sampled token 5 completes
  the block; the next turn brings the token 6.
\<close>

definition ex_session :: "hash_env \<Rightarrow> (hash_input \<Rightarrow> bytes) \<Rightarrow> request result" where
  "ex_session env h =
     bindE (request_init env 0 0 (Some \<lparr>hasher_block_size = 2, caching_hash_fn = h\<rparr>) (ex_args [1] []))
       (\<lambda>r. append_output_token_ids env [5] (r\<lparr>num_computed_tokens := 1\<rparr>))"

definition ex_update :: streaming_update where
  "ex_update = \<lparr>su_mm_features = None, su_prompt_token_ids = Some [6], su_max_tokens = 32,
     su_arrival_time = 1, su_sampling_params = Some ex_sampling\<rparr>"




end
