(* ===== verification/KV_Cache_Metrics.thy ===== *)
theory KV_Cache_Metrics
  imports Prelude
begin

section \<open>Block residency metrics\<close>

text \<open>
  \<open>BlockMetricsState\<close> and \<open>KVCacheMetricsCollector\<close> of vllm/v1/core/kv\_cache\_metrics.py. The
  monotonic clock and the random generator are parameters: the collector carries the sequence of
  values that the successive calls return and the position reached in it.

  The lemmas bound the access history and show that the reported durations are not negative and
  that resetting or evicting forgets a block.
\<close>

record block_metrics_state =
  birth_time_ns :: int
  last_access_ns :: int
  access_history :: "int list"

record eviction_event =
  lifetime_seconds :: rat
  idle_seconds :: rat
  reuse_gaps_seconds :: "rat list"

record metrics_collector =
  sample_rate :: rat
  block_metrics :: "(int, block_metrics_state) dict"
  eviction_events :: "eviction_event list"
  clock :: "nat \<Rightarrow> int"
  clock_pos :: nat
  random_source :: "nat \<Rightarrow> rat"
  random_pos :: nat

definition monotonic_ns :: "metrics_collector \<Rightarrow> int \<times> metrics_collector" where
  "monotonic_ns m = (clock m (clock_pos m), m\<lparr>clock_pos := Suc (clock_pos m)\<rparr>)"

definition new_block_metrics_state :: "int \<Rightarrow> block_metrics_state" where
  "new_block_metrics_state now_ns =
     \<lparr>birth_time_ns = now_ns, last_access_ns = now_ns, access_history = []\<rparr>"

text \<open>The history is a \<open>deque(maxlen=4)\<close>: appending to a full one drops the oldest entry.\<close>

definition deque_append :: "nat \<Rightarrow> 'a \<Rightarrow> 'a list \<Rightarrow> 'a list" where
  "deque_append maxlen x xs = (let ys = xs @ [x] in drop (length ys - maxlen) ys)"

definition record_access :: "int \<Rightarrow> block_metrics_state \<Rightarrow> block_metrics_state" where
  "record_access now_ns s =
     s\<lparr>last_access_ns := now_ns, access_history := deque_append 4 now_ns (access_history s)\<rparr>"

definition seconds :: "int \<Rightarrow> rat" where
  "seconds ns = of_int ns / 1000000000"

definition get_lifetime_seconds :: "int \<Rightarrow> block_metrics_state \<Rightarrow> rat" where
  "get_lifetime_seconds now_ns s = seconds (now_ns - birth_time_ns s)"

definition get_idle_time_seconds :: "int \<Rightarrow> block_metrics_state \<Rightarrow> rat" where
  "get_idle_time_seconds now_ns s = seconds (now_ns - last_access_ns s)"

definition get_reuse_gaps_seconds :: "block_metrics_state \<Rightarrow> rat list" where
  "get_reuse_gaps_seconds s =
     (let history = access_history s in
      if length history < 2 then []
      else map (\<lambda>i. seconds (history ! i - history ! (i - 1))) [1..<length history])"

definition should_sample_block :: "metrics_collector \<Rightarrow> bool \<times> metrics_collector" where
  "should_sample_block m =
     (random_source m (random_pos m) < sample_rate m, m\<lparr>random_pos := Suc (random_pos m)\<rparr>)"

definition on_block_allocated :: "int \<Rightarrow> metrics_collector \<Rightarrow> metrics_collector" where
  "on_block_allocated bid m =
     (let (sampled, m1) = should_sample_block m in
      if sampled then
        let (now_ns, m2) = monotonic_ns m1
        in m2\<lparr>block_metrics := dict_set bid (new_block_metrics_state now_ns) (block_metrics m2)\<rparr>
      else m1)"

definition on_block_accessed :: "int \<Rightarrow> metrics_collector \<Rightarrow> metrics_collector" where
  "on_block_accessed bid m =
     (case dict_get (block_metrics m) bid of
        None \<Rightarrow> m
      | Some s \<Rightarrow>
          let (now_ns, m1) = monotonic_ns m
          in m1\<lparr>block_metrics := dict_set bid (record_access now_ns s) (block_metrics m1)\<rparr>)"

definition on_block_evicted :: "int \<Rightarrow> metrics_collector \<Rightarrow> metrics_collector" where
  "on_block_evicted bid m =
     (case dict_get (block_metrics m) bid of
        None \<Rightarrow> m
      | Some s \<Rightarrow>
          let m1 = m\<lparr>block_metrics := dict_del bid (block_metrics m)\<rparr>;
              (now1, m2) = monotonic_ns m1;
              (now2, m3) = monotonic_ns m2
          in m3\<lparr>eviction_events := eviction_events m3 @
                  [\<lparr>lifetime_seconds = get_lifetime_seconds now1 s,
                    idle_seconds = get_idle_time_seconds now2 s,
                    reuse_gaps_seconds = get_reuse_gaps_seconds s\<rparr>]\<rparr>)"

definition metrics_reset :: "metrics_collector \<Rightarrow> metrics_collector" where
  "metrics_reset m = m\<lparr>block_metrics := [], eviction_events := []\<rparr>"

definition drain_events :: "metrics_collector \<Rightarrow> eviction_event list \<times> metrics_collector" where
  "drain_events m = (eviction_events m, m\<lparr>eviction_events := []\<rparr>)"

subsection \<open>Invariant\<close>

text \<open>
  Every tracked block has a bounded, ordered history that lies between its birth and its last
  access, and these lie before the next reading of the clock; the reported durations are not
  negative.
\<close>

definition state_ok :: "int \<Rightarrow> block_metrics_state \<Rightarrow> bool" where
  "state_ok now s \<longleftrightarrow>
     length (access_history s) \<le> 4 \<and> sorted (access_history s) \<and>
     (\<forall>t \<in> set (access_history s). birth_time_ns s \<le> t \<and> t \<le> last_access_ns s) \<and>
     birth_time_ns s \<le> last_access_ns s \<and> last_access_ns s \<le> now"

definition event_ok :: "eviction_event \<Rightarrow> bool" where
  "event_ok e \<longleftrightarrow>
     0 \<le> lifetime_seconds e \<and> 0 \<le> idle_seconds e \<and> list_all (\<lambda>g. 0 \<le> g) (reuse_gaps_seconds e) \<and>
     length (reuse_gaps_seconds e) \<le> 3"

definition metrics_ok :: "metrics_collector \<Rightarrow> bool" where
  "metrics_ok m \<longleftrightarrow>
     (\<forall>bid s. dict_get (block_metrics m) bid = Some s \<longrightarrow> state_ok (clock m (clock_pos m)) s) \<and>
     list_all event_ok (eviction_events m)"

lemma deque_append_spec:
  "length (deque_append n x xs) \<le> n" "set (deque_append n x xs) \<subseteq> insert x (set xs)"
  by (auto simp: deque_append_def Let_def dest: in_set_dropD)

lemma deque_append_sorted:
  "sorted xs \<Longrightarrow> \<forall>y \<in> set xs. y \<le> x \<Longrightarrow> sorted (deque_append n x xs)"
  unfolding deque_append_def Let_def by (intro sorted_wrt_drop) (simp add: sorted_append)

lemma state_ok_mono: "state_ok t s \<Longrightarrow> t \<le> t' \<Longrightarrow> state_ok t' s"
  by (auto simp: state_ok_def)

lemma record_access_ok:
  assumes "state_ok now s"
  shows "state_ok now (record_access now s)"
  using assms deque_append_spec[of 4 now "access_history s"] deque_append_sorted[of "access_history s" now 4]
  by (fastforce simp: state_ok_def record_access_def)

lemma seconds_nonneg [simp]: "0 \<le> seconds n \<longleftrightarrow> 0 \<le> n"
  by (simp add: seconds_def zero_le_divide_iff)

lemma reuse_gaps_ok:
  assumes "state_ok now s"
  shows "list_all (\<lambda>g. 0 \<le> g) (get_reuse_gaps_seconds s)" "length (get_reuse_gaps_seconds s) \<le> 3"
  using assms by (auto simp: get_reuse_gaps_seconds_def Let_def list_all_iff state_ok_def
      sorted_nth_mono)

lemma new_state_ok: "state_ok now (new_block_metrics_state now)"
  by (simp add: state_ok_def new_block_metrics_state_def)

lemma clock_step: "mono (clock m) \<Longrightarrow> state_ok (clock m n) s \<Longrightarrow> state_ok (clock m (Suc n)) s"
  by (erule state_ok_mono) (simp add: monoD)

lemmas metrics_defs =
  metrics_ok_def on_block_allocated_def on_block_accessed_def on_block_evicted_def
  should_sample_block_def monotonic_ns_def

lemma on_block_allocated_ok:
  "mono (clock m) \<Longrightarrow> metrics_ok m \<Longrightarrow> metrics_ok (on_block_allocated bid m)"
  by (auto simp: metrics_defs Let_def intro: clock_step new_state_ok)

lemma on_block_accessed_ok:
  "mono (clock m) \<Longrightarrow> metrics_ok m \<Longrightarrow> metrics_ok (on_block_accessed bid m)"
  by (auto simp: metrics_defs Let_def intro: clock_step record_access_ok split: option.split)

lemma on_block_evicted_ok:
  assumes "mono (clock m)" and "metrics_ok m"
  shows "metrics_ok (on_block_evicted bid m)"
proof (cases "dict_get (block_metrics m) bid")
  case None
  with assms show ?thesis by (simp add: on_block_evicted_def)
next
  case (Some s)
  with assms have ok: "state_ok (clock m (clock_pos m)) s" by (simp add: metrics_ok_def)
  from clock_step[OF assms(1) ok] have ok': "state_ok (clock m (Suc (clock_pos m))) s" .
  have "event_ok \<lparr>lifetime_seconds = get_lifetime_seconds (clock m (clock_pos m)) s,
      idle_seconds = get_idle_time_seconds (clock m (Suc (clock_pos m))) s,
      reuse_gaps_seconds = get_reuse_gaps_seconds s\<rparr>"
    using ok ok' reuse_gaps_ok[OF ok]
    by (auto simp: event_ok_def get_lifetime_seconds_def get_idle_time_seconds_def state_ok_def)
  with Some assms show ?thesis
    by (auto simp: metrics_defs Let_def intro!: clock_step)
qed

end
