(* ===== verification/Block_Map.thy ===== *)
theory Block_Map
  imports Free_Block_Queue
begin

section \<open>The map from block hashes to cached blocks\<close>

text \<open>
  \<open>BlockHashToBlockMap\<close> of vllm/v1/core/block\_pool.py. An entry is a single block or, once two
  blocks have the same key, a dictionary from block identifiers to blocks. The operations read
  the identifier of a block object; \<open>bid\<close> is that attribute.

  Abstractly the map is a relation between keys and blocks (\<open>blocks_at\<close>); the locale
  \<open>hash_multimap\<close> states what the block pool relies on and its interpretation \<open>bm\<close> discharges it.
\<close>

datatype cache_entry = OneBlock addr | ManyBlocks "(int, addr) dict"

type_synonym block_map = "(bytes, cache_entry) dict"

definition get_one_block :: "block_map \<Rightarrow> bytes \<Rightarrow> addr option result" where
  "get_one_block cache key =
     (case dict_get cache key of
        None \<Rightarrow> Inr None
      | Some (OneBlock b) \<Rightarrow> Inr (Some b)
      | Some (ManyBlocks d) \<Rightarrow> (case d of [] \<Rightarrow> Inl StopIteration | e # es \<Rightarrow> Inr (Some (snd e))))"

definition map_insert :: "(addr \<Rightarrow> int) \<Rightarrow> bytes \<Rightarrow> addr \<Rightarrow> block_map \<Rightarrow> block_map" where
  "map_insert bid key block cache =
     (case dict_get cache key of
        None \<Rightarrow> dict_set key (OneBlock block) cache
      | Some (OneBlock b) \<Rightarrow>
          dict_set key (ManyBlocks (dict_set (bid block) block [(bid b, b)])) cache
      | Some (ManyBlocks d) \<Rightarrow> dict_set key (ManyBlocks (dict_set (bid block) block d)) cache)"

definition map_pop ::
  "(addr \<Rightarrow> int) \<Rightarrow> bytes \<Rightarrow> int \<Rightarrow> block_map \<Rightarrow> addr option \<times> block_map" where
  "map_pop bid key i cache =
     (case dict_get cache key of
        None \<Rightarrow> (None, cache)
      | Some (OneBlock b) \<Rightarrow>
          if bid b = i then (Some b, dict_del key cache)
          else (None, dict_set key (OneBlock b) (dict_del key cache))
      | Some (ManyBlocks d) \<Rightarrow>
          let d' = dict_del i d
          in (dict_get d i,
              if d' \<noteq> [] then dict_set key (ManyBlocks d') (dict_del key cache)
              else dict_del key cache))"

definition map_len :: "block_map \<Rightarrow> int" where
  "map_len cache = int (length cache)"

subsection \<open>The relation between keys and blocks\<close>

text \<open>The identifier of the \<open>i\<close>-th block object of the pool is \<open>i\<close>.\<close>

fun addr_id :: "addr \<Rightarrow> int" where
  "addr_id (Blk i) = int i"
| "addr_id _ = -1"

fun entry_blocks :: "cache_entry \<Rightarrow> addr set" where
  "entry_blocks (OneBlock b) = {b}"
| "entry_blocks (ManyBlocks d) = snd ` set d"

definition blocks_at :: "block_map \<Rightarrow> bytes \<Rightarrow> addr set" where
  "blocks_at cache key = (case dict_get cache key of None \<Rightarrow> {} | Some e \<Rightarrow> entry_blocks e)"

fun entry_wf :: "cache_entry \<Rightarrow> bool" where
  "entry_wf (OneBlock b) \<longleftrightarrow> b \<in> range Blk"
| "entry_wf (ManyBlocks d) \<longleftrightarrow>
     d \<noteq> [] \<and> distinct (dict_keys d) \<and> (\<forall>(i, b) \<in> set d. b \<in> range Blk \<and> addr_id b = i)"

definition map_wf :: "block_map \<Rightarrow> bool" where
  "map_wf cache \<longleftrightarrow> (\<forall>key e. dict_get cache key = Some e \<longrightarrow> entry_wf e)"

lemma addr_id_inj: "a \<in> range Blk \<Longrightarrow> b \<in> range Blk \<Longrightarrow> addr_id a = addr_id b \<longleftrightarrow> a = b"
  by auto

lemma map_wf_entry: "map_wf m \<Longrightarrow> dict_get m k = Some e \<Longrightarrow> entry_wf e"
  by (simp add: map_wf_def)

lemma map_wf_set: "map_wf m \<Longrightarrow> entry_wf e \<Longrightarrow> map_wf (dict_set k e m)"
  by (simp add: map_wf_def)

lemma map_wf_del: "map_wf m \<Longrightarrow> map_wf (dict_del k m)"
  by (simp add: map_wf_def)

lemma blocks_at_set: "blocks_at (dict_set k e m) = (blocks_at m)(k := entry_blocks e)"
  by (rule ext) (simp add: blocks_at_def)

lemma blocks_at_del: "blocks_at (dict_del k m) = (blocks_at m)(k := {})"
  by (rule ext) (simp add: blocks_at_def)

lemma entry_blocks_wf: "entry_wf e \<Longrightarrow> entry_blocks e \<subseteq> range Blk"
  by (cases e) auto

lemma blocks_at_Some: "dict_get m k = Some e \<Longrightarrow> blocks_at m k = entry_blocks e"
  by (simp add: blocks_at_def)

lemma blocks_at_None: "dict_get m k = None \<Longrightarrow> blocks_at m k = {}"
  by (simp add: blocks_at_def)

lemma many_set:
  assumes "entry_wf (ManyBlocks d)" and "b \<in> range Blk"
  shows "entry_wf (ManyBlocks (dict_set (addr_id b) b d))"
    and "entry_blocks (ManyBlocks (dict_set (addr_id b) b d)) = insert b (entry_blocks (ManyBlocks d))"
proof -
  have dist: "distinct (dict_keys d)" and wf: "\<And>i c. (i, c) \<in> set d \<Longrightarrow> c \<in> range Blk \<and> addr_id c = i"
    using assms(1) by auto
  have mem: "(i, c) \<in> set (dict_set (addr_id b) b d) \<longleftrightarrow> (i, c) = (addr_id b, b) \<or> (i, c) \<in> set d" for i c
  proof -
    have "(i, c) \<in> set (dict_set (addr_id b) b d) \<longleftrightarrow> dict_get (dict_set (addr_id b) b d) i = Some c"
      by (rule map_of_eq_Some_iff[OF distinct_update[OF dist], symmetric])
    also have "\<dots> \<longleftrightarrow> (i, c) = (addr_id b, b) \<or> (i \<noteq> addr_id b \<and> (i, c) \<in> set d)"
      using dist by (auto simp: map_of_eq_Some_iff)
    also have "\<dots> \<longleftrightarrow> (i, c) = (addr_id b, b) \<or> (i, c) \<in> set d"
      using wf assms(2) addr_id_inj by blast
    finally show ?thesis .
  qed
  then have set_set: "set (dict_set (addr_id b) b d) = insert (addr_id b, b) (set d)" by auto
  then have "dict_set (addr_id b) b d \<noteq> []" by auto
  then show "entry_wf (ManyBlocks (dict_set (addr_id b) b d))"
    using wf assms(2) dist by (auto simp: set_set distinct_update)
  show "entry_blocks (ManyBlocks (dict_set (addr_id b) b d)) = insert b (entry_blocks (ManyBlocks d))"
    by (simp add: set_set)
qed

lemma many_del:
  assumes "entry_wf (ManyBlocks d)" and "b \<in> range Blk"
  shows "dict_del (addr_id b) d \<noteq> [] \<Longrightarrow> entry_wf (ManyBlocks (dict_del (addr_id b) d))"
    and "snd ` set (dict_del (addr_id b) d) = entry_blocks (ManyBlocks d) - {b}"
    and "dict_get d (addr_id b) = (if b \<in> entry_blocks (ManyBlocks d) then Some b else None)"
proof -
  have dist: "distinct (dict_keys d)" and wf: "\<And>i c. (i, c) \<in> set d \<Longrightarrow> c \<in> range Blk \<and> addr_id c = i"
    using assms(1) by auto
  have dist_del: "distinct (dict_keys (dict_del (addr_id b) d))" using dist by (rule distinct_delete)
  have set_del: "set (dict_del (addr_id b) d) = {e \<in> set d. fst e \<noteq> addr_id b}"
    by (auto simp: AList.delete_eq)
  have key: "fst e \<noteq> addr_id b \<longleftrightarrow> snd e \<noteq> b" if "e \<in> set d" for e
    using wf[of "fst e" "snd e"] that addr_id_inj[OF _ assms(2), of "snd e"] by simp
  show "dict_del (addr_id b) d \<noteq> [] \<Longrightarrow> entry_wf (ManyBlocks (dict_del (addr_id b) d))"
    using wf dist_del by (auto simp: set_del)
  show "snd ` set (dict_del (addr_id b) d) = entry_blocks (ManyBlocks d) - {b}"
    unfolding set_del using key by auto
  show "dict_get d (addr_id b) = (if b \<in> entry_blocks (ManyBlocks d) then Some b else None)"
  proof (cases "dict_get d (addr_id b)")
    case None
    then have "\<forall>e \<in> set d. fst e \<noteq> addr_id b"
      unfolding map_of_eq_None_iff by (metis imageI)
    then have "b \<notin> entry_blocks (ManyBlocks d)" using key by auto
    with None show ?thesis by simp
  next
    case (Some c)
    then have "(addr_id b, c) \<in> set d" by (rule map_of_SomeD)
    moreover from wf[OF this] have "c = b" using addr_id_inj[OF _ assms(2), of c] by simp
    ultimately have "b \<in> entry_blocks (ManyBlocks d)" by (auto intro: rev_image_eqI)
    with Some \<open>c = b\<close> show ?thesis by simp
  qed
qed

subsection \<open>The contract\<close>

text \<open>
  \<open>rel m k\<close> are the blocks stored under \<open>k\<close>: an insertion adds one block to one key, a removal takes
  it out and says whether it was there, and a look-up finds some block exactly if there is one.
\<close>

locale hash_multimap =
  fixes wf :: "'m \<Rightarrow> bool" and rel :: "'m \<Rightarrow> 'k \<Rightarrow> 'b set" and univ :: "'b set" and emp :: 'm
    and ins :: "'k \<Rightarrow> 'b \<Rightarrow> 'm \<Rightarrow> 'm" and pop :: "'k \<Rightarrow> 'b \<Rightarrow> 'm \<Rightarrow> 'b option \<times> 'm"
    and get :: "'m \<Rightarrow> 'k \<Rightarrow> 'b option result"
  assumes emp_law: "wf emp" "rel emp k = {}"
    and rel_univ: "wf m \<Longrightarrow> rel m k \<subseteq> univ"
    and ins_law: "wf m \<Longrightarrow> b \<in> univ \<Longrightarrow>
          wf (ins k b m) \<and> rel (ins k b m) = (rel m)(k := insert b (rel m k))"
    and pop_law: "wf m \<Longrightarrow> b \<in> univ \<Longrightarrow>
          wf (snd (pop k b m)) \<and> rel (snd (pop k b m)) = (rel m)(k := rel m k - {b}) \<and>
          fst (pop k b m) = (if b \<in> rel m k then Some b else None)"
    and get_law: "wf m \<Longrightarrow>
          \<exists>r. get m k = Inr r \<and> (case r of None \<Rightarrow> rel m k = {} | Some b \<Rightarrow> b \<in> rel m k)"
begin

text \<open>A look-up after an insertion hits, and never raises.\<close>

lemma get_after_ins:
  assumes "wf m" "b \<in> univ"
  shows "\<exists>c. get (ins k b m) k = Inr (Some c) \<and> c \<in> insert b (rel m k)"
  using get_law[of "ins k b m" k] ins_law[OF assms, of k] by (auto split: option.splits)

text \<open>Removing what was just inserted under an unrelated pair restores the relation.\<close>

lemma pop_after_ins:
  assumes "wf m" "b \<in> univ" "b \<notin> rel m k"
  shows "fst (pop k b (ins k b m)) = Some b" and "rel (snd (pop k b (ins k b m))) = rel m"
  using pop_law[of "ins k b m" b k] ins_law[OF assms(1,2), of k] assms by auto

lemma get_None_iff: "wf m \<Longrightarrow> get m k = Inr None \<longleftrightarrow> rel m k = {}"
  using get_law[of m k] by (auto split: option.splits)

lemma get_Some: "wf m \<Longrightarrow> get m k = Inr (Some b) \<Longrightarrow> b \<in> rel m k"
  using get_law[of m k] by auto

end

text \<open>The operations read the identifiers of the stored blocks only.\<close>

lemma map_insert_cong:
  "bid b = bid' b \<Longrightarrow> (\<And>c. c \<in> blocks_at m k \<Longrightarrow> bid c = bid' c) \<Longrightarrow>
     map_insert bid k b m = map_insert bid' k b m"
  by (auto simp: map_insert_def blocks_at_def split: option.split cache_entry.split)

lemma map_pop_cong:
  "(\<And>c. c \<in> blocks_at m k \<Longrightarrow> bid c = bid' c) \<Longrightarrow> map_pop bid k i m = map_pop bid' k i m"
  by (auto simp: map_pop_def blocks_at_def split: option.split cache_entry.split)

lemma map_insert_law:
  assumes "map_wf m" and "b \<in> range Blk"
  shows "map_wf (map_insert addr_id k b m) \<and>
    blocks_at (map_insert addr_id k b m) = (blocks_at m)(k := insert b (blocks_at m k))"
proof (cases "dict_get m k")
  case None
  with assms show ?thesis by (simp add: map_insert_def blocks_at_set map_wf_set blocks_at_None)
next
  case (Some e)
  note wf = map_wf_entry[OF assms(1) Some]
  show ?thesis
  proof (cases e)
    case (OneBlock a)
    have "entry_wf (ManyBlocks [(addr_id a, a)])" using wf OneBlock by simp
    from many_set[OF this assms(2)] Some OneBlock assms show ?thesis
      by (simp add: map_insert_def blocks_at_set map_wf_set blocks_at_Some)
  next
    case (ManyBlocks d)
    from many_set[OF wf[unfolded ManyBlocks] assms(2)] Some ManyBlocks assms show ?thesis
      by (simp add: map_insert_def blocks_at_set map_wf_set blocks_at_Some)
  qed
qed

lemma map_pop_law:
  assumes "map_wf m" and "b \<in> range Blk"
  shows "map_wf (snd (map_pop addr_id k (addr_id b) m)) \<and>
    blocks_at (snd (map_pop addr_id k (addr_id b) m)) = (blocks_at m)(k := blocks_at m k - {b}) \<and>
    fst (map_pop addr_id k (addr_id b) m) = (if b \<in> blocks_at m k then Some b else None)"
proof (cases "dict_get m k")
  case None
  with assms show ?thesis by (auto simp: map_pop_def blocks_at_None fun_eq_iff)
next
  case (Some e)
  note wf = map_wf_entry[OF assms(1) Some]
  show ?thesis
  proof (cases e)
    case (OneBlock a)
    then have "addr_id a = addr_id b \<longleftrightarrow> a = b" using wf assms(2) addr_id_inj by simp
    with Some OneBlock assms wf show ?thesis
      by (cases "a = b") (simp_all add: map_pop_def blocks_at_set blocks_at_del map_wf_set map_wf_del
          blocks_at_Some)
  next
    case (ManyBlocks d)
    note md = many_del[OF wf[unfolded ManyBlocks] assms(2)]
    show ?thesis
    proof (cases "dict_del (addr_id b) d = []")
      case True
      then have e: "blocks_at m k - {b} = {}" using md(2) Some ManyBlocks by (simp add: blocks_at_Some)
      show ?thesis unfolding e using md(3) Some ManyBlocks assms True
        by (simp add: map_pop_def blocks_at_del map_wf_del blocks_at_Some)
    next
      case False
      with md Some ManyBlocks assms show ?thesis
        by (simp add: map_pop_def blocks_at_set blocks_at_del map_wf_set map_wf_del blocks_at_Some)
    qed
  qed
qed

lemma get_one_block_law:
  assumes "map_wf m"
  shows "\<exists>r. get_one_block m k = Inr r \<and>
    (case r of None \<Rightarrow> blocks_at m k = {} | Some b \<Rightarrow> b \<in> blocks_at m k)"
proof (cases "dict_get m k")
  case None
  then show ?thesis by (simp add: get_one_block_def blocks_at_None)
next
  case (Some e)
  with map_wf_entry[OF assms Some] show ?thesis
    by (cases e) (auto simp: get_one_block_def blocks_at_Some neq_Nil_conv)
qed

interpretation bm: hash_multimap map_wf blocks_at "range Blk" "[]" "map_insert addr_id"
  "\<lambda>k b. map_pop addr_id k (addr_id b)" get_one_block
proof (unfold_locales, goal_cases)
  case 1 show ?case by (simp add: map_wf_def)
next
  case (2 k) show ?case by (simp add: blocks_at_None)
next
  case (3 m k) then show ?case
    by (cases "dict_get m k") (simp_all add: blocks_at_def entry_blocks_wf map_wf_entry)
next
  case (4 m b k) then show ?case by (rule map_insert_law)
next
  case (5 m b k) then show ?case by (rule map_pop_law)
next
  case (6 m k) then show ?case by (rule get_one_block_law)
qed

end
