(* ===== verification/Block_Pool.thy ===== *)
theory Block_Pool
  imports Block_Map Block_Hashing KV_Cache_Metrics
begin

section \<open>The block pool\<close>

text \<open>
  \<open>BlockPool\<close> of vllm/v1/core/block\_pool.py. The pool owns the block objects: they are the store of
  its free queue, block \<open>i\<close> at the address \<open>Blk i\<close>, so that the attributes which the pool changes
  (reference counts, hashes) and the links which the queue changes live in one place, as in the
  code. The placeholder \<open>null_block\<close> is block 0.

  The invariant \<open>pool_rep\<close> says that the free queue holds exactly the blocks without references,
  in eviction order, and that the hash map and the hashes of the blocks agree. Every operation is
  shown to keep it, and its effect on reference counts, on the queue and on the cache is given on
  every branch.
\<close>

subsection \<open>Events (vllm/distributed/kv\_events.py)\<close>

record block_stored_event =
  ev_block_hashes :: "external_block_hash list"
  ev_parent_block_hash :: "external_block_hash option"
  ev_token_ids :: "int list"
  ev_block_size :: int
  ev_lora_id :: "int option"
  ev_medium :: string
  ev_lora_name :: "string option"
  ev_extra_keys :: "extra_key list option list option"
  ev_group_idx :: int

datatype kv_cache_event =
    BlockStored block_stored_event
  | BlockRemoved "external_block_hash list" string int
  | AllBlocksCleared

definition MEDIUM_GPU :: string where
  "MEDIUM_GPU = ''GPU''"

subsection \<open>State\<close>

record block_pool =
  num_gpu_blocks :: int
  enable_caching :: bool
  hash_block_size :: int
  free_block_queue :: free_queue
  cached_block_hash_to_block :: block_map
  null_block :: addr
  enable_kv_cache_events :: bool
  kv_event_queue :: "kv_cache_event list"
  metrics :: "metrics_collector option"

abbreviation blk :: "block_pool \<Rightarrow> block_heap" where
  "blk p \<equiv> heap (free_block_queue p)"

definition modify_block :: "addr \<Rightarrow> (kv_cache_block \<Rightarrow> kv_cache_block) \<Rightarrow> block_pool \<Rightarrow> block_pool" where
  "modify_block b f p =
     p\<lparr>free_block_queue := (free_block_queue p)
         \<lparr>heap := (heap (free_block_queue p))(b := f (heap (free_block_queue p) b))\<rparr>\<rparr>"

definition pool_blocks :: "int \<Rightarrow> addr list" where
  "pool_blocks n = map Blk [0..<nat n]"

definition block_pool_init ::
  "int \<Rightarrow> bool \<Rightarrow> int \<Rightarrow> bool \<Rightarrow> metrics_collector option \<Rightarrow> block_pool result" where
  "block_pool_init n caching hash_bs events mc =
     bindE (assertE (n > 0)) (\<lambda>_.
     bindE (popleft (free_queue_init fresh_heap (pool_blocks n))) (\<lambda>(null, q).
       Inr (modify_block null (\<lambda>b. b\<lparr>is_null := True\<rparr>)
         \<lparr>num_gpu_blocks = n, enable_caching = caching, hash_block_size = hash_bs,
          free_block_queue = q, cached_block_hash_to_block = [], null_block = null,
          enable_kv_cache_events = events, kv_event_queue = [], metrics = mc\<rparr>)))"

definition get_num_free_blocks :: "block_pool \<Rightarrow> int" where
  "get_num_free_blocks p = num_free_blocks (free_block_queue p)"

definition get_usage :: "block_pool \<Rightarrow> rat" where
  "get_usage p =
     (let total_gpu_blocks = num_gpu_blocks p - 1
      in if total_gpu_blocks = 0 then 0
         else 1 - of_int (get_num_free_blocks p) / of_int total_gpu_blocks)"

definition pool_take_events :: "block_pool \<Rightarrow> kv_cache_event list \<times> block_pool" where
  "pool_take_events p =
     (if \<not> enable_kv_cache_events p then ([], p)
      else (kv_event_queue p, p\<lparr>kv_event_queue := []\<rparr>))"

subsection \<open>Looking up cached blocks\<close>

fun get_cached_blocks :: "block_map \<Rightarrow> bytes \<Rightarrow> int list \<Rightarrow> addr list option result" where
  "get_cached_blocks cache bhash [] = Inr (Some [])"
| "get_cached_blocks cache bhash (group_id # group_ids) =
     bindE (make_block_hash_with_group_id bhash group_id) (\<lambda>key.
     bindE (get_one_block cache key) (\<lambda>r.
       case r of
         None \<Rightarrow> Inr None
       | Some block \<Rightarrow>
           bindE (get_cached_blocks cache bhash group_ids)
             (\<lambda>rest. Inr (map_option ((#) block) rest))))"

definition get_cached_block :: "block_pool \<Rightarrow> bytes \<Rightarrow> int list \<Rightarrow> addr list option result" where
  "get_cached_block p bhash kv_cache_group_ids =
     get_cached_blocks (cached_block_hash_to_block p) bhash kv_cache_group_ids"

subsection \<open>Evicting, allocating, touching and freeing\<close>

definition push_event :: "kv_cache_event \<Rightarrow> block_pool \<Rightarrow> block_pool" where
  "push_event e p =
     (if enable_kv_cache_events p then p\<lparr>kv_event_queue := kv_event_queue p @ [e]\<rparr> else p)"

definition update_metrics :: "(metrics_collector \<Rightarrow> metrics_collector) \<Rightarrow> block_pool \<Rightarrow> block_pool" where
  "update_metrics f p = p\<lparr>metrics := map_option f (metrics p)\<rparr>"

definition maybe_evict_cached_block :: "hash_env \<Rightarrow> addr \<Rightarrow> block_pool \<Rightarrow> bool \<times> block_pool" where
  "maybe_evict_cached_block env block p0 =
     (let p = update_metrics (on_block_evicted (block_id (blk p0 block))) p0 in
      case block_hash (blk p block) of
        None \<Rightarrow> (False, p)
      | Some key \<Rightarrow>
          (case map_pop (\<lambda>b. block_id (blk p b)) key (block_id (blk p block))
                  (cached_block_hash_to_block p) of
             (None, cache) \<Rightarrow> (False, p\<lparr>cached_block_hash_to_block := cache\<rparr>)
           | (Some _, cache) \<Rightarrow>
               (True,
                push_event
                  (BlockRemoved [maybe_convert_block_hash (use_int_block_hashes env) (get_block_hash key)]
                     MEDIUM_GPU (get_group_id key))
                  (modify_block block reset_hash (p\<lparr>cached_block_hash_to_block := cache\<rparr>)))))"

text \<open>One turn of the loop of \<open>get_new_blocks\<close>.\<close>

definition allocate_block :: "hash_env \<Rightarrow> addr \<Rightarrow> block_pool \<Rightarrow> block_pool result" where
  "allocate_block env block p =
     (let p1 = (if enable_caching p then snd (maybe_evict_cached_block env block p) else p) in
      bindE (assertE (ref_cnt (blk p1 block) = 0)) (\<lambda>_.
        Inr (update_metrics (on_block_allocated (block_id (blk p1 block)))
              (modify_block block (\<lambda>b. b\<lparr>ref_cnt := ref_cnt b + 1\<rparr>) p1))))"

definition get_new_blocks :: "hash_env \<Rightarrow> int \<Rightarrow> block_pool \<Rightarrow> (addr list \<times> block_pool) result" where
  "get_new_blocks env num_blocks p =
     (if num_blocks > get_num_free_blocks p then Inl ValueError
      else
        bindE (popleft_n num_blocks (free_block_queue p)) (\<lambda>(ret, q).
        bindE (foldE (allocate_block env) ret (p\<lparr>free_block_queue := q\<rparr>)) (\<lambda>p'. Inr (ret, p'))))"

definition touch_block :: "addr \<Rightarrow> block_pool \<Rightarrow> block_pool result" where
  "touch_block block p =
     bindE (if ref_cnt (blk p block) = 0 \<and> \<not> is_null (blk p block)
            then bindE (remove_block block (free_block_queue p)) (\<lambda>q. Inr (p\<lparr>free_block_queue := q\<rparr>))
            else Inr p)
       (\<lambda>p1. Inr (update_metrics (on_block_accessed (block_id (blk p1 block)))
                   (modify_block block (\<lambda>b. b\<lparr>ref_cnt := ref_cnt b + 1\<rparr>) p1)))"

definition touch :: "addr list \<Rightarrow> block_pool \<Rightarrow> block_pool result" where
  "touch blocks p = foldE touch_block blocks p"

definition decr_ref :: "addr \<Rightarrow> block_pool \<Rightarrow> block_pool" where
  "decr_ref block p = modify_block block (\<lambda>b. b\<lparr>ref_cnt := ref_cnt b - 1\<rparr>) p"

definition free_blocks :: "addr list \<Rightarrow> bool \<Rightarrow> block_pool \<Rightarrow> block_pool result" where
  "free_blocks blocks_list prepend p =
     (let p1 = fold decr_ref blocks_list p;
          freed_blocks = filter (\<lambda>b. ref_cnt (blk p1 b) = 0 \<and> \<not> is_null (blk p1 b)) blocks_list
      in bindE (if prepend then prepend_n freed_blocks (free_block_queue p1)
                else append_n freed_blocks (free_block_queue p1))
           (\<lambda>q. Inr (p1\<lparr>free_block_queue := q\<rparr>)))"

text \<open>\<open>evict_blocks\<close> iterates over a set; the list gives the order in which it is visited.\<close>

definition block_at :: "block_pool \<Rightarrow> int \<Rightarrow> addr result" where
  "block_at p i = py_index (pool_blocks (num_gpu_blocks p)) i"

definition evict_blocks :: "hash_env \<Rightarrow> int list \<Rightarrow> block_pool \<Rightarrow> block_pool result" where
  "evict_blocks env block_ids p =
     foldE (\<lambda>i p. bindE (assertE (i < num_gpu_blocks p)) (\<lambda>_.
                  bindE (block_at p i) (\<lambda>b. Inr (snd (maybe_evict_cached_block env b p)))))
       block_ids p"

definition reset_prefix_cache :: "block_pool \<Rightarrow> bool \<times> block_pool" where
  "reset_prefix_cache p =
     (let num_used_blocks = num_gpu_blocks p - get_num_free_blocks p in
      if num_used_blocks \<noteq> 1 then (False, p)
      else
        let p1 = p\<lparr>cached_block_hash_to_block := []\<rparr>;
            p2 = fold (\<lambda>b. modify_block b reset_hash) (pool_blocks (num_gpu_blocks p)) p1
        in (True, push_event AllBlocksCleared (update_metrics metrics_reset p2)))"

subsection \<open>Caching full blocks\<close>

text \<open>The list of hashes at the block size of the group.\<close>

datatype block_hash_list = PlainHashes "bytes list" | ScaledHashes block_hash_list_with_block_size

fun hash_list_from :: "block_hash_list \<Rightarrow> int \<Rightarrow> bytes list" where
  "hash_list_from (PlainHashes hs) a = py_slice_from hs a"
| "hash_list_from (ScaledHashes l) a = bhl_slice_from l a"

fun hash_list_at :: "block_hash_list \<Rightarrow> int \<Rightarrow> bytes result" where
  "hash_list_at (PlainHashes hs) i = py_index hs i"
| "hash_list_at (ScaledHashes l) i = Inr (bhl_get_value_at l i)"

definition resolve_block_hashes :: "block_pool \<Rightarrow> bytes list \<Rightarrow> int \<Rightarrow> block_hash_list result" where
  "resolve_block_hashes p hashes block_size =
     (if block_size = hash_block_size p then Inr (PlainHashes hashes)
      else bindE (assertE (block_size mod hash_block_size p = 0)) (\<lambda>_.
           bindE (bhl_init hashes (hash_block_size p) block_size) (\<lambda>l. Inr (ScaledHashes l))))"

definition masked_out :: "bool list option \<Rightarrow> nat \<Rightarrow> bool" where
  "masked_out block_mask i = (case block_mask of None \<Rightarrow> False | Some m \<Rightarrow> \<not> m ! i)"

text \<open>The loop over the new full blocks; it returns the external hashes of the blocks it cached.\<close>

fun cache_blocks_loop ::
  "hash_env \<Rightarrow> bool list option \<Rightarrow> bytes list \<Rightarrow> int \<Rightarrow> nat \<Rightarrow> addr list \<Rightarrow> block_pool \<Rightarrow>
     (external_block_hash list \<times> block_pool) result" where
  "cache_blocks_loop env block_mask new_block_hashes group_id i [] p = Inr ([], p)"
| "cache_blocks_loop env block_mask new_block_hashes group_id i (block # blocks) p =
     (if is_null (blk p block) \<or> masked_out block_mask i
      then cache_blocks_loop env block_mask new_block_hashes group_id (Suc i) blocks p
      else
        bindE (assertE (block_hash (blk p block) = None)) (\<lambda>_.
        bindE (py_index new_block_hashes (int i)) (\<lambda>bhash.
        bindE (make_block_hash_with_group_id bhash group_id) (\<lambda>key.
        bindE (set_block_hash key (blk p block)) (\<lambda>b'.
          let p1 = modify_block block (\<lambda>_. b') p;
              p2 = p1\<lparr>cached_block_hash_to_block :=
                        map_insert (\<lambda>b. block_id (blk p1 b)) key block (cached_block_hash_to_block p1)\<rparr>
          in bindE (cache_blocks_loop env block_mask new_block_hashes group_id (Suc i) blocks p2)
               (\<lambda>(new_hashes, p3).
                 Inr (maybe_convert_block_hash (use_int_block_hashes env) bhash # new_hashes, p3)))))))"

text \<open>The extra keys of the cached blocks, for the event.\<close>

fun event_extra_keys ::
  "hash_env \<Rightarrow> bool list option \<Rightarrow> int \<Rightarrow> int \<Rightarrow> block_pool \<Rightarrow> addr list \<Rightarrow> int list \<Rightarrow> int \<Rightarrow> request \<Rightarrow>
     (extra_key list option list \<times> request) result" where
  "event_extra_keys env block_mask block_size num_cached_blocks p blocks [] curr_mm_idx r = Inr ([], r)"
| "event_extra_keys env block_mask block_size num_cached_blocks p blocks (i # is) curr_mm_idx r =
     bindE (py_index blocks i) (\<lambda>block.
       if is_null (blk p block) \<or> masked_out block_mask (nat (i - num_cached_blocks))
       then event_extra_keys env block_mask block_size num_cached_blocks p blocks is curr_mm_idx r
       else
         let block_start = i * block_size; block_end = block_start + block_size
         in bindE (generate_block_hash_extra_keys env r block_start block_end curr_mm_idx)
              (\<lambda>(extra_keys, curr_mm_idx', r').
                bindE (event_extra_keys env block_mask block_size num_cached_blocks p blocks is
                         curr_mm_idx' r')
                  (\<lambda>(rest, r''). Inr (extra_keys # rest, r''))))"

text \<open>The event of the newly cached blocks, when events are enabled.\<close>

definition emit_block_stored ::
  "hash_env \<Rightarrow> addr list \<Rightarrow> int \<Rightarrow> int \<Rightarrow> int \<Rightarrow> int \<Rightarrow> bool list option \<Rightarrow> block_hash_list \<Rightarrow>
     external_block_hash list \<Rightarrow> request \<Rightarrow> block_pool \<Rightarrow> (request \<times> block_pool) result" where
  "emit_block_stored env blocks num_cached_blocks num_full_blocks block_size group_id block_mask
     hashes new_hashes r p =
     bindE (if num_cached_blocks = 0 then Inr None
            else bindE (hash_list_at hashes (num_cached_blocks - 1))
                   (\<lambda>h. Inr (Some (maybe_convert_block_hash (use_int_block_hashes env) h))))
       (\<lambda>parent_block_hash.
     bindE (event_extra_keys env block_mask block_size num_cached_blocks p blocks
              [num_cached_blocks..num_full_blocks - 1] 0 r)
       (\<lambda>(extra_keys_list, r').
         Inr (r',
           push_event
             (BlockStored
               \<lparr>ev_block_hashes = new_hashes, ev_parent_block_hash = parent_block_hash,
                ev_token_ids = py_slice (all_token_ids r) (num_cached_blocks * block_size)
                                 (num_full_blocks * block_size),
                ev_block_size = block_size,
                ev_lora_id = map_option lora_int_id (lora_request r),
                ev_medium = MEDIUM_GPU,
                ev_lora_name = map_option lora_name (lora_request r),
                ev_extra_keys = (if extra_keys_list = [] then None else Some extra_keys_list),
                ev_group_idx = group_id\<rparr>) p)))"

definition cache_full_blocks ::
  "hash_env \<Rightarrow> addr list \<Rightarrow> int \<Rightarrow> int \<Rightarrow> int \<Rightarrow> int \<Rightarrow> bool list option \<Rightarrow> request \<Rightarrow> block_pool \<Rightarrow>
     (request \<times> block_pool) result" where
  "cache_full_blocks env blocks num_cached_blocks num_full_blocks block_size group_id block_mask r p =
     (if num_cached_blocks \<ge> num_full_blocks then Inr (r, p)
      else
        let new_full_blocks = py_slice blocks num_cached_blocks num_full_blocks in
        bindE (assertE (int (length (block_hashes r)) \<ge> num_full_blocks)) (\<lambda>_.
        bindE (assertE (case block_mask of None \<Rightarrow> True | Some m \<Rightarrow> length m = length new_full_blocks)) (\<lambda>_.
        bindE (resolve_block_hashes p (block_hashes r) block_size) (\<lambda>hashes.
        bindE (cache_blocks_loop env block_mask (hash_list_from hashes num_cached_blocks) group_id 0
                 new_full_blocks p) (\<lambda>(new_hashes, p1).
          if enable_kv_cache_events p1
          then emit_block_stored env blocks num_cached_blocks num_full_blocks block_size group_id
                 block_mask hashes new_hashes r p1
          else Inr (r, p1))))))"

subsection \<open>Updates of the store\<close>

lemma modify_block_simps [simp]:
  "blk (modify_block b f p) c = (if c = b then f (blk p b) else blk p c)"
  "num_free_blocks (free_block_queue (modify_block b f p)) = num_free_blocks (free_block_queue p)"
  "num_gpu_blocks (modify_block b f p) = num_gpu_blocks p"
  "enable_caching (modify_block b f p) = enable_caching p"
  "hash_block_size (modify_block b f p) = hash_block_size p"
  "cached_block_hash_to_block (modify_block b f p) = cached_block_hash_to_block p"
  "null_block (modify_block b f p) = null_block p"
  "enable_kv_cache_events (modify_block b f p) = enable_kv_cache_events p"
  by (simp_all add: modify_block_def)

lemma push_event_simps [simp]:
  "free_block_queue (push_event e p) = free_block_queue p"
  "num_gpu_blocks (push_event e p) = num_gpu_blocks p"
  "enable_caching (push_event e p) = enable_caching p"
  "hash_block_size (push_event e p) = hash_block_size p"
  "cached_block_hash_to_block (push_event e p) = cached_block_hash_to_block p"
  "null_block (push_event e p) = null_block p"
  "enable_kv_cache_events (push_event e p) = enable_kv_cache_events p"
  by (simp_all add: push_event_def)

lemma update_metrics_simps [simp]:
  "free_block_queue (update_metrics f p) = free_block_queue p"
  "num_gpu_blocks (update_metrics f p) = num_gpu_blocks p"
  "enable_caching (update_metrics f p) = enable_caching p"
  "hash_block_size (update_metrics f p) = hash_block_size p"
  "cached_block_hash_to_block (update_metrics f p) = cached_block_hash_to_block p"
  "null_block (update_metrics f p) = null_block p"
  "enable_kv_cache_events (update_metrics f p) = enable_kv_cache_events p"
  by (simp_all add: update_metrics_def)

lemma queue_rep_modify_block [simp]:
  assumes "next_free_block (f (blk p b)) = next_free_block (blk p b)"
    and "prev_free_block (f (blk p b)) = prev_free_block (blk p b)"
  shows "queue_rep (free_block_queue (modify_block b f p)) xs = queue_rep (free_block_queue p) xs"
  by (rule queue_rep_links) (use assms in auto)

text \<open>The configuration that no operation changes.\<close>

definition same_config :: "block_pool \<Rightarrow> block_pool \<Rightarrow> bool" where
  "same_config p' p \<longleftrightarrow>
     num_gpu_blocks p' = num_gpu_blocks p \<and> enable_caching p' = enable_caching p \<and>
     hash_block_size p' = hash_block_size p \<and> null_block p' = null_block p \<and>
     enable_kv_cache_events p' = enable_kv_cache_events p"

lemma same_config_refl [simp]: "same_config p p"
  by (simp add: same_config_def)

lemma same_config_trans: "same_config p'' p' \<Longrightarrow> same_config p' p \<Longrightarrow> same_config p'' p"
  by (simp add: same_config_def)

subsection \<open>The invariant\<close>

text \<open>
  \<open>usable p\<close> are the blocks of the pool but the placeholder. In \<open>pool_state p fl pend\<close> the queue
  holds \<open>fl\<close> and the blocks without references are those of \<open>fl\<close> and \<open>pend\<close>: the loops of the code
  work on states where some blocks (\<open>pend\<close>) have left the queue and are not yet referenced, or are
  no longer referenced and not yet queued. Between operations \<open>pend\<close> is empty.
\<close>

definition usable :: "block_pool \<Rightarrow> addr set" where
  "usable p = Blk ` {1..<nat (num_gpu_blocks p)}"

definition ids_ok :: "block_pool \<Rightarrow> bool" where
  "ids_ok p \<longleftrightarrow>
     (\<forall>i < nat (num_gpu_blocks p).
        block_id (blk p (Blk i)) = int i \<and> is_null (blk p (Blk i)) = (i = 0))"

definition cache_ok :: "block_pool \<Rightarrow> bool" where
  "cache_ok p \<longleftrightarrow>
     map_wf (cached_block_hash_to_block p) \<and> block_hash (blk p (Blk 0)) = None \<and>
     (\<forall>k. blocks_at (cached_block_hash_to_block p) k =
            {b \<in> usable p. block_hash (blk p b) = Some k})"

definition pool_state :: "block_pool \<Rightarrow> addr list \<Rightarrow> addr list \<Rightarrow> bool" where
  "pool_state p fl pend \<longleftrightarrow>
     0 < num_gpu_blocks p \<and> null_block p = Blk 0 \<and>
     queue_rep (free_block_queue p) fl \<and> distinct pend \<and> set fl \<inter> set pend = {} \<and>
     set fl \<union> set pend = {b \<in> usable p. ref_cnt (blk p b) = 0} \<and>
     ids_ok p \<and> (\<forall>b \<in> usable p. 0 \<le> ref_cnt (blk p b)) \<and> cache_ok p"

definition pool_rep :: "block_pool \<Rightarrow> addr list \<Rightarrow> bool" where
  "pool_rep p fl \<longleftrightarrow> pool_state p fl []"

lemma usable_range: "b \<in> usable p \<Longrightarrow> b \<in> range Blk"
  by (auto simp: usable_def)

lemma usable_cong: "num_gpu_blocks p' = num_gpu_blocks p \<Longrightarrow> usable p' = usable p"
  by (simp add: usable_def)

lemma usable_not_null: "b \<in> usable p \<Longrightarrow> b \<noteq> Blk 0"
  by (auto simp: usable_def)

lemma ids_ok_usable:
  "ids_ok p \<Longrightarrow> b \<in> usable p \<Longrightarrow> block_id (blk p b) = addr_id b \<and> \<not> is_null (blk p b)"
  by (auto simp: ids_ok_def usable_def)

lemma ids_ok_null: "ids_ok p \<Longrightarrow> 0 < num_gpu_blocks p \<Longrightarrow> is_null (blk p (Blk 0))"
  by (simp add: ids_ok_def)

lemma ids_ok_cong:
  assumes "ids_ok p" "num_gpu_blocks p' = num_gpu_blocks p"
    "\<And>b. block_id (blk p' b) = block_id (blk p b)" "\<And>b. is_null (blk p' b) = is_null (blk p b)"
  shows "ids_ok p'"
  using assms by (simp add: ids_ok_def)

lemma cache_ok_cong:
  assumes "cache_ok p" "num_gpu_blocks p' = num_gpu_blocks p"
    "cached_block_hash_to_block p' = cached_block_hash_to_block p"
    "\<And>b. block_hash (blk p' b) = block_hash (blk p b)"
  shows "cache_ok p'"
  using assms by (simp add: cache_ok_def usable_def)

lemma pool_stateD:
  assumes "pool_state p fl pend"
  shows "0 < num_gpu_blocks p" "null_block p = Blk 0" "queue_rep (free_block_queue p) fl"
    "distinct pend" "set fl \<inter> set pend = {}"
    "set fl \<union> set pend = {b \<in> usable p. ref_cnt (blk p b) = 0}"
    "ids_ok p" "\<And>b. b \<in> usable p \<Longrightarrow> 0 \<le> ref_cnt (blk p b)" "cache_ok p"
  using assms by (simp_all add: pool_state_def)

lemma pool_state_zero:
  "pool_state p fl pend \<Longrightarrow> b \<in> usable p \<Longrightarrow> ref_cnt (blk p b) = 0 \<longleftrightarrow> b \<in> set fl \<or> b \<in> set pend"
  using pool_stateD(6) by blast

lemma pool_state_fl_usable: "pool_state p fl pend \<Longrightarrow> set fl \<subseteq> usable p \<and> set pend \<subseteq> usable p"
  by (auto simp: pool_state_def)

subsection \<open>Eviction\<close>

lemma pool_state_same_refs:
  assumes "pool_state p fl pend" and "same_config p' p" and "queue_rep (free_block_queue p') fl"
    and "\<And>b. block_id (blk p' b) = block_id (blk p b)" "\<And>b. is_null (blk p' b) = is_null (blk p b)"
    and "\<And>b. ref_cnt (blk p' b) = ref_cnt (blk p b)" and "cache_ok p'"
  shows "pool_state p' fl pend"
  using assms ids_ok_cong[of p p'] usable_cong[of p' p] by (simp add: pool_state_def same_config_def)

lemma evict_state:
  assumes st: "pool_state p fl pend" and b: "b \<in> usable p"
    and ev: "maybe_evict_cached_block env b p = (r, p')"
  shows "r \<longleftrightarrow> block_hash (blk p b) \<noteq> None" and "same_config p' p"
    and "blk p' = (blk p)(b := (blk p b)\<lparr>block_hash := None\<rparr>)" and "pool_state p' fl pend"
proof -
  have ids: "ids_ok p" and co: "cache_ok p" and q: "queue_rep (free_block_queue p) fl"
    using st by (auto simp: pool_state_def)
  let ?P = "(r \<longleftrightarrow> block_hash (blk p b) \<noteq> None) \<and> same_config p' p \<and>
    blk p' = (blk p)(b := (blk p b)\<lparr>block_hash := None\<rparr>) \<and> pool_state p' fl pend"
  have ?P
  proof (cases "block_hash (blk p b)")
    case None
    then have p': "\<not> r" "p' = update_metrics (on_block_evicted (block_id (blk p b))) p"
      using ev by (simp_all add: maybe_evict_cached_block_def)
    have e: "(blk p b)\<lparr>block_hash := None\<rparr> = blk p b" using None by (cases "blk p b") simp
    have "pool_state p' fl pend"
      using co q by (intro pool_state_same_refs[OF st]) (simp_all add: p' same_config_def cache_ok_def usable_def)
    moreover have "blk p' = (blk p)(b := (blk p b)\<lparr>block_hash := None\<rparr>)"
      unfolding e p'(2) update_metrics_simps by (rule fun_upd_triv[symmetric])
    moreover have "same_config p' p" by (simp add: p'(2) same_config_def)
    ultimately show ?thesis using None p'(1) by blast
  next
    case (Some key)
    let ?c = "cached_block_hash_to_block p"
    have at: "blocks_at ?c k = {c \<in> usable p. block_hash (blk p c) = Some k}" for k
      using co by (simp add: cache_ok_def)
    have "map_pop (\<lambda>c. block_id (blk p c)) key (block_id (blk p b)) ?c =
        map_pop addr_id key (addr_id b) ?c"
      using ids_ok_usable[OF ids] b by (subst map_pop_cong[where bid' = addr_id]) (auto simp: at)
    moreover note pop = bm.pop_law[of ?c b key, OF _ usable_range[OF b]]
    ultimately obtain c' where c': "map_pop (\<lambda>c. block_id (blk p c)) key (block_id (blk p b)) ?c = (Some b, c')"
        "map_wf c'" "blocks_at c' = (blocks_at ?c)(key := blocks_at ?c key - {b})"
      using co Some b by (cases "map_pop addr_id key (addr_id b) ?c") (auto simp: cache_ok_def)
    have "\<exists>e f. r \<and> p' = push_event e
        (modify_block b reset_hash ((update_metrics f p)\<lparr>cached_block_hash_to_block := c'\<rparr>))"
      using ev Some c'(1) by (auto simp: maybe_evict_cached_block_def)
    then obtain e f where r: "r" and p'_eq: "p' = push_event e
        (modify_block b reset_hash ((update_metrics f p)\<lparr>cached_block_hash_to_block := c'\<rparr>))" by blast
    have p': "r" "same_config p' p" "cached_block_hash_to_block p' = c'"
        "blk p' = (blk p)(b := (blk p b)\<lparr>block_hash := None\<rparr>)"
      using r by (simp_all add: p'_eq same_config_def fun_eq_iff reset_hash_def)
    have q': "queue_rep (free_block_queue p') fl"
      using q by (simp add: p'_eq reset_hash_def)
    have "usable p' = usable p" using p'(2) by (simp add: usable_def same_config_def)
    then have "cache_ok p'"
      using co c'(2) usable_not_null[OF b] Some by (auto simp: cache_ok_def p'(3,4) c'(3) at)
    then have "pool_state p' fl pend"
      using p' q' by (intro pool_state_same_refs[OF st]) simp_all
    with p' Some show ?thesis by simp
  qed
  then show "r \<longleftrightarrow> block_hash (blk p b) \<noteq> None" "same_config p' p"
    "blk p' = (blk p)(b := (blk p b)\<lparr>block_hash := None\<rparr>)" "pool_state p' fl pend" by auto
qed

subsection \<open>Allocation\<close>

text \<open>What a block looks like after it has been handed out.\<close>

definition allocated :: "bool \<Rightarrow> kv_cache_block \<Rightarrow> kv_cache_block" where
  "allocated caching x = x\<lparr>ref_cnt := 1, block_hash := (if caching then None else block_hash x)\<rparr>"

lemma incr_ref_state:
  assumes st: "pool_state p fl (b # pend)"
  shows "pool_state (modify_block b (\<lambda>x. x\<lparr>ref_cnt := ref_cnt x + 1\<rparr>) p) fl pend"
proof -
  let ?p = "modify_block b (\<lambda>x. x\<lparr>ref_cnt := ref_cnt x + 1\<rparr>) p"
  note D = pool_stateD[OF st]
  have b: "b \<in> usable p" "ref_cnt (blk p b) = 0" "b \<notin> set fl" "b \<notin> set pend"
    using D(4-6) by auto
  have u: "usable ?p = usable p" by (simp add: usable_def)
  have "set fl \<union> set pend = {c \<in> usable p. ref_cnt (blk p c) = 0} - {b}"
    using D(6) b(3,4) by auto
  also have "\<dots> = {c \<in> usable ?p. ref_cnt (blk ?p c) = 0}" using b(2) unfolding u by auto
  finally have "set fl \<union> set pend = {c \<in> usable ?p. ref_cnt (blk ?p c) = 0}" .
  moreover have "ids_ok ?p" by (rule ids_ok_cong[OF D(7)]) simp_all
  moreover have "cache_ok ?p" by (rule cache_ok_cong[OF D(9)]) simp_all
  moreover have "set fl \<inter> set pend = {}" using D(5) by auto
  ultimately show ?thesis
    unfolding pool_state_def u using D(1-4,8) by simp
qed

lemma pool_state_update_metrics [simp]:
  "pool_state (update_metrics f p) fl pend = pool_state p fl pend"
  by (simp add: pool_state_def ids_ok_def cache_ok_def usable_def)

lemma pool_state_push_event [simp]:
  "pool_state (push_event e p) fl pend = pool_state p fl pend"
  by (simp add: pool_state_def ids_ok_def cache_ok_def usable_def)

lemma allocate_block_state:
  assumes st: "pool_state p fl (b # pend)"
  shows "\<exists>p'. allocate_block env b p = Inr p' \<and> pool_state p' fl pend \<and> same_config p' p \<and>
     blk p' = (blk p)(b := allocated (enable_caching p) (blk p b))"
proof -
  have b: "b \<in> usable p" "ref_cnt (blk p b) = 0" using pool_stateD(6)[OF st] by auto
  define p1 where "p1 = (if enable_caching p then snd (maybe_evict_cached_block env b p) else p)"
  have p1: "pool_state p1 fl (b # pend)" "same_config p1 p"
      "blk p1 = (blk p)(b := (blk p b)\<lparr>block_hash := (if enable_caching p then None else block_hash (blk p b))\<rparr>)"
    using st evict_state[OF st b(1), of env] by (cases "maybe_evict_cached_block env b p"; simp add: p1_def)+
  let ?p = "update_metrics (on_block_allocated (block_id (blk p1 b)))
              (modify_block b (\<lambda>x. x\<lparr>ref_cnt := ref_cnt x + 1\<rparr>) p1)"
  have "allocate_block env b p = Inr ?p"
    using b(2) by (simp add: allocate_block_def p1_def[symmetric] Let_def p1(3))
  moreover have "pool_state ?p fl pend" using incr_ref_state[OF p1(1)] by simp
  moreover have "same_config ?p p" using p1(2) by (simp add: same_config_def)
  moreover have "blk ?p = (blk p)(b := allocated (enable_caching p) (blk p b))"
    using b(2) by (auto simp: fun_eq_iff p1(3) allocated_def)
  ultimately show ?thesis by blast
qed

lemma allocate_blocks_state:
  assumes "pool_state p fl pend"
  shows "\<exists>p'. foldE (allocate_block env) pend p = Inr p' \<and> pool_state p' fl [] \<and> same_config p' p \<and>
     blk p' = (\<lambda>c. if c \<in> set pend then allocated (enable_caching p) (blk p c) else blk p c)"
  using assms
proof (induction pend arbitrary: p)
  case (Cons b pend)
  from allocate_block_state[OF Cons.prems, of env] obtain p1 where p1:
    "allocate_block env b p = Inr p1" "pool_state p1 fl pend" "same_config p1 p"
    "blk p1 = (blk p)(b := allocated (enable_caching p) (blk p b))" by blast
  from Cons.IH[OF p1(2)] obtain p2 where p2:
    "foldE (allocate_block env) pend p1 = Inr p2" "pool_state p2 fl []" "same_config p2 p1"
    "blk p2 = (\<lambda>c. if c \<in> set pend then allocated (enable_caching p1) (blk p1 c) else blk p1 c)" by blast
  have "b \<notin> set pend" using pool_stateD(4)[OF Cons.prems] by simp
  with p1 p2 same_config_trans[OF p2(3) p1(3)] show ?case
    by (auto simp: fun_eq_iff same_config_def)
qed auto

text \<open>Replacing the queue by one that represents another list and has the same data.\<close>

lemma pool_state_requeue:
  assumes st: "pool_state p fl pend" and "queue_rep q fl'"
    and data: "queue_data q = queue_data (free_block_queue p)"
    and "distinct pend'" and "set fl' \<inter> set pend' = {}" and "set fl' \<union> set pend' = set fl \<union> set pend"
  shows "pool_state (p\<lparr>free_block_queue := q\<rparr>) fl' pend'"
proof -
  let ?p = "p\<lparr>free_block_queue := q\<rparr>"
  note D = pool_stateD[OF st] and f = queue_data_fields[OF data]
  have "ids_ok ?p" by (rule ids_ok_cong[OF D(7)]) (simp_all add: f)
  moreover have "cache_ok ?p" by (rule cache_ok_cong[OF D(9)]) (simp_all add: f)
  moreover have "usable ?p = usable p" by (simp add: usable_def)
  ultimately show ?thesis
    unfolding pool_state_def using D(1,2,8) assms(2,4,5) by (simp add: assms(6) D(6) f)
qed

lemma get_new_blocks_state:
  assumes rep: "pool_rep p fl" and n: "0 \<le> n" "n \<le> int (length fl)"
  shows "\<exists>p'. get_new_blocks env n p = Inr (take (nat n) fl, p') \<and> pool_rep p' (drop (nat n) fl) \<and>
     same_config p' p \<and>
     (\<forall>c. payload (blk p' c) = payload (if c \<in> set (take (nat n) fl)
                                     then allocated (enable_caching p) (blk p c) else blk p c))"
proof -
  have st: "pool_state p fl []" using rep by (simp add: pool_rep_def)
  note q = pool_stateD(3)[OF st]
  from lq.pop_law[OF q n] obtain q' where q':
    "popleft_n n (free_block_queue p) = Inr (take (nat n) fl, q')"
    "queue_rep q' (drop (nat n) fl)" "queue_data q' = queue_data (free_block_queue p)" by blast
  let ?p = "p\<lparr>free_block_queue := q'\<rparr>"
  have d: "distinct fl" using lq.rep_elems[OF q] by simp
  have "set (drop (nat n) fl) \<union> set (take (nat n) fl) = set fl"
    by (metis append_take_drop_id set_append sup_commute)
  moreover have "set (drop (nat n) fl) \<inter> set (take (nat n) fl) = {}"
    using set_take_disj_set_drop_if_distinct[OF d, of "nat n" "nat n"] by auto
  ultimately have "pool_state ?p (drop (nat n) fl) (take (nat n) fl)"
    using d by (intro pool_state_requeue[OF st q'(2,3)]) simp_all
  from allocate_blocks_state[OF this, of env] obtain p' where p':
    "foldE (allocate_block env) (take (nat n) fl) ?p = Inr p'" "pool_state p' (drop (nat n) fl) []"
    "same_config p' ?p"
    "blk p' = (\<lambda>c. if c \<in> set (take (nat n) fl) then allocated (enable_caching ?p) (blk ?p c) else blk ?p c)"
    by blast
  have "get_new_blocks env n p = Inr (take (nat n) fl, p')"
    using q'(1) p'(1) n(2) lq.rep_size[OF q] by (simp add: get_new_blocks_def get_num_free_blocks_def)
  moreover have "same_config p' p" using p'(3) by (simp add: same_config_def)
  moreover have "payload (blk p' c) = payload (if c \<in> set (take (nat n) fl)
                                     then allocated (enable_caching p) (blk p c) else blk p c)" for c
    using queue_data_fields[OF q'(3)] by (simp add: p'(4) payload_def allocated_def)
  ultimately show ?thesis using p'(2) by (auto simp: pool_rep_def)
qed

lemma get_new_blocks_error:
  "int (length fl) < n \<Longrightarrow> pool_rep p fl \<Longrightarrow> get_new_blocks env n p = Inl ValueError"
  using lq.rep_size[of "free_block_queue p" fl]
  by (simp add: get_new_blocks_def get_num_free_blocks_def pool_rep_def pool_state_def)

subsection \<open>Touching\<close>

lemma incr_used_state:
  assumes st: "pool_state p fl pend" and "ref_cnt (blk p b) > 0 \<or> b \<notin> usable p"
  shows "pool_state (modify_block b (\<lambda>x. x\<lparr>ref_cnt := ref_cnt x + 1\<rparr>) p) fl pend"
proof -
  let ?p = "modify_block b (\<lambda>x. x\<lparr>ref_cnt := ref_cnt x + 1\<rparr>) p"
  note D = pool_stateD[OF st]
  have u: "usable ?p = usable p" by (simp add: usable_def)
  have "{c \<in> usable ?p. ref_cnt (blk ?p c) = 0} = {c \<in> usable p. ref_cnt (blk p c) = 0}"
    using assms(2) unfolding u by auto
  moreover have "ids_ok ?p" by (rule ids_ok_cong[OF D(7)]) simp_all
  moreover have "cache_ok ?p" by (rule cache_ok_cong[OF D(9)]) simp_all
  ultimately show ?thesis
    unfolding pool_state_def using D(1-6,8) by (simp add: u)
qed

lemma touch_block_state:
  assumes rep: "pool_rep p fl" and b: "b = Blk 0 \<or> b \<in> usable p"
  shows "\<exists>p'. touch_block b p = Inr p' \<and> pool_rep p' (removeAll b fl) \<and> same_config p' p \<and>
     (\<forall>c. payload (blk p' c) = payload (if c = b then (blk p c)\<lparr>ref_cnt := ref_cnt (blk p c) + 1\<rparr> else blk p c))"
proof -
  have st: "pool_state p fl []" using rep by (simp add: pool_rep_def)
  note D = pool_stateD[OF st]
  let ?inc = "modify_block b (\<lambda>x. x\<lparr>ref_cnt := ref_cnt x + 1\<rparr>)"
  show ?thesis
  proof (cases "b \<in> set fl")
    case True
    then have bu: "b \<in> usable p" "ref_cnt (blk p b) = 0" using D(6) by auto
    from lq.remove_law[OF D(3) True] obtain q where q: "remove_block b (free_block_queue p) = Inr q"
      "queue_rep q (remove1 b fl)" "queue_data q = queue_data (free_block_queue p)" by blast
    let ?p = "p\<lparr>free_block_queue := q\<rparr>"
    note f = queue_data_fields[OF q(3)]
    have d: "distinct fl" using lq.rep_elems[OF D(3)] by simp
    then have rm: "removeAll b fl = remove1 b fl" by (simp add: distinct_remove1_removeAll)
    have "pool_state ?p (remove1 b fl) [b]"
      using d True by (intro pool_state_requeue[OF st q(2,3)]) auto
    then have "pool_state (?inc ?p) (remove1 b fl) []" by (rule incr_ref_state)
    moreover have "touch_block b p = Inr (update_metrics (on_block_accessed (block_id (blk ?p b))) (?inc ?p))"
      using bu ids_ok_usable[OF D(7) bu(1)] q(1) by (simp add: touch_block_def)
    moreover have "payload (blk (?inc ?p) c) =
        payload (if c = b then (blk p c)\<lparr>ref_cnt := ref_cnt (blk p c) + 1\<rparr> else blk p c)" for c
      by (simp add: payload_def f)
    ultimately show ?thesis
      unfolding rm pool_rep_def
      by (intro exI[of _ "update_metrics (on_block_accessed (block_id (blk ?p b))) (?inc ?p)"])
        (simp add: same_config_def)
  next
    case False
    have skip: "\<not> (ref_cnt (blk p b) = 0 \<and> \<not> is_null (blk p b))"
      using b False D(6) ids_ok_null[OF D(7,1)] by auto
    have pos: "ref_cnt (blk p b) > 0 \<or> b \<notin> usable p"
      using False D(6) D(8)[of b] by fastforce
    have "pool_state (?inc p) fl []" by (rule incr_used_state[OF st pos])
    moreover have "touch_block b p = Inr (update_metrics (on_block_accessed (block_id (blk p b))) (?inc p))"
      using skip by (auto simp: touch_block_def)
    ultimately show ?thesis
      using False unfolding pool_rep_def
      by (intro exI[of _ "update_metrics (on_block_accessed (block_id (blk p b))) (?inc p)"])
        (simp add: same_config_def)
  qed
qed

lemma touch_state:
  assumes "pool_rep p fl" and "\<forall>b \<in> set bs. b = Blk 0 \<or> b \<in> usable p"
  shows "\<exists>p'. touch bs p = Inr p' \<and> pool_rep p' (filter (\<lambda>b. b \<notin> set bs) fl) \<and> same_config p' p \<and>
     (\<forall>c. payload (blk p' c) = payload ((blk p c)\<lparr>ref_cnt := ref_cnt (blk p c) + int (count_list bs c)\<rparr>))"
  unfolding touch_def using assms
proof (induction bs arbitrary: p fl)
  case Nil
  then show ?case by (auto simp: payload_def)
next
  case (Cons b bs)
  from touch_block_state[of p fl b] Cons.prems obtain p1 where p1:
    "touch_block b p = Inr p1" "pool_rep p1 (removeAll b fl)" "same_config p1 p"
    "\<forall>c. payload (blk p1 c) = payload (if c = b then (blk p c)\<lparr>ref_cnt := ref_cnt (blk p c) + 1\<rparr> else blk p c)"
    by auto
  have "usable p1 = usable p" using p1(3) by (simp add: same_config_def usable_def)
  with Cons.IH[OF p1(2)] Cons.prems(2) obtain p2 where p2:
    "foldE touch_block bs p1 = Inr p2" "pool_rep p2 (filter (\<lambda>b. b \<notin> set bs) (removeAll b fl))" "same_config p2 p1"
    "\<forall>c. payload (blk p2 c) = payload ((blk p1 c)\<lparr>ref_cnt := ref_cnt (blk p1 c) + int (count_list bs c)\<rparr>)"
    by auto
  have "filter (\<lambda>b. b \<notin> set bs) (removeAll b fl) = filter (\<lambda>c. c \<notin> set (b # bs)) fl"
    by (auto simp: removeAll_filter_not_eq intro!: filter_cong)
  moreover have "payload (blk p2 c) = payload ((blk p c)\<lparr>ref_cnt := ref_cnt (blk p c) + int (count_list (b # bs) c)\<rparr>)" for c
    using p1(4)[rule_format, of c] p2(4)[rule_format, of c] by (auto simp: payload_def split: if_splits)
  ultimately show ?case
    using p1(1) p2(1,2) same_config_trans[OF p2(3) p1(3)] by auto
qed

subsection \<open>Freeing\<close>

lemma fold_decr_ref:
  "blk (fold decr_ref bs p) c = (blk p c)\<lparr>ref_cnt := ref_cnt (blk p c) - int (count_list bs c)\<rparr>"
  "same_config (fold decr_ref bs p) p"
  "cached_block_hash_to_block (fold decr_ref bs p) = cached_block_hash_to_block p"
  "queue_rep (free_block_queue (fold decr_ref bs p)) xs = queue_rep (free_block_queue p) xs"
  by (induction bs arbitrary: p) (auto simp: decr_ref_def same_config_def)

text \<open>
  A caller may free blocks that it holds a reference to, each at most once; placeholders may be
  among them.
\<close>

definition freeable :: "addr list \<Rightarrow> block_pool \<Rightarrow> bool" where
  "freeable bs p \<longleftrightarrow>
     distinct (filter (\<lambda>b. b \<noteq> Blk 0) bs) \<and>
     (\<forall>b \<in> set bs. b = Blk 0 \<or> b \<in> usable p \<and> 0 < ref_cnt (blk p b))"

definition newly_free :: "addr list \<Rightarrow> block_pool \<Rightarrow> addr list" where
  "newly_free bs p = filter (\<lambda>b. b \<noteq> Blk 0 \<and> ref_cnt (blk p b) = 1) bs"

lemma freeable_count:
  assumes "freeable bs p" and "b \<noteq> Blk 0"
  shows "count_list bs b = (if b \<in> set bs then 1 else 0)"
proof -
  have "count_list (filter (\<lambda>b. b \<noteq> Blk 0) bs) b = count_list bs b"
    using assms(2) by (induction bs) auto
  moreover have "count_list (filter (\<lambda>b. b \<noteq> Blk 0) bs) b = (if b \<in> set bs then 1 else 0)"
    using assms by (simp add: freeable_def count_list_distinct)
  ultimately show ?thesis by simp
qed

lemma decr_state:
  assumes st: "pool_state p fl []" and fr: "freeable bs p"
  shows "pool_state (fold decr_ref bs p) fl (newly_free bs p)"
    and "filter (\<lambda>b. ref_cnt (blk (fold decr_ref bs p) b) = 0 \<and> \<not> is_null (blk (fold decr_ref bs p) b)) bs
       = newly_free bs p"
proof -
  let ?p = "fold decr_ref bs p"
  note D = pool_stateD[OF st] and F = fold_decr_ref[of bs p]
  have cnt: "ref_cnt (blk ?p b) = ref_cnt (blk p b) - (if b \<in> set bs then 1 else 0)" if "b \<noteq> Blk 0" for b
    using freeable_count[OF fr that] by (simp add: F(1))
  have us: "b \<in> usable p" "0 < ref_cnt (blk p b)" if "b \<in> set bs" "b \<noteq> Blk 0" for b
    using fr that by (auto simp: freeable_def)
  have u: "usable ?p = usable p" using F(2) by (simp add: usable_def same_config_def)
  have null: "is_null (blk ?p b) \<longleftrightarrow> b = Blk 0" if "b \<in> set bs" for b
    using us[OF that] ids_ok_usable[OF D(7)] ids_ok_null[OF D(7,1)] by (auto simp: F(1))
  show "filter (\<lambda>b. ref_cnt (blk ?p b) = 0 \<and> \<not> is_null (blk ?p b)) bs = newly_free bs p"
    unfolding newly_free_def using null cnt by (intro filter_cong) auto
  have "set fl \<union> set (newly_free bs p) = {b \<in> usable ?p. ref_cnt (blk ?p b) = 0}"
  proof (rule set_eqI)
    fix b
    have z: "b \<in> set fl \<longleftrightarrow> b \<in> usable p \<and> ref_cnt (blk p b) = 0" using D(6) by auto
    show "b \<in> set fl \<union> set (newly_free bs p) \<longleftrightarrow> b \<in> {b \<in> usable ?p. ref_cnt (blk ?p b) = 0}"
    proof (cases "b \<in> usable p")
      case True
      then have b0: "b \<noteq> Blk 0" by (rule usable_not_null)
      show ?thesis
        using us(2)[OF _ b0] cnt[OF b0] z True b0 by (cases "b \<in> set bs") (auto simp: newly_free_def u)
    next
      case False
      then have "b \<notin> set (newly_free bs p)" using us(1)[of b] by (auto simp: newly_free_def)
      with False z show ?thesis by (simp add: u)
    qed
  qed
  moreover have "set fl \<inter> set (newly_free bs p) = {}" using D(6) by (fastforce simp: newly_free_def)
  moreover have "distinct (newly_free bs p)"
  proof -
    have "distinct (filter (\<lambda>b. b \<noteq> Blk 0) bs)" using fr by (simp add: freeable_def)
    then have "distinct (filter (\<lambda>b. ref_cnt (blk p b) = 1) (filter (\<lambda>b. b \<noteq> Blk 0) bs))"
      by (rule distinct_filter)
    then show ?thesis by (simp add: newly_free_def)
  qed
  moreover have "ids_ok ?p" by (rule ids_ok_cong[OF D(7)]) (use F(2) in \<open>simp_all add: F(1) same_config_def\<close>)
  moreover have "cache_ok ?p"
    by (rule cache_ok_cong[OF D(9)]) (use F(2,3) in \<open>simp_all add: F(1) same_config_def\<close>)
  moreover have "0 \<le> ref_cnt (blk ?p b)" if "b \<in> usable p" for b
    using cnt[OF usable_not_null[OF that]] us(2)[of b] usable_not_null[OF that] D(8)[OF that]
    by (auto split: if_splits)
  ultimately show "pool_state ?p fl (newly_free bs p)"
    unfolding pool_state_def using D(1-3) F(2,4) u by (simp add: same_config_def)
qed

lemma free_blocks_state:
  assumes rep: "pool_rep p fl" and fr: "freeable bs p"
  shows "\<exists>p'. free_blocks bs prepend p = Inr p' \<and> same_config p' p \<and>
     pool_rep p' (if prepend then newly_free bs p @ fl else fl @ newly_free bs p) \<and>
     (\<forall>c. payload (blk p' c) = payload ((blk p c)\<lparr>ref_cnt := ref_cnt (blk p c) - int (count_list bs c)\<rparr>))"
proof -
  let ?p = "fold decr_ref bs p" and ?nf = "newly_free bs p"
  have st: "pool_state p fl []" using rep by (simp add: pool_rep_def)
  note S = decr_state[OF st fr] and F = fold_decr_ref[of bs p]
  note D = pool_stateD[OF S(1)]
  have nf: "set ?nf \<subseteq> range Blk" using pool_state_fl_usable[OF S(1)] usable_range by blast
  have "set ?nf \<inter> set fl = {}" using D(5) by auto
  then obtain q where q: "(if prepend then prepend_n ?nf (free_block_queue ?p) else append_n ?nf (free_block_queue ?p)) = Inr q"
    "queue_rep q (if prepend then ?nf @ fl else fl @ ?nf)" "queue_data q = queue_data (free_block_queue ?p)"
    using lq.pre_law[OF D(3,4) nf] lq.app_law[OF D(3,4) nf] by (cases prepend) auto
  have "pool_state (?p\<lparr>free_block_queue := q\<rparr>) (if prepend then ?nf @ fl else fl @ ?nf) []"
    by (rule pool_state_requeue[OF S(1) q(2,3)]) auto
  moreover have "free_blocks bs prepend p = Inr (?p\<lparr>free_block_queue := q\<rparr>)"
    using q(1) by (simp add: free_blocks_def S(2) Let_def split: if_splits)
  moreover have "payload (heap q c) = payload ((blk p c)\<lparr>ref_cnt := ref_cnt (blk p c) - int (count_list bs c)\<rparr>)" for c
    using queue_data_fields[OF q(3)] by (simp add: payload_def F(1))
  ultimately show ?thesis using F(2) by (auto simp: pool_rep_def same_config_def)
qed

subsection \<open>Evicting by identifier and resetting\<close>

lemma evict_any_state:
  assumes rep: "pool_rep p fl" and b: "b = Blk 0 \<or> b \<in> usable p"
  shows "pool_rep (snd (maybe_evict_cached_block env b p)) fl"
    and "same_config (snd (maybe_evict_cached_block env b p)) p"
    and "payload (blk (snd (maybe_evict_cached_block env b p)) c) =
           payload (if c = b then (blk p c)\<lparr>block_hash := None\<rparr> else blk p c)"
proof -
  have st: "pool_state p fl []" using rep by (simp add: pool_rep_def)
  have "pool_rep (snd (maybe_evict_cached_block env b p)) fl \<and>
    same_config (snd (maybe_evict_cached_block env b p)) p \<and>
    payload (blk (snd (maybe_evict_cached_block env b p)) c) =
           payload (if c = b then (blk p c)\<lparr>block_hash := None\<rparr> else blk p c)"
  proof (cases "b \<in> usable p")
    case True
    obtain r p' where e: "maybe_evict_cached_block env b p = (r, p')" by (cases "maybe_evict_cached_block env b p")
    show ?thesis using evict_state(2-4)[OF st True e] by (simp add: e pool_rep_def)
  next
    case False
    with b have "b = Blk 0" by simp
    moreover have "block_hash (blk p (Blk 0)) = None" using pool_stateD(9)[OF st] by (simp add: cache_ok_def)
    ultimately show ?thesis
      using st by (simp add: maybe_evict_cached_block_def pool_rep_def same_config_def payload_def)
  qed
  then show "pool_rep (snd (maybe_evict_cached_block env b p)) fl"
    "same_config (snd (maybe_evict_cached_block env b p)) p"
    "payload (blk (snd (maybe_evict_cached_block env b p)) c) =
           payload (if c = b then (blk p c)\<lparr>block_hash := None\<rparr> else blk p c)" by auto
qed

lemma block_at_nonneg:
  "0 \<le> i \<Longrightarrow> i < num_gpu_blocks p \<Longrightarrow> block_at p i = Inr (Blk (nat i))"
  by (simp add: block_at_def pool_blocks_def py_index_def nat_less_iff)

lemma evict_blocks_state:
  assumes "pool_rep p fl" and "\<forall>i \<in> set ids. 0 \<le> i \<and> i < num_gpu_blocks p"
  shows "\<exists>p'. evict_blocks env ids p = Inr p' \<and> pool_rep p' fl \<and> same_config p' p \<and>
     (\<forall>c. payload (blk p' c) =
            payload (if c \<in> Blk ` nat ` set ids then (blk p c)\<lparr>block_hash := None\<rparr> else blk p c))"
  using assms
proof (induction ids arbitrary: p)
  case Nil
  then show ?case by (simp add: evict_blocks_def)
next
  case (Cons i ids)
  let ?b = "Blk (nat i)"
  let ?p = "snd (maybe_evict_cached_block env ?b p)"
  have b: "?b = Blk 0 \<or> ?b \<in> usable p"
    using Cons.prems(2) by (auto simp: usable_def)
  note e = evict_any_state[OF Cons.prems(1) b, of env]
  from Cons.IH[OF e(1)] Cons.prems(2) e(2) obtain p' where p': "evict_blocks env ids ?p = Inr p'"
    "pool_rep p' fl" "same_config p' ?p"
    "\<And>c. payload (blk p' c) =
            payload (if c \<in> Blk ` nat ` set ids then (blk ?p c)\<lparr>block_hash := None\<rparr> else blk ?p c)"
    by (auto simp: same_config_def)
  have "evict_blocks env (i # ids) p = Inr p'"
    using p'(1) Cons.prems(2) by (simp add: evict_blocks_def block_at_nonneg)
  moreover have "payload (blk p' c) = payload (if c \<in> Blk ` nat ` set (i # ids)
      then (blk p c)\<lparr>block_hash := None\<rparr> else blk p c)" for c
    using p'(4)[of c] e(3)[of c] by (auto simp: payload_def split: if_splits)
  ultimately show ?case using p'(2) same_config_trans[OF p'(3) e(2)] by blast
qed

lemma evict_blocks_invalid:
  "num_gpu_blocks p \<le> i \<Longrightarrow> evict_blocks env (i # ids) p = Inl AssertionError"
  by (simp add: evict_blocks_def)

lemma fold_reset_hash:
  "blk (fold (\<lambda>b. modify_block b reset_hash) bs p) c =
     (if c \<in> set bs then (blk p c)\<lparr>block_hash := None\<rparr> else blk p c)"
  "same_config (fold (\<lambda>b. modify_block b reset_hash) bs p) p"
  "cached_block_hash_to_block (fold (\<lambda>b. modify_block b reset_hash) bs p) = cached_block_hash_to_block p"
  "queue_rep (free_block_queue (fold (\<lambda>b. modify_block b reset_hash) bs p)) xs = queue_rep (free_block_queue p) xs"
  by (induction bs arbitrary: p) (auto simp: reset_hash_def same_config_def)

lemma card_usable: "0 < num_gpu_blocks p \<Longrightarrow> int (card (usable p)) = num_gpu_blocks p - 1"
  by (simp add: usable_def card_image inj_on_def)

lemma free_list_card:
  assumes "pool_rep p fl"
  shows "get_num_free_blocks p = int (card {b \<in> usable p. ref_cnt (blk p b) = 0})"
    and "get_num_free_blocks p \<le> num_gpu_blocks p - 1"
    and "get_num_free_blocks p = num_gpu_blocks p - 1 \<longleftrightarrow> (\<forall>b \<in> usable p. ref_cnt (blk p b) = 0)"
proof -
  have st: "pool_state p fl []" using assms by (simp add: pool_rep_def)
  note D = pool_stateD[OF st]
  have fl: "set fl = {b \<in> usable p. ref_cnt (blk p b) = 0}" "distinct fl"
    using D(6) lq.rep_elems[OF D(3)] by auto
  then show n: "get_num_free_blocks p = int (card {b \<in> usable p. ref_cnt (blk p b) = 0})"
    using lq.rep_size[OF D(3)] distinct_card[of fl] by (simp add: get_num_free_blocks_def)
  have fin: "finite (usable p)" by (simp add: usable_def)
  show "get_num_free_blocks p \<le> num_gpu_blocks p - 1"
    unfolding n card_usable[OF D(1), symmetric] by (simp add: card_mono[OF fin])
  show "get_num_free_blocks p = num_gpu_blocks p - 1 \<longleftrightarrow> (\<forall>b \<in> usable p. ref_cnt (blk p b) = 0)"
  proof
    assume "get_num_free_blocks p = num_gpu_blocks p - 1"
    then have "card {b \<in> usable p. ref_cnt (blk p b) = 0} = card (usable p)"
      using n card_usable[OF D(1)] by simp
    then have "{b \<in> usable p. ref_cnt (blk p b) = 0} = usable p"
      by (intro card_subset_eq[OF fin]) auto
    then show "\<forall>b \<in> usable p. ref_cnt (blk p b) = 0" by blast
  next
    assume "\<forall>b \<in> usable p. ref_cnt (blk p b) = 0"
    then have "{b \<in> usable p. ref_cnt (blk p b) = 0} = usable p" by blast
    then show "get_num_free_blocks p = num_gpu_blocks p - 1" using n card_usable[OF D(1)] by simp
  qed
qed

lemma reset_prefix_cache_state:
  assumes rep: "pool_rep p fl" and "reset_prefix_cache p = (ok, p')"
  shows "ok \<longleftrightarrow> (\<forall>b \<in> usable p. ref_cnt (blk p b) = 0)" and "pool_rep p' fl" and "same_config p' p"
    and "ok \<Longrightarrow> cached_block_hash_to_block p' = [] \<and> (\<forall>b \<in> usable p. block_hash (blk p' b) = None)"
    and "\<not> ok \<Longrightarrow> p' = p"
proof -
  have st: "pool_state p fl []" using rep by (simp add: pool_rep_def)
  note D = pool_stateD[OF st]
  let ?p1 = "p\<lparr>cached_block_hash_to_block := []\<rparr>"
  let ?p2 = "fold (\<lambda>b. modify_block b reset_hash) (pool_blocks (num_gpu_blocks p)) ?p1"
  note F = fold_reset_hash[of "pool_blocks (num_gpu_blocks p)" ?p1]
  have ok: "ok \<longleftrightarrow> get_num_free_blocks p = num_gpu_blocks p - 1"
    and p': "p' = (if ok then push_event AllBlocksCleared (update_metrics metrics_reset ?p2) else p)"
    using assms(2) by (auto simp: reset_prefix_cache_def Let_def split: if_splits)
  have pb: "b \<in> set (pool_blocks (num_gpu_blocks p))" if "b \<in> usable p \<or> b = Blk 0" for b
    using that D(1) by (auto simp: pool_blocks_def usable_def)
  have u: "usable ?p2 = usable p" using F(2) by (simp add: usable_def same_config_def)
  have "cache_ok ?p2"
    using pb by (auto simp: cache_ok_def F(1,3) u map_wf_def blocks_at_def)
  then have "pool_state ?p2 fl []"
    using D(3) F(2) by (intro pool_state_same_refs[OF st]) (simp_all add: F(1,4) same_config_def)
  then show "pool_rep p' fl" using rep by (simp add: p' pool_rep_def)
  show "ok \<longleftrightarrow> (\<forall>b \<in> usable p. ref_cnt (blk p b) = 0)" using ok free_list_card(3)[OF rep] by simp
  show "same_config p' p" using F(2) by (simp add: p' same_config_def)
  show "ok \<Longrightarrow> cached_block_hash_to_block p' = [] \<and> (\<forall>b \<in> usable p. block_hash (blk p' b) = None)"
    using pb by (simp add: p' F(1,3))
  show "\<not> ok \<Longrightarrow> p' = p" by (simp add: p')
qed

end
