(* ===== verification/Prefix_Cache.thy ===== *)
theory Prefix_Cache
  imports Block_Pool
begin

section \<open>The prefix cache of the pool\<close>

text \<open>
  Creation of the pool, look-up of cached blocks and caching of full blocks, and the properties of
  \<open>BlockPool\<close> (vllm/v1/core/block\_pool.py) that the KV-cache managers rely on.
\<close>

subsection \<open>Creation\<close>

lemma block_pool_init_state:
  assumes "0 < n"
  shows "\<exists>p. block_pool_init n caching hbs ev mc = Inr p \<and> pool_rep p (map Blk [1..<nat n]) \<and>
     num_gpu_blocks p = n \<and> enable_caching p = caching \<and> hash_block_size p = hbs \<and>
     cached_block_hash_to_block p = [] \<and> enable_kv_cache_events p = ev \<and> kv_event_queue p = [] \<and>
     (\<forall>i. ref_cnt (blk p (Blk i)) = 0 \<and> block_hash (blk p (Blk i)) = None)"
proof -
  let ?fl = "map Blk [1..<nat n]"
  let ?q0 = "free_queue_init fresh_heap (pool_blocks n)"
  have "[0..<nat n] = 0 # [1..<nat n]" using assms by (simp add: upt_conv_Cons)
  then have pb: "pool_blocks n = Blk 0 # ?fl" by (simp add: pool_blocks_def)
  have dist: "distinct (pool_blocks n)" "set (pool_blocks n) \<subseteq> range Blk"
    by (auto simp: pool_blocks_def distinct_map inj_on_def)
  have "queue_rep ?q0 (Blk 0 # ?fl)" using free_queue_init_fresh[OF dist] unfolding pb .
  from popleft_rep[OF this] obtain q where q: "popleft ?q0 = Inr (Blk 0, q)" "queue_rep q ?fl"
    "queue_data q = queue_data ?q0" by blast
  have "payload (heap q (Blk i)) = payload (new_kv_cache_block (int i))" for i
    using free_queue_init_rep(2)[of "pool_blocks n" fresh_heap i, OF dist] fun_cong[OF q(3), of "Blk i"]
    by (simp add: queue_data_def) (simp add: fresh_heap_def)
  then have f: "block_id (heap q (Blk i)) = int i" "ref_cnt (heap q (Blk i)) = 0"
      "block_hash (heap q (Blk i)) = None" "\<not> is_null (heap q (Blk i))" for i
    by (simp_all add: payload_def new_kv_cache_block_def)
  let ?p0 = "\<lparr>num_gpu_blocks = n, enable_caching = caching, hash_block_size = hbs,
          free_block_queue = q, cached_block_hash_to_block = [], null_block = Blk 0,
          enable_kv_cache_events = ev, kv_event_queue = [], metrics = mc\<rparr>"
  let ?p = "modify_block (Blk 0) (\<lambda>b. b\<lparr>is_null := True\<rparr>) ?p0"
  have init: "block_pool_init n caching hbs ev mc = Inr ?p"
    using assms q(1) by (simp add: block_pool_init_def)
  have "ids_ok ?p" using f by (simp add: ids_ok_def)
  moreover have "cache_ok ?p" using f by (auto simp: cache_ok_def map_wf_def blocks_at_def usable_def)
  moreover have "queue_rep (free_block_queue ?p) ?fl" using q(2) by simp
  moreover have "set ?fl = {b \<in> usable ?p. ref_cnt (blk ?p b) = 0}"
    using f by (auto simp: usable_def)
  moreover have "0 \<le> ref_cnt (blk ?p b)" if "b \<in> usable ?p" for b
    using that f by (auto simp: usable_def)
  ultimately have "pool_rep ?p ?fl"
    using assms unfolding pool_rep_def pool_state_def by simp
  moreover have "kv_event_queue ?p = []" by (simp add: modify_block_def)
  ultimately show ?thesis using init f by (intro exI[of _ ?p]) simp
qed

subsection \<open>Look-up\<close>

text \<open>The key of a hash in a group, for group identifiers that fit in four bytes.\<close>

definition group_ok :: "int \<Rightarrow> bool" where
  "group_ok g \<longleftrightarrow> 0 \<le> g \<and> g < 256 ^ 4"

definition cache_key :: "bytes \<Rightarrow> int \<Rightarrow> bytes" where
  "cache_key h g = h @ int_bytes 4 g"

lemma make_key_ok: "group_ok g \<Longrightarrow> make_block_hash_with_group_id h g = Inr (cache_key h g)"
  by (simp add: make_key_iff group_ok_def cache_key_def)

lemma cache_key_inj: "group_ok g \<Longrightarrow> group_ok g' \<Longrightarrow> cache_key h g = cache_key h' g' \<longleftrightarrow> h = h' \<and> g = g'"
  using make_key_inj[of h g "cache_key h g" h' g'] make_key_ok[of g h] make_key_ok[of g' h'] by auto

definition cached_under :: "block_pool \<Rightarrow> bytes \<Rightarrow> addr set" where
  "cached_under p k = {b \<in> usable p. block_hash (blk p b) = Some k}"

lemma get_cached_blocks_spec:
  assumes "map_wf m" and "\<forall>g \<in> set gs. group_ok g"
  shows "\<exists>r. get_cached_blocks m h gs = Inr r \<and>
     (case r of
        None \<Rightarrow> \<exists>g \<in> set gs. blocks_at m (cache_key h g) = {}
      | Some bs \<Rightarrow> list_all2 (\<lambda>b g. b \<in> blocks_at m (cache_key h g)) bs gs)"
  using assms(2)
proof (induction gs)
  case (Cons g gs)
  obtain r where r: "get_one_block m (cache_key h g) = Inr r"
    "case r of None \<Rightarrow> blocks_at m (cache_key h g) = {} | Some b \<Rightarrow> b \<in> blocks_at m (cache_key h g)"
    using bm.get_law[OF assms(1)] by blast
  moreover obtain rs where rs: "get_cached_blocks m h gs = Inr rs"
     "case rs of None \<Rightarrow> \<exists>g \<in> set gs. blocks_at m (cache_key h g) = {}
      | Some bs \<Rightarrow> list_all2 (\<lambda>b g. b \<in> blocks_at m (cache_key h g)) bs gs"
    using Cons by auto
  ultimately show ?case
    using Cons.prems by (cases r; cases rs) (auto simp: make_key_ok)
qed simp

lemma get_cached_block_state:
  assumes "pool_rep p fl" and "\<forall>g \<in> set gs. group_ok g"
  shows "\<exists>r. get_cached_block p h gs = Inr r \<and>
     (case r of
        None \<Rightarrow> \<exists>g \<in> set gs. cached_under p (cache_key h g) = {}
      | Some bs \<Rightarrow> list_all2 (\<lambda>b g. b \<in> cached_under p (cache_key h g)) bs gs)"
proof -
  have "cache_ok p" using assms(1) by (simp add: pool_rep_def pool_state_def)
  then have wf: "map_wf (cached_block_hash_to_block p)"
    and eq: "blocks_at (cached_block_hash_to_block p) = cached_under p"
    by (auto simp: cache_ok_def cached_under_def fun_eq_iff)
  show ?thesis
    using get_cached_blocks_spec[OF wf assms(2), of h] unfolding eq get_cached_block_def .
qed

lemma get_cached_block_bad_group:
  assumes "\<not> group_ok g"
  shows "get_cached_block p h (g # gs) = Inl OverflowError"
  using assms make_key_error[of h g OverflowError]
  by (simp add: get_cached_block_def group_ok_def)

subsection \<open>Caching full blocks\<close>

lemma insert_hash_state:
  assumes st: "pool_state p fl pend" and b: "b \<in> usable p" "block_hash (blk p b) = None"
    and p1: "p1 = modify_block b (\<lambda>_. (blk p b)\<lparr>block_hash := Some k\<rparr>) p"
    and p2: "p2 = p1\<lparr>cached_block_hash_to_block :=
        map_insert (\<lambda>c. block_id (blk p1 c)) k b (cached_block_hash_to_block p1)\<rparr>"
  shows "pool_state p2 fl pend" and "same_config p2 p"
    and "blk p2 = (blk p)(b := (blk p b)\<lparr>block_hash := Some k\<rparr>)"
proof -
  note D = pool_stateD[OF st]
  let ?c = "cached_block_hash_to_block p"
  show blk: "blk p2 = (blk p)(b := (blk p b)\<lparr>block_hash := Some k\<rparr>)"
    by (simp add: p2 p1 fun_eq_iff)
  show sc: "same_config p2 p" by (simp add: p2 p1 same_config_def)
  have at: "blocks_at ?c k' = {c \<in> usable p. block_hash (blk p c) = Some k'}" and wf: "map_wf ?c" for k'
    using D(9) by (auto simp: cache_ok_def)
  have "map_insert (\<lambda>c. block_id (blk p1 c)) k b ?c = map_insert addr_id k b ?c"
    using ids_ok_usable[OF D(7)] b by (intro map_insert_cong) (auto simp: p1 at)
  then have c2: "cached_block_hash_to_block p2 = map_insert addr_id k b ?c" by (simp add: p2 p1)
  note ins = bm.ins_law[OF wf usable_range[OF b(1)], of k]
  have u: "usable p2 = usable p" using sc by (simp add: usable_def same_config_def)
  have "cache_ok p2"
    using ins D(9) b usable_not_null[OF b(1)] by (auto simp: cache_ok_def c2 u blk at)
  moreover have "queue_rep (free_block_queue p2) fl"
    using D(3) by (simp add: p2 p1)
  ultimately show "pool_state p2 fl pend"
    using sc by (intro pool_state_same_refs[OF st]) (auto simp: blk)
qed

text \<open>The blocks that the loop caches: not placeholders and not masked out.\<close>

definition to_cache :: "bool list option \<Rightarrow> nat \<Rightarrow> addr list \<Rightarrow> nat set" where
  "to_cache bmask i bs = {j. j < length bs \<and> bs ! j \<noteq> Blk 0 \<and> \<not> masked_out bmask (i + j)}"

definition cacheable :: "bool list option \<Rightarrow> nat \<Rightarrow> addr list \<Rightarrow> block_pool \<Rightarrow> bool" where
  "cacheable bmask i bs p \<longleftrightarrow>
     set bs \<subseteq> insert (Blk 0) (usable p) \<and> distinct (filter (\<lambda>b. b \<noteq> Blk 0) bs) \<and>
     (\<forall>j \<in> to_cache bmask i bs. block_hash (blk p (bs ! j)) = None)"

lemma to_cache_Cons:
  "b = Blk 0 \<or> masked_out bmask i \<Longrightarrow> to_cache bmask i (b # bs) = Suc ` to_cache bmask (Suc i) bs"
  "b \<noteq> Blk 0 \<Longrightarrow> \<not> masked_out bmask i \<Longrightarrow>
     to_cache bmask i (b # bs) = insert 0 (Suc ` to_cache bmask (Suc i) bs)"
proof -
  have "j \<in> to_cache bmask i (b # bs) \<longleftrightarrow>
      (j = 0 \<and> b \<noteq> Blk 0 \<and> \<not> masked_out bmask i) \<or> j \<in> Suc ` to_cache bmask (Suc i) bs" for j
    by (cases j) (simp_all add: to_cache_def image_iff)
  then show "b = Blk 0 \<or> masked_out bmask i \<Longrightarrow> to_cache bmask i (b # bs) = Suc ` to_cache bmask (Suc i) bs"
    "b \<noteq> Blk 0 \<Longrightarrow> \<not> masked_out bmask i \<Longrightarrow>
     to_cache bmask i (b # bs) = insert 0 (Suc ` to_cache bmask (Suc i) bs)" by blast+
qed

lemma cache_blocks_loop_state:
  assumes "pool_state p fl pend" and "cacheable bmask i bs p" and "group_ok g"
    and "i + length bs \<le> length hs"
  shows "\<exists>ext p'. cache_blocks_loop env bmask hs g i bs p = Inr (ext, p') \<and>
     pool_state p' fl pend \<and> same_config p' p \<and>
     (\<forall>j \<in> to_cache bmask i bs.
        blk p' (bs ! j) = (blk p (bs ! j))\<lparr>block_hash := Some (cache_key (hs ! (i + j)) g)\<rparr>) \<and>
     (\<forall>c. c \<notin> (!) bs ` to_cache bmask i bs \<longrightarrow> blk p' c = blk p c)"
  using assms
proof (induction bs arbitrary: i p)
  case Nil
  then show ?case by (simp add: to_cache_def)
next
  case (Cons b bs)
  note D = pool_stateD[OF Cons.prems(1)]
  have bu: "b = Blk 0 \<or> b \<in> usable p" using Cons.prems(2) by (auto simp: cacheable_def)
  have null: "is_null (blk p b) \<longleftrightarrow> b = Blk 0"
    using bu ids_ok_usable[OF D(7)] ids_ok_null[OF D(7,1)] usable_not_null by blast
  show ?case
  proof (cases "b = Blk 0 \<or> masked_out bmask i")
    case True
    then have tc: "to_cache bmask i (b # bs) = Suc ` to_cache bmask (Suc i) bs" by (rule to_cache_Cons(1))
    have "cacheable bmask (Suc i) bs p"
      using Cons.prems(2) by (auto simp: cacheable_def tc split: if_splits)
    from Cons.IH[OF Cons.prems(1) this Cons.prems(3)] Cons.prems(4) True null show ?thesis
      by (auto simp: tc image_image)
  next
    case False
    then have b: "b \<in> usable p" "b \<noteq> Blk 0" and tc: "to_cache bmask i (b # bs) = insert 0 (Suc ` to_cache bmask (Suc i) bs)"
      using bu to_cache_Cons(2)[of b bmask i bs] by auto
    have bh: "block_hash (blk p b) = None" using Cons.prems(2) by (auto simp: cacheable_def tc)
    define k where "k = cache_key (hs ! i) g"
    define p1 where "p1 = modify_block b (\<lambda>_. (blk p b)\<lparr>block_hash := Some k\<rparr>) p"
    define p2 where "p2 = p1\<lparr>cached_block_hash_to_block :=
        map_insert (\<lambda>c. block_id (blk p1 c)) k b (cached_block_hash_to_block p1)\<rparr>"
    note I = insert_hash_state[OF Cons.prems(1) b(1) bh p1_def p2_def]
    have bnin: "b \<notin> set bs" using Cons.prems(2) b(2) by (auto simp: cacheable_def)
    have "usable p2 = usable p" using I(2) by (simp add: usable_def same_config_def)
    then have "cacheable bmask (Suc i) bs p2"
      using Cons.prems(2) b(2) bnin nth_mem[of _ bs]
      by (auto simp: cacheable_def tc I(3) to_cache_def)
    from Cons.IH[OF I(1) this Cons.prems(3)] Cons.prems(4) obtain ext p' where p':
      "cache_blocks_loop env bmask hs g (Suc i) bs p2 = Inr (ext, p')" "pool_state p' fl pend"
      "same_config p' p2"
      "\<forall>j \<in> to_cache bmask (Suc i) bs.
        blk p' (bs ! j) = (blk p2 (bs ! j))\<lparr>block_hash := Some (cache_key (hs ! (Suc i + j)) g)\<rparr>"
      "\<forall>c. c \<notin> (!) bs ` to_cache bmask (Suc i) bs \<longrightarrow> blk p' c = blk p2 c"
      by auto
    have ne: "bs ! j \<noteq> b" if "j \<in> to_cache bmask (Suc i) bs" for j
      using that bnin nth_mem[of j bs] by (auto simp: to_cache_def)
    have "cache_blocks_loop env bmask hs g i (b # bs) p =
        Inr (maybe_convert_block_hash (use_int_block_hashes env) (hs ! i) # ext, p')"
      using False null bh Cons.prems(3,4) p'(1)
      by (simp add: make_key_ok set_block_hash_def k_def[symmetric] p1_def[symmetric]
          p2_def[symmetric] Let_def del: modify_block_simps)
    moreover have "same_config p' p" using same_config_trans[OF p'(3) I(2)] .
    moreover have "b \<notin> (!) bs ` to_cache bmask (Suc i) bs" using ne by auto
    then have "blk p' b = (blk p b)\<lparr>block_hash := Some k\<rparr>" using p'(5) I(3) by simp
    moreover have "blk p' c = blk p c" if "c \<notin> (!) (b # bs) ` to_cache bmask i (b # bs)" for c
    proof -
      have "c \<noteq> b" "c \<notin> (!) bs ` to_cache bmask (Suc i) bs" using that by (auto simp: tc image_image)
      with p'(5) I(3) show ?thesis by simp
    qed
    ultimately show ?thesis
      using p'(2,4) ne by (intro exI conjI) (auto simp: tc I(3) k_def)
  qed
qed

lemma mm_idx_ok_mono: "mm_idx_ok fs s idx \<Longrightarrow> s \<le> s' \<Longrightarrow> mm_idx_ok fs s' idx"
  by (fastforce simp: mm_idx_ok_def Let_def)

lemma event_extra_keys_ok:
  assumes "0 < bs" and "\<forall>i \<in> set is. 0 \<le> i \<and> i < int (length blocks)" and "sorted_wrt (<) is"
    and "mm_sorted (mm_features r)" and "embeds_cache_ok env r"
    and "\<forall>i \<in> set is. mm_idx_ok (mm_features r) (i * bs) idx"
  shows "\<exists>ks d. event_extra_keys env bmask bs nc p blocks is idx r =
     Inr (ks, r\<lparr>prompt_embeds_per_block_hashes := d\<rparr>)"
  using assms(2-)
proof (induction "is" arbitrary: idx r)
  case Nil
  show ?case by (intro exI[of _ "[]"] exI[of _ "prompt_embeds_per_block_hashes r"]) simp
next
  case (Cons i "is")
  have ix: "py_index blocks i = Inr (blocks ! nat i)" using Cons.prems(1) by (simp add: py_index_def)
  show ?case
  proof (cases "is_null (blk p (blocks ! nat i)) \<or> masked_out bmask (nat (i - nc))")
    case True
    then have "event_extra_keys env bmask bs nc p blocks (i # is) idx r =
        event_extra_keys env bmask bs nc p blocks is idx r" using ix by simp
    with Cons.IH[of r idx] Cons.prems show ?thesis by simp
  next
    case False
    have "i * bs \<le> i * bs + bs" using assms(1) by simp
    from generate_extra_keys_ref[OF Cons.prems(3) this _ Cons.prems(4), of idx] Cons.prems(5)
    obtain idx' d where g: "generate_block_hash_extra_keys env r (i * bs) (i * bs + bs) idx =
        Inr (ref_extra_keys env r (i * bs) (i * bs + bs), idx', r\<lparr>prompt_embeds_per_block_hashes := d\<rparr>)"
      "mm_idx_ok (mm_features r) (i * bs + bs) idx'" "embeds_cache_ok env (r\<lparr>prompt_embeds_per_block_hashes := d\<rparr>)"
      by auto
    have "mm_idx_ok (mm_features r) (j * bs) idx'" if "j \<in> set is" for j
    proof (rule mm_idx_ok_mono[OF g(2)])
      have "(i + 1) * bs \<le> j * bs" using that Cons.prems(2) assms(1) by (intro mult_right_mono) auto
      then show "i * bs + bs \<le> j * bs" by (simp add: distrib_right)
    qed
    then have "\<exists>ks d'. event_extra_keys env bmask bs nc p blocks is idx' (r\<lparr>prompt_embeds_per_block_hashes := d\<rparr>)
        = Inr (ks, r\<lparr>prompt_embeds_per_block_hashes := d\<rparr>\<lparr>prompt_embeds_per_block_hashes := d'\<rparr>)"
      using Cons.prems g(3) by (intro Cons.IH) simp_all
    then obtain ks d' where "event_extra_keys env bmask bs nc p blocks is idx'
        (r\<lparr>prompt_embeds_per_block_hashes := d\<rparr>) = Inr (ks, r\<lparr>prompt_embeds_per_block_hashes := d'\<rparr>)" by auto
    then have "event_extra_keys env bmask bs nc p blocks (i # is) idx r =
        Inr (ref_extra_keys env r (i * bs) (i * bs + bs) # ks, r\<lparr>prompt_embeds_per_block_hashes := d'\<rparr>)"
      using ix False g(1) by (simp add: Let_def)
    then show ?thesis by blast
  qed
qed

text \<open>What a caller of \<open>cache_full_blocks\<close> has to provide.\<close>

definition cache_request_ok ::
  "hash_env \<Rightarrow> addr list \<Rightarrow> int \<Rightarrow> int \<Rightarrow> int \<Rightarrow> int \<Rightarrow> bool list option \<Rightarrow> request \<Rightarrow> block_pool \<Rightarrow> bytes list \<Rightarrow> bool" where
  "cache_request_ok env blocks nc nf bs g bmask r p hs \<longleftrightarrow>
     0 \<le> nc \<and> nc < nf \<and> 0 < bs \<and> group_ok g \<and> nf \<le> int (length blocks) \<and>
     nf \<le> int (length (block_hashes r)) \<and>
     (case bmask of None \<Rightarrow> True | Some m \<Rightarrow> length m = nat (nf - nc)) \<and>
     (\<exists>hl. resolve_block_hashes p (block_hashes r) bs = Inr hl \<and> hs = hash_list_from hl nc \<and>
           (\<exists>h. nc = 0 \<or> hash_list_at hl (nc - 1) = Inr h)) \<and>
     nat (nf - nc) \<le> length hs \<and>
     cacheable bmask 0 (py_slice blocks nc nf) p \<and>
     mm_sorted (mm_features r) \<and> embeds_cache_ok env r"

lemma cache_full_blocks_state:
  assumes rep: "pool_rep p fl" and ok: "cache_request_ok env blocks nc nf bs g bmask r p hs"
  shows "\<exists>d p'. cache_full_blocks env blocks nc nf bs g bmask r p =
       Inr (r\<lparr>prompt_embeds_per_block_hashes := d\<rparr>, p') \<and> pool_rep p' fl \<and> same_config p' p \<and>
     (\<forall>j \<in> to_cache bmask 0 (py_slice blocks nc nf).
        blk p' (py_slice blocks nc nf ! j) =
          (blk p (py_slice blocks nc nf ! j))\<lparr>block_hash := Some (cache_key (hs ! j) g)\<rparr>) \<and>
     (\<forall>c. c \<notin> (!) (py_slice blocks nc nf) ` to_cache bmask 0 (py_slice blocks nc nf) \<longrightarrow> blk p' c = blk p c)"
proof -
  let ?new = "py_slice blocks nc nf"
  have n: "0 \<le> nc" "nc < nf" "0 < bs" "nf \<le> int (length blocks)" "group_ok g" "nat (nf - nc) \<le> length hs"
      "cacheable bmask 0 ?new p"
    using ok by (auto simp: cache_request_ok_def)
  have len: "length ?new = nat (nf - nc)" using n by (simp add: py_slice_nonneg nat_diff_distrib')
  have st: "pool_state p fl []" using rep by (simp add: pool_rep_def)
  have "0 + length ?new \<le> length hs" using len n(6) by simp
  from cache_blocks_loop_state[OF st n(7,5) this, of env] obtain ext p1 where p1:
    "cache_blocks_loop env bmask hs g 0 ?new p = Inr (ext, p1)" "pool_state p1 fl []" "same_config p1 p"
    "\<forall>j \<in> to_cache bmask 0 ?new. blk p1 (?new ! j) = (blk p (?new ! j))\<lparr>block_hash := Some (cache_key (hs ! j) g)\<rparr>"
    "\<forall>c. c \<notin> (!) ?new ` to_cache bmask 0 ?new \<longrightarrow> blk p1 c = blk p c"
    by auto
  obtain hl h where hl: "resolve_block_hashes p (block_hashes r) bs = Inr hl" "hs = hash_list_from hl nc"
    "nc = 0 \<or> hash_list_at hl (nc - 1) = Inr h" using ok by (auto simp: cache_request_ok_def)
  have idx: "\<forall>i \<in> set [nc..nf - 1]. mm_idx_ok (mm_features r) (i * bs) 0" by (simp add: mm_idx_ok_def)
  have ub: "\<forall>i \<in> set [nc..nf - 1]. 0 \<le> i \<and> i < int (length blocks)" using n(1,4) by auto
  have srt: "sorted_wrt (<) [nc..nf - 1]" by simp
  have "mm_sorted (mm_features r)" "embeds_cache_ok env r" using ok by (auto simp: cache_request_ok_def)
  from event_extra_keys_ok[OF n(3) ub srt this idx, of bmask nc p1] obtain ks d where
    ks: "event_extra_keys env bmask bs nc p1 blocks [nc..nf - 1] 0 r =
      Inr (ks, r\<lparr>prompt_embeds_per_block_hashes := d\<rparr>)" by auto
  have pre: "nf \<le> int (length (block_hashes r))"
    "case bmask of None \<Rightarrow> True | Some m \<Rightarrow> length m = length ?new"
    using ok len by (auto simp: cache_request_ok_def split: option.splits)
  have cfb: "cache_full_blocks env blocks nc nf bs g bmask r p =
      (if enable_kv_cache_events p1 then emit_block_stored env blocks nc nf bs g bmask hl ext r p1
       else Inr (r, p1))"
    using n(2) pre hl(1) p1(1) unfolding cache_full_blocks_def hl(2) Let_def by simp
  have em: "\<exists>e. emit_block_stored env blocks nc nf bs g bmask hl ext r p1 =
      Inr (r\<lparr>prompt_embeds_per_block_hashes := d\<rparr>, push_event e p1)"
    using hl(3) ks unfolding emit_block_stored_def by (cases "nc = 0") auto
  have "\<exists>d e. cache_full_blocks env blocks nc nf bs g bmask r p =
      Inr (r\<lparr>prompt_embeds_per_block_hashes := d\<rparr>, if enable_kv_cache_events p1 then push_event e p1 else p1)"
  proof (cases "enable_kv_cache_events p1")
    case True
    with cfb em show ?thesis by auto
  next
    case False
    with cfb show ?thesis by (intro exI[of _ "prompt_embeds_per_block_hashes r"]) simp
  qed
  then obtain d e where "cache_full_blocks env blocks nc nf bs g bmask r p =
      Inr (r\<lparr>prompt_embeds_per_block_hashes := d\<rparr>, if enable_kv_cache_events p1 then push_event e p1 else p1)"
    by blast
  moreover have "pool_state (if enable_kv_cache_events p1 then push_event e p1 else p1) fl []"
    "blk (if enable_kv_cache_events p1 then push_event e p1 else p1) = blk p1"
    "same_config (if enable_kv_cache_events p1 then push_event e p1 else p1) p"
    using p1(2,3) by (simp_all add: same_config_def)
  ultimately show ?thesis
    using p1(4,5)
    by (intro exI[of _ d] exI[of _ "if enable_kv_cache_events p1 then push_event e p1 else p1"])
      (simp add: pool_rep_def)
qed

subsection \<open>Reachable pools\<close>

text \<open>
  The pool as a state machine: the constructor, then any sequence of calls whose arguments meet
  what the callers guarantee (blocks of the pool, no more frees than references, hashes for the
  blocks to cache).
\<close>

inductive pool_step :: "hash_env \<Rightarrow> block_pool \<Rightarrow> block_pool \<Rightarrow> bool" for env where
  alloc: "0 \<le> n \<Longrightarrow> get_new_blocks env n p = Inr (bs, p') \<Longrightarrow> pool_step env p p'"
| touched: "\<forall>b \<in> set bs. b = Blk 0 \<or> b \<in> usable p \<Longrightarrow> touch bs p = Inr p' \<Longrightarrow> pool_step env p p'"
| freed: "freeable bs p \<Longrightarrow> free_blocks bs prepend p = Inr p' \<Longrightarrow> pool_step env p p'"
| evicted: "\<forall>i \<in> set ids. 0 \<le> i \<Longrightarrow> evict_blocks env ids p = Inr p' \<Longrightarrow> pool_step env p p'"
| reset: "reset_prefix_cache p = (ok, p') \<Longrightarrow> pool_step env p p'"
| cached: "cache_request_ok env blocks nc nf bs g bmask r p hs \<Longrightarrow>
    cache_full_blocks env blocks nc nf bs g bmask r p = Inr (r', p') \<Longrightarrow> pool_step env p p'"
| events: "pool_take_events p = (evs, p') \<Longrightarrow> pool_step env p p'"

inductive pool_reachable :: "hash_env \<Rightarrow> int \<Rightarrow> block_pool \<Rightarrow> bool" for env n where
  init: "block_pool_init n caching hbs ev mc = Inr p \<Longrightarrow> pool_reachable env n p"
| step: "pool_reachable env n p \<Longrightarrow> pool_step env p p' \<Longrightarrow> pool_reachable env n p'"

lemma evict_blocks_range:
  "evict_blocks env ids p = Inr p' \<Longrightarrow> pool_rep p fl \<Longrightarrow> \<forall>i \<in> set ids. 0 \<le> i \<Longrightarrow>
     \<forall>i \<in> set ids. i < num_gpu_blocks p"
proof (induction ids arbitrary: p)
  case (Cons i ids)
  have i: "i < num_gpu_blocks p"
    using Cons.prems(1) evict_blocks_invalid[of p i env ids] by (cases "i < num_gpu_blocks p") auto
  let ?p = "snd (maybe_evict_cached_block env (Blk (nat i)) p)"
  have "Blk (nat i) = Blk 0 \<or> Blk (nat i) \<in> usable p"
    using i Cons.prems(3) by (auto simp: usable_def)
  note e = evict_any_state[OF Cons.prems(2) this, of env]
  have "evict_blocks env ids ?p = Inr p'"
    using Cons.prems(1,3) i by (simp add: evict_blocks_def block_at_nonneg)
  from Cons.IH[OF this e(1)] Cons.prems(3) e(2) i show ?case by (simp add: same_config_def)
qed simp

lemma pool_step_rep:
  assumes "pool_step env p p'" and "pool_rep p fl"
  shows "(\<exists>fl'. pool_rep p' fl') \<and> num_gpu_blocks p' = num_gpu_blocks p"
  using assms(1)
proof cases
  case (alloc n bs)
  then have "n \<le> int (length fl)"
    using get_new_blocks_error[OF _ assms(2), of n env] by (cases "n \<le> int (length fl)") auto
  with get_new_blocks_state[OF assms(2) alloc(1), of env] alloc(2) show ?thesis by (auto simp: same_config_def)
next
  case (touched bs)
  with touch_state[OF assms(2), of bs] show ?thesis by (auto simp: same_config_def)
next
  case (freed bs prepend)
  with free_blocks_state[OF assms(2), of bs prepend] show ?thesis by (auto simp: same_config_def)
next
  case (evicted ids)
  with evict_blocks_range[OF evicted(2) assms(2)] evict_blocks_state[OF assms(2), of ids env]
  show ?thesis by (auto simp: same_config_def)
next
  case (reset ok)
  with reset_prefix_cache_state(2,3)[OF assms(2) reset] show ?thesis by (auto simp: same_config_def)
next
  case (cached blocks nc nf bs g bmask r hs r')
  with cache_full_blocks_state[OF assms(2) cached(1)] show ?thesis by (auto simp: same_config_def)
next
  case (events evs)
  then have "p' = p \<or> p' = p\<lparr>kv_event_queue := []\<rparr>"
    by (auto simp: pool_take_events_def split: if_splits)
  with assms(2) show ?thesis
    by (auto simp: pool_rep_def pool_state_def ids_ok_def cache_ok_def usable_def)
qed

lemma pool_reachable_rep:
  "pool_reachable env n p \<Longrightarrow> (\<exists>fl. pool_rep p fl) \<and> num_gpu_blocks p = n"
proof (induction rule: pool_reachable.induct)
  case (init caching hbs ev mc p)
  then have "0 < n" by (auto simp: block_pool_init_def bindE_Inr_iff)
  from block_pool_init_state[OF this, of caching hbs ev mc] init show ?case by auto
next
  case (step p p')
  then show ?case using pool_step_rep[OF step(2)] by auto
qed

subsection \<open>Properties\<close>

text \<open>A pool of four blocks, as the constructor makes it.\<close>

definition ex_pool :: block_pool where
  "ex_pool = projr (block_pool_init 4 True 2 False None)"

lemma ex_pool_state:
  "block_pool_init 4 True 2 False None = Inr ex_pool" "pool_rep ex_pool [Blk 1, Blk 2, Blk 3]"
  "num_gpu_blocks ex_pool = 4" "enable_caching ex_pool" "hash_block_size ex_pool = 2"
  "ref_cnt (blk ex_pool (Blk i)) = 0" "block_hash (blk ex_pool (Blk i)) = None"
  "usable ex_pool = {Blk 1, Blk 2, Blk 3}"
proof -
  obtain p where p: "block_pool_init 4 True 2 False None = Inr p" "pool_rep p (map Blk [1..<nat 4])"
    "num_gpu_blocks p = 4" "enable_caching p" "hash_block_size p = 2"
    "\<forall>i. ref_cnt (blk p (Blk i)) = 0 \<and> block_hash (blk p (Blk i)) = None"
    using block_pool_init_state[of 4 True 2 False None] by auto
  have l: "[1..<nat 4] = [1, 2, 3]" by (simp add: upt_rec)
  have e: "ex_pool = p" using p(1) by (simp add: ex_pool_def)
  show "block_pool_init 4 True 2 False None = Inr ex_pool" "pool_rep ex_pool [Blk 1, Blk 2, Blk 3]"
    "num_gpu_blocks ex_pool = 4" "enable_caching ex_pool" "hash_block_size ex_pool = 2"
    "ref_cnt (blk ex_pool (Blk i)) = 0" "block_hash (blk ex_pool (Blk i)) = None"
    using p(1,3-) p(2)[unfolded l] by (simp_all add: e)
  have "{1..<nat 4} = {1, 2, 3}" by auto
  then show "usable ex_pool = {Blk 1, Blk 2, Blk 3}" using p(3) by (simp add: usable_def e)
qed

text \<open>C1. In every pool that can arise from the constructor by allocating, touching, freeing, evicting,
  caching, resetting and draining events, the free queue holds exactly the blocks without
  references, each once and never the placeholder; their number is what \<open>get_num_free_blocks\<close>
  returns; a block is found in the hash map under a key exactly if that key is its hash; and the
  reported usage lies between 0 and 1.\<close>

theorem pool_invariant:
  assumes "pool_reachable env n p"
  shows "\<exists>fl. get_all_free_blocks (free_block_queue p) = Inr (Some fl) \<and> distinct fl \<and>
     set fl = {b \<in> usable p. ref_cnt (blk p b) = 0} \<and> get_num_free_blocks p = int (length fl) \<and>
     (\<forall>b \<in> usable p. 0 \<le> ref_cnt (blk p b)) \<and>
     (\<forall>k b. b \<in> blocks_at (cached_block_hash_to_block p) k \<longleftrightarrow>
              b \<in> usable p \<and> block_hash (blk p b) = Some k) \<and>
     0 \<le> get_usage p \<and> get_usage p \<le> 1"
proof -
  obtain fl where fl: "pool_rep p fl" using pool_reachable_rep[OF assms] by blast
  then have st: "pool_state p fl []" by (simp add: pool_rep_def)
  note D = pool_stateD[OF st]
  have "0 \<le> get_usage p \<and> get_usage p \<le> 1"
  proof (cases "num_gpu_blocks p = 1")
    case False
    then have "0 < num_gpu_blocks p - 1" using D(1) by simp
    moreover have "0 \<le> get_num_free_blocks p" using free_list_card(1)[OF fl] by simp
    ultimately show ?thesis
      using free_list_card(2)[OF fl] False by (simp add: get_usage_def divide_le_eq)
  qed (simp add: get_usage_def)
  moreover have "set fl = {b \<in> usable p. ref_cnt (blk p b) = 0}" using D(6) by simp
  moreover have "b \<in> blocks_at (cached_block_hash_to_block p) k \<longleftrightarrow>
              b \<in> usable p \<and> block_hash (blk p b) = Some k" for k b
    using D(9) by (auto simp: cache_ok_def)
  ultimately show ?thesis
    using get_all_free_blocks_rep[OF D(3)] lq.rep_elems[OF D(3)] lq.rep_size[OF D(3)] D(8)
    by (simp add: get_num_free_blocks_def)
qed

theorem pool_invariant_witness:
  "\<exists>fl. get_all_free_blocks (free_block_queue ex_pool) = Inr (Some fl) \<and> get_num_free_blocks ex_pool = int (length fl)"
  using pool_invariant[OF pool_reachable.init[OF ex_pool_state(1)]] by blast

text \<open>C3. Allocating \<open>n\<close> blocks returns the first \<open>n\<close> blocks of the eviction order. They were not
  referenced, are pairwise different and are not the placeholder; afterwards each has one
  reference and, with caching enabled, is no longer in the prefix cache; no other block changes
  and the rest of the queue keeps its order. If fewer blocks are free, \<open>ValueError\<close> is raised.\<close>

theorem get_new_blocks_correct:
  assumes "pool_rep p fl" and "0 \<le> n"
  shows "case get_new_blocks env n p of
     Inr (bs, p') \<Rightarrow>
       n \<le> get_num_free_blocks p \<and> bs = take (nat n) fl \<and> distinct bs \<and> set bs \<subseteq> usable p \<and>
       pool_rep p' (drop (nat n) fl) \<and> get_num_free_blocks p' = get_num_free_blocks p - n \<and>
       (\<forall>b. payload (blk p' b) =
              payload (if b \<in> set bs then allocated (enable_caching p) (blk p b) else blk p b))
   | Inl e \<Rightarrow> get_num_free_blocks p < n \<and> e = ValueError"
proof (cases "n \<le> int (length fl)")
  case True
  have st: "pool_state p fl []" using assms by (simp add: pool_rep_def)
  from get_new_blocks_state[OF assms True, of env] obtain p' where p':
    "get_new_blocks env n p = Inr (take (nat n) fl, p')" "pool_rep p' (drop (nat n) fl)"
    "\<forall>c. payload (blk p' c) = payload (if c \<in> set (take (nat n) fl)
                                     then allocated (enable_caching p) (blk p c) else blk p c)" by blast
  have "get_num_free_blocks q = int (length l)" if "pool_rep q l" for q l
    using that lq.rep_size by (simp add: pool_rep_def pool_state_def get_num_free_blocks_def)
  moreover have "distinct (take (nat n) fl)" "set (take (nat n) fl) \<subseteq> usable p"
    using pool_state_fl_usable[OF st] lq.rep_elems[OF pool_stateD(3)[OF st]]
    by (auto dest: in_set_takeD)
  ultimately show ?thesis using p' assms True by simp
next
  case False
  have "get_num_free_blocks p = int (length fl)"
    using assms(1) lq.rep_size by (simp add: pool_rep_def pool_state_def get_num_free_blocks_def)
  with False get_new_blocks_error[OF _ assms(1), of n env] show ?thesis by simp
qed

theorem get_new_blocks_correct_witness:
  "\<exists>p'. get_new_blocks ex_env 2 ex_pool = Inr ([Blk 1, Blk 2], p') \<and> pool_rep p' [Blk 3] \<and>
     ref_cnt (blk p' (Blk 1)) = 1"
proof -
  have l: "take (nat 2) [Blk 1, Blk 2, Blk 3] = [Blk 1, Blk 2]" "drop (nat 2) [Blk 1, Blk 2, Blk 3] = [Blk 3]"
    by (simp_all add: numeral_2_eq_2)
  have "get_num_free_blocks ex_pool = 3"
    using ex_pool_state(2) lq.rep_size by (fastforce simp: pool_rep_def pool_state_def get_num_free_blocks_def)
  with get_new_blocks_correct[OF ex_pool_state(2), of 2 ex_env] show ?thesis
    unfolding l by (auto split: sum.splits simp: payload_def allocated_def split: if_splits)
qed

text \<open>C4. Freeing blocks drops one reference of each. Exactly the blocks that lose their last reference
  join the queue, in the given order, at its end (to be evicted last) or, if asked, at its front;
  placeholders are never queued. Hashes are kept, so the freed blocks can still be found.\<close>

theorem free_blocks_correct:
  assumes "pool_rep p fl" and "freeable bs p"
  shows "\<exists>p'. free_blocks bs prepend p = Inr p' \<and>
     pool_rep p' (if prepend then newly_free bs p @ fl else fl @ newly_free bs p) \<and>
     cached_under p' = cached_under p \<and>
     (\<forall>b. ref_cnt (blk p' b) = ref_cnt (blk p b) - int (count_list bs b))"
proof -
  from free_blocks_state[OF assms, of prepend] obtain p' where p': "free_blocks bs prepend p = Inr p'"
    "same_config p' p" "pool_rep p' (if prepend then newly_free bs p @ fl else fl @ newly_free bs p)"
    "\<forall>c. payload (blk p' c) = payload ((blk p c)\<lparr>ref_cnt := ref_cnt (blk p c) - int (count_list bs c)\<rparr>)"
    by blast
  have f: "ref_cnt (blk p' c) = ref_cnt (blk p c) - int (count_list bs c)"
    "block_hash (blk p' c) = block_hash (blk p c)" for c
    using p'(4)[rule_format, of c] by (simp_all add: payload_def)
  have "cached_under p' = cached_under p"
    using p'(2) by (simp add: cached_under_def f usable_def same_config_def fun_eq_iff)
  with p' f show ?thesis by blast
qed

text \<open>A cached prefix hit: one allocated and cached block.\<close>

definition ex_busy_pool :: block_pool where
  "ex_busy_pool = snd (projr (get_new_blocks ex_env 2 ex_pool))"

lemma ex_busy_pool_state:
  "get_new_blocks ex_env 2 ex_pool = Inr ([Blk 1, Blk 2], ex_busy_pool)"
  "pool_rep ex_busy_pool [Blk 3]" "ref_cnt (blk ex_busy_pool (Blk 1)) = 1"
  "ref_cnt (blk ex_busy_pool (Blk 2)) = 1" "block_hash (blk ex_busy_pool (Blk i)) = None"
  "usable ex_busy_pool = {Blk 1, Blk 2, Blk 3}" "hash_block_size ex_busy_pool = 2"
proof -
  have l: "take (nat 2) [Blk 1, Blk 2, Blk 3] = [Blk 1, Blk 2]" "drop (nat 2) [Blk 1, Blk 2, Blk 3] = [Blk 3]"
    by (simp_all add: numeral_2_eq_2)
  from get_new_blocks_state[OF ex_pool_state(2), of 2 ex_env] obtain p' where p':
    "get_new_blocks ex_env 2 ex_pool = Inr ([Blk 1, Blk 2], p')" "pool_rep p' [Blk 3]" "same_config p' ex_pool"
    "\<forall>c. payload (blk p' c) = payload (if c \<in> set [Blk 1, Blk 2]
       then allocated (enable_caching ex_pool) (blk ex_pool c) else blk ex_pool c)"
    unfolding l by auto
  have e: "ex_busy_pool = p'" by (simp add: ex_busy_pool_def p'(1))
  show "get_new_blocks ex_env 2 ex_pool = Inr ([Blk 1, Blk 2], ex_busy_pool)"
    "pool_rep ex_busy_pool [Blk 3]" using p'(1,2) by (simp_all add: e)
  show "ref_cnt (blk ex_busy_pool (Blk 1)) = 1" "ref_cnt (blk ex_busy_pool (Blk 2)) = 1"
    "block_hash (blk ex_busy_pool (Blk i)) = None"
    using p'(4)[rule_format, of "Blk 1"] p'(4)[rule_format, of "Blk 2"] p'(4)[rule_format, of "Blk i"]
    by (auto simp: e payload_def allocated_def ex_pool_state split: if_splits)
  show "usable ex_busy_pool = {Blk 1, Blk 2, Blk 3}" "hash_block_size ex_busy_pool = 2"
    using p'(3) ex_pool_state by (simp_all add: e same_config_def usable_def)
qed

theorem free_blocks_correct_witness:
  "\<exists>p'. free_blocks [Blk 2, Blk 1] False ex_busy_pool = Inr p' \<and> pool_rep p' [Blk 3, Blk 2, Blk 1]"
  using free_blocks_correct[OF ex_busy_pool_state(2), of "[Blk 2, Blk 1]" False]
  by (auto simp: freeable_def newly_free_def ex_busy_pool_state[unfolded One_nat_def])

text \<open>C5. Touching blocks adds a reference for every occurrence and takes the touched blocks out of the
  free queue; giving the same blocks back restores all reference counts and the set of free blocks,
  and changes no hash. Neither call raises.\<close>

theorem touch_free_round_trip:
  assumes "pool_rep p fl" and "distinct bs" and "set bs \<subseteq> usable p"
  shows "\<exists>p1 p2. touch bs p = Inr p1 \<and> pool_rep p1 (filter (\<lambda>b. b \<notin> set bs) fl) \<and>
     free_blocks bs prepend p1 = Inr p2 \<and> (\<exists>fl'. pool_rep p2 fl' \<and> set fl' = set fl) \<and>
     (\<forall>b. ref_cnt (blk p1 b) = ref_cnt (blk p b) + (if b \<in> set bs then 1 else 0)) \<and>
     (\<forall>b. payload (blk p2 b) = payload (blk p b))"
proof -
  have st: "pool_state p fl []" using assms by (simp add: pool_rep_def)
  from touch_state[OF assms(1), of bs] assms(3) obtain p1 where p1: "touch bs p = Inr p1"
    "pool_rep p1 (filter (\<lambda>b. b \<notin> set bs) fl)" "same_config p1 p"
    "\<forall>c. payload (blk p1 c) = payload ((blk p c)\<lparr>ref_cnt := ref_cnt (blk p c) + int (count_list bs c)\<rparr>)"
    by auto
  have r1: "ref_cnt (blk p1 b) = ref_cnt (blk p b) + (if b \<in> set bs then 1 else 0)" for b
    using p1(4)[rule_format, of b] count_list_distinct[OF assms(2), of b] by (simp add: payload_def)
  have u: "usable p1 = usable p" using p1(3) by (simp add: usable_def same_config_def)
  have "freeable bs p1"
    unfolding freeable_def u using assms(2,3) pool_stateD(8)[OF st] by (auto simp: r1)
  from free_blocks_state[OF p1(2) this, of prepend] obtain p2 where p2: "free_blocks bs prepend p1 = Inr p2"
    "same_config p2 p1"
    "\<exists>fl'. pool_rep p2 fl'"
    "\<forall>c. payload (blk p2 c) = payload ((blk p1 c)\<lparr>ref_cnt := ref_cnt (blk p1 c) - int (count_list bs c)\<rparr>)"
    by blast
  have pl: "payload (blk p2 b) = payload (blk p b)" for b
    using p1(4)[rule_format, of b] p2(4)[rule_format, of b] by (simp add: payload_def)
  obtain fl' where fl': "pool_rep p2 fl'" using p2(3) by blast
  have u2: "usable p2 = usable p" using p2(2) u by (simp add: usable_def same_config_def)
  have "set fl' = set fl"
    using pool_stateD(6)[OF st] pool_stateD(6)[of p2 fl' "[]"] fl' pl
    by (simp add: pool_rep_def u2 payload_def)
  with p1(1,2) p2(1) fl' r1 pl show ?thesis by blast
qed

theorem touch_free_round_trip_witness:
  "\<exists>p1 p2. touch [Blk 2] ex_pool = Inr p1 \<and> free_blocks [Blk 2] False p1 = Inr p2 \<and>
     payload (blk p2 (Blk 2)) = payload (blk ex_pool (Blk 2))"
  using touch_free_round_trip[OF ex_pool_state(2), of "[Blk 2]" False] by (auto simp: ex_pool_state)

text \<open>C6. Caching the full blocks of a request makes them visible: afterwards every block that is
  neither a placeholder nor masked out carries the hash of its position in its group, and looking
  that hash up in the group hits and returns a block that carries it. No other block, no reference
  count and no position in the free queue changes.\<close>

theorem cache_full_blocks_correct:
  assumes "pool_rep p fl" and "cache_request_ok env blocks nc nf bs g bmask r p hs"
    and "j \<in> to_cache bmask 0 (py_slice blocks nc nf)"
  shows "\<exists>r' p' b. cache_full_blocks env blocks nc nf bs g bmask r p = Inr (r', p') \<and>
     pool_rep p' fl \<and> py_slice blocks nc nf ! j \<in> cached_under p' (cache_key (hs ! j) g) \<and>
     get_cached_block p' (hs ! j) [g] = Inr (Some [b]) \<and> b \<in> cached_under p' (cache_key (hs ! j) g) \<and>
     (\<forall>c. ref_cnt (blk p' c) = ref_cnt (blk p c)) \<and>
     (\<forall>c. c \<notin> set (py_slice blocks nc nf) \<longrightarrow> blk p' c = blk p c)"
proof -
  let ?new = "py_slice blocks nc nf"
  from cache_full_blocks_state[OF assms(1,2)] obtain d p' where p':
    "cache_full_blocks env blocks nc nf bs g bmask r p = Inr (r\<lparr>prompt_embeds_per_block_hashes := d\<rparr>, p')"
    "pool_rep p' fl" "same_config p' p"
    "\<forall>j \<in> to_cache bmask 0 ?new. blk p' (?new ! j) = (blk p (?new ! j))\<lparr>block_hash := Some (cache_key (hs ! j) g)\<rparr>"
    "\<forall>c. c \<notin> (!) ?new ` to_cache bmask 0 ?new \<longrightarrow> blk p' c = blk p c" by blast
  have j: "j < length ?new" "?new ! j \<noteq> Blk 0" using assms(3) by (auto simp: to_cache_def)
  have "set ?new \<subseteq> insert (Blk 0) (usable p)"
    using assms(2) by (simp add: cache_request_ok_def cacheable_def)
  with j nth_mem[OF j(1)] have "?new ! j \<in> usable p" by blast
  then have cu: "?new ! j \<in> cached_under p' (cache_key (hs ! j) g)"
    using p'(3,4) assms(3) by (simp add: cached_under_def usable_def same_config_def)
  have g: "group_ok g" using assms(2) by (simp add: cache_request_ok_def)
  obtain b where b: "get_cached_block p' (hs ! j) [g] = Inr (Some [b])"
    "b \<in> cached_under p' (cache_key (hs ! j) g)"
    using get_cached_block_state[OF p'(2), of "[g]" "hs ! j"] g cu
    by (auto split: option.splits simp: list_all2_Cons2)
  have "ref_cnt (blk p' c) = ref_cnt (blk p c)" for c
    using p'(4,5) by (cases "c \<in> (!) ?new ` to_cache bmask 0 ?new") auto
  moreover have "blk p' c = blk p c" if "c \<notin> set ?new" for c
  proof -
    have "c \<notin> (!) ?new ` to_cache bmask 0 ?new" using that by (auto simp: to_cache_def)
    with p'(5) show ?thesis by blast
  qed
  ultimately show ?thesis using p'(1,2) cu b by blast
qed

lemma ex_cache_request:
  "cache_request_ok ex_env [Blk 1, Blk 2] 0 1 2 0 None (ex_request [1, 2, 3] []) ex_busy_pool [[0, 1, 2]]"
proof -
  have srt: "mm_sorted []" by (simp add: mm_sorted_def)
  note ok = ex_request_ok[OF srt]
  note bh = ex_request_hash(1)[of 3]
  have emb: "embeds_cache_ok ex_env (ex_request [1, 2, 3] [])" using ok(4) by (simp add: hashed_def)
  have "py_slice [Blk 1, Blk 2] 0 1 = [Blk 1]" by (simp add: py_slice_def slice_bound_def)
  moreover have "cacheable None 0 [Blk 1] ex_busy_pool"
    using ex_busy_pool_state(5)[of 1] by (simp add: cacheable_def ex_busy_pool_state(6) to_cache_def)
  ultimately show ?thesis
    by (simp add: cache_request_ok_def bh emb ok srt group_ok_def resolve_block_hashes_def
        ex_busy_pool_state(7) py_slice_from_def slice_bound_def)
qed

theorem cache_full_blocks_correct_witness:
  "\<exists>r' p' b. cache_full_blocks ex_env [Blk 1, Blk 2] 0 1 2 0 None (ex_request [1, 2, 3] []) ex_busy_pool
       = Inr (r', p') \<and> get_cached_block p' [0, 1, 2] [0] = Inr (Some [b])"
proof -
  have "0 \<in> to_cache None 0 (py_slice [Blk 1, Blk 2] 0 1)"
    by (simp add: to_cache_def masked_out_def py_slice_def slice_bound_def)
  from cache_full_blocks_correct[OF ex_busy_pool_state(2) ex_cache_request this] show ?thesis by auto
qed

text \<open>C10. Resetting the prefix cache succeeds exactly if every block but the placeholder is free.
  Then no look-up hits any more; otherwise nothing changes and \<open>False\<close> is returned.\<close>

theorem reset_prefix_cache_correct:
  assumes "pool_rep p fl"
  shows "case reset_prefix_cache p of (ok, p') \<Rightarrow>
     (ok \<longleftrightarrow> get_num_free_blocks p = num_gpu_blocks p - 1) \<and>
     (ok \<longleftrightarrow> (\<forall>b \<in> usable p. ref_cnt (blk p b) = 0)) \<and> pool_rep p' fl \<and>
     (if ok then (\<forall>k. cached_under p' k = {}) else p' = p)"
proof (cases "reset_prefix_cache p")
  case (Pair ok p')
  note R = reset_prefix_cache_state[OF assms Pair]
  have "usable p' = usable p" using R(3) by (simp add: usable_def same_config_def)
  then have "\<forall>k. cached_under p' k = {}" if ok using R(4)[OF that] by (simp add: cached_under_def)
  with R(1,2,5) free_list_card(3)[OF assms] Pair show ?thesis by simp
qed

theorem reset_prefix_cache_correct_witness:
  "fst (reset_prefix_cache ex_pool) \<and> \<not> fst (reset_prefix_cache ex_busy_pool)"
  using reset_prefix_cache_correct[OF ex_pool_state(2)] reset_prefix_cache_correct[OF ex_busy_pool_state(2)]
    ex_busy_pool_state(3)
  by (auto simp: ex_pool_state ex_busy_pool_state split: prod.splits)



end
