(* ===== verification/Stop_Checks.thy ===== *)
theory Stop_Checks
  imports Block_Hashing
begin

section \<open>When a request stops\<close>

text \<open>
  vllm/v1/core/sched/utils.py: the detection of repetitions, \<open>remove_all\<close> and \<open>check_stop\<close>, and
  the loop \<open>Scheduler._update_request_with_output\<close> that appends the sampled tokens one by one
  and trims them after the token that stops the request.

  A \<open>for\<close> loop with an early \<open>return\<close> is a recursion over the list it ranges over. The functions
  that mutate the request return it.
\<close>

subsection \<open>Repetition detection\<close>

fun tail_matches :: "int list \<Rightarrow> int \<Rightarrow> int \<Rightarrow> int \<Rightarrow> int list \<Rightarrow> bool result" where
  "tail_matches token_ids pattern_len n target_token [] = Inr True"
| "tail_matches token_ids pattern_len n target_token (m # ms) =
     bindE (py_index token_ids (- (pattern_len * m + n))) (\<lambda>t.
       if t \<noteq> target_token then Inr False
       else tail_matches token_ids pattern_len n target_token ms)"

fun pattern_loop :: "int list \<Rightarrow> int \<Rightarrow> int \<Rightarrow> int list \<Rightarrow> bool result" where
  "pattern_loop token_ids pattern_len repetition_min_count [] = Inr True"
| "pattern_loop token_ids pattern_len repetition_min_count (n # ns) =
     bindE (py_index token_ids (- n)) (\<lambda>target_token.
     bindE (tail_matches token_ids pattern_len n target_token [1..repetition_min_count - 1]) (\<lambda>ok.
       if \<not> ok then Inr False
       else pattern_loop token_ids pattern_len repetition_min_count ns))"

definition has_repeating_pattern :: "int list \<Rightarrow> int \<Rightarrow> int \<Rightarrow> bool result" where
  "has_repeating_pattern token_ids pattern_len repetition_min_count =
     pattern_loop token_ids pattern_len repetition_min_count [1..pattern_len]"

fun repetition_loop :: "int list \<Rightarrow> int \<Rightarrow> int list \<Rightarrow> bool result" where
  "repetition_loop token_ids count [] = Inr False"
| "repetition_loop token_ids count (pattern_len # ps) =
     (if pattern_len * count > int (length token_ids) then Inr False
      else bindE (has_repeating_pattern token_ids pattern_len count) (\<lambda>found.
        if found then Inr True else repetition_loop token_ids count ps))"

definition check_sequence_repetition ::
  "int list \<Rightarrow> repetition_detection_params \<Rightarrow> bool result" where
  "check_sequence_repetition token_ids params =
     (let min_size = (if min_pattern_size params \<le> 0 then 1 else min_pattern_size params)
      in if max_pattern_size params \<le> 0 \<or> min_count params < 2 \<or> min_size > max_pattern_size params
         then Inr False
         else repetition_loop token_ids (min_count params) [min_size..max_pattern_size params])"

subsection \<open>Removing items from a list\<close>

text \<open>
  \<open>list.remove\<close> drops the first occurrence; its \<open>ValueError\<close> for an absent item is suppressed. The
  set of items is a list without duplicates.
\<close>

definition remove_all :: "'a list \<Rightarrow> 'a list \<Rightarrow> 'a list" where
  "remove_all lst items_to_remove =
     (case items_to_remove of
        [] \<Rightarrow> lst
      | [item] \<Rightarrow> remove1 item lst
      | _ \<Rightarrow> filter (\<lambda>item. item \<notin> set items_to_remove) lst)"

subsection \<open>The stop conditions\<close>

definition check_stop :: "request \<Rightarrow> int \<Rightarrow> (bool \<times> request) result" where
  "check_stop r max_model_len =
     bindE (assertE (pooling_params r = None)) (\<lambda>_.
     case sampling_params r of
       None \<Rightarrow> Inl AssertionError
     | Some sp \<Rightarrow>
         if num_output_tokens r < min_tokens sp then Inr (False, r)
         else
           bindE (py_index (output_token_ids r) (-1)) (\<lambda>last_token_id.
           if Some last_token_id = eos_token_id sp then
             Inr (True, r\<lparr>status := FINISHED_STOPPED\<rparr>)
           else if last_token_id \<in> set (case stop_token_ids sp of None \<Rightarrow> [] | Some ts \<Rightarrow> ts) then
             Inr (True, r\<lparr>status := FINISHED_STOPPED, stop_reason := Some (StopToken last_token_id)\<rparr>)
           else if num_tokens r \<ge> max_model_len \<or> num_output_tokens r \<ge> max_tokens r then
             Inr (True, r\<lparr>status := FINISHED_LENGTH_CAPPED\<rparr>)
           else
             (case repetition_detection sp of
                None \<Rightarrow> Inr (False, r)
              | Some rd \<Rightarrow>
                  bindE (check_sequence_repetition (output_token_ids r) rd) (\<lambda>found.
                    if found then
                      Inr (True, r\<lparr>status := FINISHED_REPETITION,
                                   stop_reason := Some (StopString ''repetition_detected'')\<rparr>)
                    else Inr (False, r)))))"

text \<open>\<open>_update_request_with_output\<close>: the tokens kept, whether the request stopped, the request.\<close>

fun output_loop ::
  "hash_env \<Rightarrow> int \<Rightarrow> int list \<Rightarrow> int list \<Rightarrow> request \<Rightarrow> (int list \<times> bool \<times> request) result" where
  "output_loop env max_model_len kept [] r = Inr (kept, False, r)"
| "output_loop env max_model_len kept (output_token_id # rest) r =
     bindE (append_output_token_ids env [output_token_id] r) (\<lambda>r.
     bindE (check_stop r max_model_len) (\<lambda>(stopped, r).
       if stopped then Inr (kept @ [output_token_id], True, r)
       else output_loop env max_model_len (kept @ [output_token_id]) rest r))"

definition update_request_with_output ::
  "hash_env \<Rightarrow> int \<Rightarrow> request \<Rightarrow> int list \<Rightarrow> (int list \<times> bool \<times> request) result" where
  "update_request_with_output env max_model_len r new_token_ids =
     output_loop env max_model_len [] new_token_ids r"

subsection \<open>The repetition detector finds exactly the repeated tails\<close>

text \<open>The last \<open>c * L\<close> tokens are \<open>c\<close> copies of one pattern of \<open>L\<close> tokens.\<close>

definition repeated_tail :: "int list \<Rightarrow> nat \<Rightarrow> nat \<Rightarrow> bool" where
  "repeated_tail toks L c \<longleftrightarrow>
     (\<exists>pre pat. length pat = L \<and> toks = pre @ concat (replicate c pat))"

lemma length_concat_replicate: "length (concat (replicate c p)) = c * length p"
  by (induction c) simp_all

lemma nth_concat_replicate:
  "i < c * length p \<Longrightarrow> concat (replicate c p) ! i = p ! (i mod length p)"
proof (induction c arbitrary: i)
  case (Suc c)
  then show ?case
    by (cases "i < length p") (simp_all add: nth_append le_mod_geq)
qed simp

lemma rev_concat_replicate: "rev (concat (replicate c p)) = concat (replicate c (rev p))"
  by (simp add: rev_concat)

lemma repeated_tail_rev:
  assumes "L * c \<le> length toks" and "0 < c"
  shows "repeated_tail toks L c \<longleftrightarrow> (\<forall>i < L * c. rev toks ! i = rev toks ! (i mod L))"
proof
  assume "repeated_tail toks L c"
  then obtain pre pat where "length pat = L" "toks = pre @ concat (replicate c pat)"
    by (auto simp: repeated_tail_def)
  then have r: "rev toks = concat (replicate c (rev pat)) @ rev pre" and L: "length (rev pat) = L"
    by (simp_all add: rev_concat_replicate)
  show "\<forall>i < L * c. rev toks ! i = rev toks ! (i mod L)"
  proof (intro allI impI)
    fix i assume i: "i < L * c"
    then have "i mod L < c * L" using le_less_trans[OF mod_less_eq_dividend i] by (simp add: mult.commute)
    with i L show "rev toks ! i = rev toks ! (i mod L)"
      by (simp add: r nth_append length_concat_replicate nth_concat_replicate mult.commute)
  qed
next
  assume *: "\<forall>i < L * c. rev toks ! i = rev toks ! (i mod L)"
  let ?p = "take L (rev toks)"
  have "L \<le> L * c" using assms(2) by simp
  then have "L \<le> length toks" using assms(1) by (rule le_trans)
  then have L: "length ?p = L" by simp
  have "take (L * c) (rev toks) = concat (replicate c ?p)"
  proof (rule nth_equalityI)
    show "length (take (L * c) (rev toks)) = length (concat (replicate c ?p))"
      using assms(1) L by (simp add: length_concat_replicate mult.commute)
    fix i assume "i < length (take (L * c) (rev toks))"
    then have i: "i < L * c" "i < c * length ?p" using L by (simp_all add: mult.commute)
    then have "i mod L < L" by (cases "L = 0") simp_all
    then show "take (L * c) (rev toks) ! i = concat (replicate c ?p) ! i"
      using * i L by (simp add: nth_concat_replicate)
  qed
  then have "rev toks = concat (replicate c ?p) @ drop (L * c) (rev toks)"
    by (metis append_take_drop_id)
  then have "toks = rev (drop (L * c) (rev toks)) @ concat (replicate c (rev ?p))"
    by (metis rev_append rev_concat_replicate rev_rev_ident)
  moreover have "length (rev ?p) = L" using L by simp
  ultimately show "repeated_tail toks L c" unfolding repeated_tail_def by blast
qed

lemma py_index_neg:
  assumes "0 < n" and "n \<le> length xs"
  shows "py_index xs (- int n) = Inr (rev xs ! (n - 1))"
proof -
  have j: "int (length xs) + - int n = int (length xs - n)" using assms(2) by (simp add: of_nat_diff)
  have "rev xs ! (n - 1) = xs ! (length xs - n)" using assms by (simp add: rev_nth)
  moreover have "- int n < 0" and "length xs - n < length xs" using assms by simp_all
  ultimately show ?thesis unfolding py_index_def j Let_def by simp
qed

lemma tail_matches_spec:
  assumes "\<And>m. m \<in> set ms \<Longrightarrow> 0 \<le> m \<and> nat m * L + n \<le> length toks" and "0 < n"
  shows "tail_matches toks (int L) (int n) t ms =
    Inr (\<forall>m \<in> set ms. rev toks ! (nat m * L + n - 1) = t)"
  using assms(1)
proof (induction ms)
  case (Cons m ms)
  then have m: "0 \<le> m" "nat m * L + n \<le> length toks" by simp_all
  have e: "- (int L * m + int n) = - int (nat m * L + n)" using m(1) by (simp add: mult.commute)
  have "py_index toks (- (int L * m + int n)) = Inr (rev toks ! (nat m * L + n - 1))"
    unfolding e using m(2) assms(2) by (intro py_index_neg) simp_all
  with Cons show ?case by simp
qed simp

lemma pattern_loop_spec:
  assumes "\<And>n. n \<in> set ns \<Longrightarrow> 0 < n \<and> nat n \<le> L" and "L * c \<le> length toks" and "0 < c"
  shows "pattern_loop toks (int L) (int c) ns =
    Inr (\<forall>n \<in> set ns. \<forall>m \<in> {1..<c}. rev toks ! (m * L + nat n - 1) = rev toks ! (nat n - 1))"
  using assms(1)
proof (induction ns)
  case (Cons n ns)
  then have n: "0 < n" "nat n \<le> L" by simp_all
  have bound: "m * L + nat n \<le> length toks" if "m < c" for m
  proof -
    have "m * L + nat n \<le> Suc m * L" using n(2) by simp
    also have "\<dots> \<le> c * L" using that by (intro mult_le_mono1) simp
    finally show ?thesis using assms(2) by (simp add: mult.commute)
  qed
  have "py_index toks (- n) = Inr (rev toks ! (nat n - 1))"
    using py_index_neg[of "nat n" toks] n(1) bound[of 0] assms(3) by simp
  moreover have "tail_matches toks (int L) n t [1..int c - 1] =
      Inr (\<forall>m \<in> {1..<c}. rev toks ! (m * L + nat n - 1) = t)" for t
  proof -
    have "tail_matches toks (int L) (int (nat n)) t [1..int c - 1] =
        Inr (\<forall>m \<in> set [1..int c - 1]. rev toks ! (nat m * L + nat n - 1) = t)"
      using n(1) by (intro tail_matches_spec) (auto intro!: bound)
    moreover have "set [1..int c - 1] = int ` {1..<c}"
      by (auto simp: image_int_atLeastLessThan)
    ultimately show ?thesis using n(1) by simp
  qed
  ultimately show ?case using Cons by auto
qed simp

lemma mod_split:
  fixes L c :: nat
  assumes "0 < L"
  shows "(\<forall>i < L * c. P i (i mod L)) \<longleftrightarrow> (\<forall>n \<in> {1..L}. \<forall>m < c. P (m * L + n - 1) (n - 1))"
proof
  assume *: "\<forall>i < L * c. P i (i mod L)"
  show "\<forall>n \<in> {1..L}. \<forall>m < c. P (m * L + n - 1) (n - 1)"
  proof (intro ballI allI impI)
    fix n m :: nat assume n: "n \<in> {1..L}" and "m < c"
    then have "Suc m * L \<le> c * L" by (intro mult_le_mono1) simp
    moreover have "m * L + n - 1 < Suc m * L" using n by auto
    ultimately have "m * L + n - 1 < L * c" by (simp only: mult.commute[of L c])
    moreover have "(m * L + n - 1) mod L = n - 1" using n by (cases n) simp_all
    ultimately show "P (m * L + n - 1) (n - 1)" using * by metis
  qed
next
  assume *: "\<forall>n \<in> {1..L}. \<forall>m < c. P (m * L + n - 1) (n - 1)"
  show "\<forall>i < L * c. P i (i mod L)"
  proof (intro allI impI)
    fix i assume "i < L * c"
    then have "i div L < c" using assms by (simp add: less_mult_imp_div_less mult.commute)
    moreover have "Suc (i mod L) \<in> {1..L}" using assms by (simp add: Suc_leI)
    ultimately have "P (i div L * L + Suc (i mod L) - 1) (Suc (i mod L) - 1)" using * by blast
    then show "P i (i mod L)" by simp
  qed
qed

lemma has_repeating_pattern_spec:
  assumes "0 < L" and "L * c \<le> length toks" and "0 < c"
  shows "has_repeating_pattern toks (int L) (int c) = Inr (repeated_tail toks L c)"
proof -
  have "has_repeating_pattern toks (int L) (int c) =
      Inr (\<forall>n \<in> set [1..int L]. \<forall>m \<in> {1..<c}.
             rev toks ! (m * L + nat n - 1) = rev toks ! (nat n - 1))"
    unfolding has_repeating_pattern_def using assms by (intro pattern_loop_spec) auto
  moreover have "set [1..int L] = int ` {1..L}" by (simp add: image_int_atLeastAtMost)
  moreover have "(\<forall>m \<in> {1..<c}. Q m) \<longleftrightarrow> (\<forall>m < c. Q m)" if "Q 0" for Q :: "nat \<Rightarrow> bool"
    using that by (metis Suc_leI atLeastLessThan_iff gr0I One_nat_def)
  ultimately show ?thesis
    unfolding repeated_tail_rev[OF assms(2,3)] mod_split[OF assms(1), where P = "\<lambda>i j. rev toks ! i = rev toks ! j"]
    by simp
qed

lemma repeated_tail_length: "repeated_tail toks L c \<Longrightarrow> L * c \<le> length toks"
  by (auto simp: repeated_tail_def length_concat_replicate mult.commute)

lemma repetition_loop_spec:
  assumes "0 < lo" and "0 < c"
  shows "repetition_loop toks c [lo..hi] =
    Inr (\<exists>L \<in> {lo..hi}. repeated_tail toks (nat L) (nat c))"
  using assms(1)
proof (induction "nat (hi + 1 - lo)" arbitrary: lo)
  case 0
  then show ?case by simp
next
  case (Suc k)
  then have le: "lo \<le> hi" by simp
  then have sets: "{lo..hi} = insert lo {lo + 1..hi}" by auto
  have up: "[lo..hi] = lo # [lo + 1..hi]" using le by (rule upto_rec1)
  show ?case
  proof (cases "lo * c > int (length toks)")
    case True
    have "\<not> repeated_tail toks (nat L) (nat c)" if "L \<in> {lo..hi}" for L
    proof
      assume "repeated_tail toks (nat L) (nat c)"
      then have "int (nat L * nat c) \<le> int (length toks)"
        using repeated_tail_length by (simp only: of_nat_le_iff)
      then have "L * c \<le> int (length toks)" using that Suc.prems assms(2) by simp
      moreover have "lo * c \<le> L * c" using that assms(2) by (intro mult_right_mono) simp_all
      ultimately show False using True by linarith
    qed
    then show ?thesis using True by (auto simp: up)
  next
    case False
    then have "has_repeating_pattern toks (int (nat lo)) (int (nat c)) =
        Inr (repeated_tail toks (nat lo) (nat c))"
      using Suc.prems assms(2)
      by (intro has_repeating_pattern_spec) (simp_all flip: zle_int add: nat_mult_distrib)
    moreover have "repetition_loop toks c [lo + 1..hi] =
        Inr (\<exists>L \<in> {lo + 1..hi}. repeated_tail toks (nat L) (nat c))"
      using Suc.hyps(1)[of "lo + 1"] Suc.hyps(2) Suc.prems by simp
    ultimately show ?thesis using False Suc.prems assms(2) by (simp add: up sets)
  qed
qed

lemma check_sequence_repetition_spec:
  "check_sequence_repetition toks params =
     Inr (2 \<le> min_count params \<and>
          (\<exists>L. max 1 (min_pattern_size params) \<le> L \<and> L \<le> max_pattern_size params \<and>
               repeated_tail toks (nat L) (nat (min_count params))))"
proof (cases "max_pattern_size params \<le> 0 \<or> min_count params < 2 \<or>
    max 1 (min_pattern_size params) > max_pattern_size params")
  case True
  then show ?thesis by (auto simp: check_sequence_repetition_def Let_def)
next
  case False
  have "(if min_pattern_size params \<le> 0 then 1 else min_pattern_size params) =
      max 1 (min_pattern_size params)" by simp
  with False show ?thesis
    unfolding check_sequence_repetition_def Let_def
    by (simp add: repetition_loop_spec) (auto simp: Bex_def)
qed

lemma remove_all_filter:
  "distinct lst \<Longrightarrow> remove_all lst items = filter (\<lambda>x. x \<notin> set items) lst"
  by (auto simp: remove_all_def distinct_remove1_removeAll removeAll_filter_not_eq split: list.split
      intro!: filter_cong)

subsection \<open>What appending a token changes\<close>

text \<open>
  Only the token lists, the block hashes and the cached digests change. A request is ready if
  appending to it cannot fail: it has no block hasher, or its hashes are the reference hashes.
\<close>

definition hash_ready :: "hash_env \<Rightarrow> request \<Rightarrow> bool" where
  "hash_ready env r \<longleftrightarrow>
     (case block_hasher r of None \<Rightarrow> True | Some c \<Rightarrow> hashed env c r \<and> mm_tail_ok c r)"

lemma embeds_keys_shape:
  "gen_prompt_embeds_extra_hash_keys env r s e = (ks, r') \<Longrightarrow>
     \<exists>d. r' = r\<lparr>prompt_embeds_per_block_hashes := d\<rparr>"
  by (auto simp: gen_prompt_embeds_extra_hash_keys_def Let_def split: option.splits
      intro: exI[of _ "prompt_embeds_per_block_hashes r"])

lemma extra_keys_shape:
  "generate_block_hash_extra_keys env r s e i = Inr (ks, j, r') \<Longrightarrow>
     \<exists>d. r' = r\<lparr>prompt_embeds_per_block_hashes := d\<rparr>"
  using embeds_keys_shape[of env r s e]
  by (cases "gen_prompt_embeds_extra_hash_keys env r s e")
    (auto simp: generate_block_hash_extra_keys_def bindE_Inr_iff Let_def)

lemma hasher_loop_shape:
  "hasher_loop env c n r s prev i = Inr (hs, r') \<Longrightarrow>
     \<exists>d. r' = r\<lparr>prompt_embeds_per_block_hashes := d\<rparr>"
proof (induction env c n r s prev i arbitrary: hs rule: hasher_loop.induct)
  case (1 env c n r s prev i)
  show ?case
  proof (cases "s + hasher_block_size c > n")
    case True
    then show ?thesis
      using "1.prems" by (auto simp: hasher_loop.simps intro: exI[of _ "prompt_embeds_per_block_hashes r"])
  next
    case False
    then obtain ks j r1 h hs' where bs: "\<not> hasher_block_size c \<le> 0"
      and g: "generate_block_hash_extra_keys env r s (s + hasher_block_size c) i = Inr (ks, j, r1)"
      and h: "h = hash_block_tokens env (caching_hash_fn c) prev
                   (py_slice (all_token_ids r1) s (s + hasher_block_size c)) ks"
      and l: "hasher_loop env c n r1 (s + hasher_block_size c) (Some h) j = Inr (hs', r')"
      using "1.prems" by (subst (asm) hasher_loop.simps)
        (auto simp: bindE_Inr_iff Let_def split: if_splits prod.splits)
    have "\<exists>d. r' = r1\<lparr>prompt_embeds_per_block_hashes := d\<rparr>"
      using "1.IH"[OF refl False bs g] h l by simp
    with extra_keys_shape[OF g] show ?thesis by auto
  qed
qed

lemma append_shape:
  assumes "append_output_token_ids env ts r = Inr r'"
  shows "\<exists>d bh. r' = r\<lparr>output_token_ids := output_token_ids r @ ts,
    all_token_ids := all_token_ids r @ ts, prompt_embeds_per_block_hashes := d, block_hashes := bh\<rparr>"
proof (cases "block_hasher r")
  case None
  with assms show ?thesis
    by (auto simp: append_output_token_ids_def update_block_hashes_def
        intro!: exI[of _ "prompt_embeds_per_block_hashes r"] exI[of _ "block_hashes r"])
next
  case (Some c)
  let ?r = "r\<lparr>output_token_ids := output_token_ids r @ ts, all_token_ids := all_token_ids r @ ts\<rparr>"
  from assms Some obtain hs r1 where h: "request_block_hasher env c ?r = Inr (hs, r1)"
    and r': "r' = r1\<lparr>block_hashes := block_hashes r1 @ hs\<rparr>"
    by (auto simp: append_output_token_ids_def update_block_hashes_def bindE_Inr_iff)
  have "\<exists>d. r1 = ?r\<lparr>prompt_embeds_per_block_hashes := d\<rparr>"
    using h hasher_loop_shape
    by (fastforce simp: request_block_hasher_def Let_def split: if_splits
        intro: exI[of _ "prompt_embeds_per_block_hashes r"])
  with r' show ?thesis by auto
qed

lemma append_ready:
  assumes "hash_ready env r"
  shows "\<exists>r' d bh. append_output_token_ids env ts r = Inr r' \<and> hash_ready env r' \<and>
    r' = r\<lparr>output_token_ids := output_token_ids r @ ts, all_token_ids := all_token_ids r @ ts,
           prompt_embeds_per_block_hashes := d, block_hashes := bh\<rparr>"
proof (cases "block_hasher r")
  case None
  then show ?thesis
    by (auto simp: append_output_token_ids_def update_block_hashes_def hash_ready_def
        intro!: exI[of _ "prompt_embeds_per_block_hashes r"] exI[of _ "block_hashes r"])
next
  case (Some c)
  with assms have "hashed env c r" "mm_tail_ok c r" by (simp_all add: hash_ready_def)
  from append_hashed[OF this, of ts] obtain r' where
    r': "append_output_token_ids env ts r = Inr r'" "hashed env c r'" "mm_tail_ok c r'" by blast
  moreover from r'(2) have "hash_ready env r'" using r'(3) by (simp add: hash_ready_def hashed_def)
  ultimately show ?thesis using append_shape[OF r'(1)] by blast
qed

subsection \<open>When the loop stops\<close>

text \<open>The stop conditions as a predicate on the tokens generated so far.\<close>

definition stop_now ::
  "sampling_params_data \<Rightarrow> int \<Rightarrow> int \<Rightarrow> int \<Rightarrow> int list \<Rightarrow> bool" where
  "stop_now sp max_model_len max_toks prompt_len outs \<longleftrightarrow>
     min_tokens sp \<le> int (length outs) \<and>
     (Some (last outs) = eos_token_id sp \<or>
      (\<exists>ts. stop_token_ids sp = Some ts \<and> last outs \<in> set ts) \<or>
      max_model_len \<le> prompt_len + int (length outs) \<or>
      max_toks \<le> int (length outs) \<or>
      (\<exists>rd L. repetition_detection sp = Some rd \<and> 2 \<le> min_count rd \<and>
              max 1 (min_pattern_size rd) \<le> L \<and> L \<le> max_pattern_size rd \<and>
              repeated_tail outs (nat L) (nat (min_count rd))))"

lemma if_chain_outcome:
  assumes "S a" and "S b" and "S c"
  shows "\<exists>st sr. S st \<and>
    (if m then x else if e then Inr (True, f a u) else if s then Inr (True, f a v)
     else if l then Inr (True, f b u) else if p then Inr (True, f c w) else x) =
    (if \<not> m \<and> (e \<or> s \<or> l \<or> p) then Inr (True, f st sr) else x)"
  using assms by (cases m; cases e; cases s; cases l; cases p) auto

lemma check_stop_spec:
  assumes "pooling_params r = None" and "sampling_params r = Some sp" and "output_token_ids r \<noteq> []"
  shows "\<exists>st sr. status_is_finished st \<and>
    check_stop r ml =
      (if stop_now sp ml (max_tokens r) (num_tokens r - num_output_tokens r) (output_token_ids r)
       then Inr (True, r\<lparr>status := st, stop_reason := sr\<rparr>) else Inr (False, r))"
proof -
  let ?outs = "output_token_ids r"
  let ?stops = "case stop_token_ids sp of None \<Rightarrow> [] | Some ts \<Rightarrow> ts"
  let ?len = "num_tokens r \<ge> ml \<or> num_output_tokens r \<ge> max_tokens r"
  let ?rep = "\<exists>rd L. repetition_detection sp = Some rd \<and> 2 \<le> min_count rd \<and>
    max 1 (min_pattern_size rd) \<le> L \<and> L \<le> max_pattern_size rd \<and>
    repeated_tail ?outs (nat L) (nat (min_count rd))"
  have stop: "stop_now sp ml (max_tokens r) (num_tokens r - num_output_tokens r) ?outs \<longleftrightarrow>
      min_tokens sp \<le> num_output_tokens r \<and>
      (Some (last ?outs) = eos_token_id sp \<or> last ?outs \<in> set ?stops \<or> ?len \<or> ?rep)"
    by (auto simp: stop_now_def num_output_tokens_def split: option.splits simp del: max.bounded_iff)
  have keep: "r\<lparr>status := st, stop_reason := stop_reason r\<rparr> = r\<lparr>status := st\<rparr>" for st by simp
  have run: "check_stop r ml =
     (if num_output_tokens r < min_tokens sp then Inr (False, r)
      else if Some (last ?outs) = eos_token_id sp then
        Inr (True, r\<lparr>status := FINISHED_STOPPED, stop_reason := stop_reason r\<rparr>)
      else if last ?outs \<in> set ?stops then
        Inr (True, r\<lparr>status := FINISHED_STOPPED, stop_reason := Some (StopToken (last ?outs))\<rparr>)
      else if ?len then
        Inr (True, r\<lparr>status := FINISHED_LENGTH_CAPPED, stop_reason := stop_reason r\<rparr>)
      else if ?rep then
        Inr (True, r\<lparr>status := FINISHED_REPETITION,
                     stop_reason := Some (StopString ''repetition_detected'')\<rparr>)
      else Inr (False, r))"
    using assms(1,2) py_index_last[OF assms(3)]
    by (cases "stop_token_ids sp"; cases "repetition_detection sp")
      (simp_all add: check_stop_def check_sequence_repetition_spec keep)
  have fin: "status_is_finished FINISHED_STOPPED" "status_is_finished FINISHED_LENGTH_CAPPED"
      "status_is_finished FINISHED_REPETITION"
    by (simp_all add: status_is_finished_def less_request_status_def)
  show ?thesis
    unfolding stop run not_less[symmetric]
    by (rule if_chain_outcome[where f = "\<lambda>st sr. r\<lparr>status := st, stop_reason := sr\<rparr>"]) (rule fin)+
qed

lemma output_loop_spec:
  fixes sp ml and r :: request
  defines "Q \<equiv> stop_now sp ml (max_tokens r) (num_tokens r - num_output_tokens r)"
  assumes "pooling_params r = None" and "sampling_params r = Some sp" and "hash_ready env r"
  shows "\<exists>k stopped r'. output_loop env ml kept ts r = Inr (kept @ take k ts, stopped, r') \<and>
    k \<le> length ts \<and> output_token_ids r' = output_token_ids r @ take k ts \<and>
    all_token_ids r' = all_token_ids r @ take k ts \<and>
    (\<forall>j. 0 < j \<and> j \<le> k \<longrightarrow> (Q (output_token_ids r @ take j ts) \<longleftrightarrow> stopped \<and> j = k)) \<and>
    (if stopped then 0 < k \<and> is_finished r' else k = length ts \<and> status r' = status r)"
  using assms(2-) unfolding Q_def
proof (induction ts arbitrary: kept r)
  case Nil
  then show ?case by (intro exI[of _ 0] exI[of _ False] exI[of _ r]) simp
next
  case (Cons t ts)
  let ?Q = "stop_now sp ml (max_tokens r) (num_tokens r - num_output_tokens r)"
  obtain r1 d bh where app: "append_output_token_ids env [t] r = Inr r1" and rdy: "hash_ready env r1"
    and r1: "r1 = r\<lparr>output_token_ids := output_token_ids r @ [t], all_token_ids := all_token_ids r @ [t],
                    prompt_embeds_per_block_hashes := d, block_hashes := bh\<rparr>"
    using append_ready[OF Cons.prems(3)] by blast
  have Q1: "stop_now sp ml (max_tokens r1) (num_tokens r1 - num_output_tokens r1) = ?Q"
    by (simp add: r1 num_tokens_def num_output_tokens_def)
  obtain st sr where st: "status_is_finished st" and chk: "check_stop r1 ml =
      (if ?Q (output_token_ids r1) then Inr (True, r1\<lparr>status := st, stop_reason := sr\<rparr>) else Inr (False, r1))"
    using check_stop_spec[of r1 sp ml] Cons.prems(1,2) unfolding Q1 by (auto simp: r1)
  show ?case
  proof (cases "?Q (output_token_ids r @ [t])")
    case True
    with app chk st show ?thesis
      by (intro exI[of _ 1] exI[of _ True] exI[of _ "r1\<lparr>status := st, stop_reason := sr\<rparr>"])
        (auto simp: r1 is_finished_def le_Suc_eq Suc_le_eq)
  next
    case False
    obtain k stopped r' where IH:
      "output_loop env ml (kept @ [t]) ts r1 = Inr ((kept @ [t]) @ take k ts, stopped, r')"
      "k \<le> length ts" "output_token_ids r' = output_token_ids r1 @ take k ts"
      "all_token_ids r' = all_token_ids r1 @ take k ts"
      "\<forall>j. 0 < j \<and> j \<le> k \<longrightarrow> (?Q (output_token_ids r1 @ take j ts) \<longleftrightarrow> stopped \<and> j = k)"
      "if stopped then 0 < k \<and> is_finished r' else k = length ts \<and> status r' = status r1"
      using Cons.IH[of r1 "kept @ [t]"] Cons.prems(1,2) rdy unfolding Q1 by (auto simp: r1)
    have "?Q (output_token_ids r @ take j (t # ts)) \<longleftrightarrow> stopped \<and> j = Suc k" if "0 < j" "j \<le> Suc k" for j
    proof (cases "j = 1")
      case True
      with False IH(6) show ?thesis by auto
    next
      case False
      with that obtain i where i: "j = Suc i" "0 < i" "i \<le> k" by (cases j) auto
      then show ?thesis using IH(5)[rule_format, of i] by (simp add: r1)
    qed
    moreover have "output_loop env ml kept (t # ts) r = Inr (kept @ take (Suc k) (t # ts), stopped, r')"
      using False app chk IH(1) by (simp add: r1)
    ultimately show ?thesis
      using IH(2-4,6)
      by (intro exI[of _ "Suc k"] exI[of _ stopped] exI[of _ r']) (simp add: r1)
  qed
qed

subsection \<open>Properties\<close>

text \<open>C17. Repetition detection never raises, and finds exactly the token sequences that end with at
  least \<open>min_count\<close> (two or more) consecutive copies of a pattern whose length lies between the
  configured minimum, at least one, and the configured maximum.
\<close>

theorem check_sequence_repetition_correct:
  "check_sequence_repetition toks params =
     Inr (2 \<le> min_count params \<and>
          (\<exists>L. max 1 (min_pattern_size params) \<le> L \<and> L \<le> max_pattern_size params \<and>
               repeated_tail toks (nat L) (nat (min_count params))))"
  by (rule check_sequence_repetition_spec)

text \<open>C16. Updating a generating request with sampled tokens never raises. It keeps the shortest
  nonempty prefix of the new tokens at which a stop condition holds, all of them if there is none,
  appends exactly these to the request, and reports whether it stopped. A request that stopped has
  a finished status, one that did not keeps its status. If the minimum number of tokens fits into
  both limits, the request ends within \<open>max_tokens\<close> generated tokens and \<open>max_model_len\<close> tokens.
\<close>

theorem update_request_with_output_correct:
  fixes sp ml and r :: request
  defines "Q \<equiv> stop_now sp ml (max_tokens r) (num_tokens r - num_output_tokens r)"
  assumes "pooling_params r = None" and "sampling_params r = Some sp" and "hash_ready env r"
  shows "\<exists>k stopped r'. update_request_with_output env ml r ts = Inr (take k ts, stopped, r') \<and>
    k \<le> length ts \<and> output_token_ids r' = output_token_ids r @ take k ts \<and>
    all_token_ids r' = all_token_ids r @ take k ts \<and>
    (\<forall>j. 0 < j \<and> j \<le> k \<longrightarrow> (Q (output_token_ids r @ take j ts) \<longleftrightarrow> stopped \<and> j = k)) \<and>
    (if stopped then 0 < k \<and> is_finished r' else k = length ts \<and> status r' = status r) \<and>
    (min_tokens sp \<le> max_tokens r \<and> num_tokens r - num_output_tokens r + min_tokens sp \<le> ml \<and>
     num_output_tokens r < max_tokens r \<and> num_tokens r < ml \<longrightarrow>
       num_output_tokens r' \<le> max_tokens r \<and> num_tokens r' \<le> ml)"
proof -
  obtain k stopped r' where *:
    "update_request_with_output env ml r ts = Inr (take k ts, stopped, r')"
    "k \<le> length ts" "output_token_ids r' = output_token_ids r @ take k ts"
    "all_token_ids r' = all_token_ids r @ take k ts"
    "\<forall>j. 0 < j \<and> j \<le> k \<longrightarrow> (Q (output_token_ids r @ take j ts) \<longleftrightarrow> stopped \<and> j = k)"
    "if stopped then 0 < k \<and> is_finished r' else k = length ts \<and> status r' = status r"
    using output_loop_spec[OF assms(2-), of ml "[]" ts]
    unfolding Q_def update_request_with_output_def by auto
  have len: "num_output_tokens r' = num_output_tokens r + int k" "num_tokens r' = num_tokens r + int k"
    using *(2-4) by (simp_all add: num_output_tokens_def num_tokens_def)
  have "int k \<le> max_tokens r - num_output_tokens r \<and> int k \<le> ml - num_tokens r" (is ?fits)
    if lim: "min_tokens sp \<le> max_tokens r" "num_tokens r - num_output_tokens r + min_tokens sp \<le> ml"
      "num_output_tokens r < max_tokens r" "num_tokens r < ml"
  proof (rule ccontr)
    assume "\<not> ?fits"
    define j where "j = nat (min (max_tokens r - num_output_tokens r) (ml - num_tokens r))"
    have ij: "int j = min (max_tokens r - num_output_tokens r) (ml - num_tokens r)"
      using lim by (simp add: j_def)
    have j: "0 < j" "j < k" using ij lim \<open>\<not> ?fits\<close> by linarith+
    then have "int (length (output_token_ids r @ take j ts)) = num_output_tokens r + int j"
      using *(2) by (simp add: num_output_tokens_def)
    then have "Q (output_token_ids r @ take j ts)"
      unfolding Q_def stop_now_def using ij lim by (auto simp: min_def split: if_splits)
    with *(5) j show False by auto
  qed
  then have "min_tokens sp \<le> max_tokens r \<and> num_tokens r - num_output_tokens r + min_tokens sp \<le> ml \<and>
     num_output_tokens r < max_tokens r \<and> num_tokens r < ml \<longrightarrow>
       num_output_tokens r' \<le> max_tokens r \<and> num_tokens r' \<le> ml"
    unfolding len by linarith
  with * show ?thesis by blast
qed

definition ex_gen_request :: request where
  "ex_gen_request = projr (request_init ex_env 0 0 None (ex_args [1, 2, 3] []))"

theorem update_request_with_output_correct_witness:
  "\<exists>k stopped r'. update_request_with_output ex_env 5 ex_gen_request [7, 8, 9] =
     Inr (take k [7, 8, 9], stopped, r') \<and> num_output_tokens r' \<le> 16 \<and> num_tokens r' \<le> 5"
proof -
  have "pooling_params ex_gen_request = None" "sampling_params ex_gen_request = Some ex_sampling"
    "hash_ready ex_env ex_gen_request" "max_tokens ex_gen_request = 16"
    "num_tokens ex_gen_request = 3" "num_output_tokens ex_gen_request = 0" "min_tokens ex_sampling = 0"
    by (simp_all add: ex_gen_request_def request_init_def ex_args_def ex_sampling_def Let_def hash_ready_def
        update_block_hashes_def length_from_prompt_token_ids_or_embeds_def num_tokens_def num_output_tokens_def)
  with update_request_with_output_correct[of ex_gen_request ex_sampling ex_env 5 "[7, 8, 9]"]
  show ?thesis by auto
qed

end
