(* ===== verification/Heapq.thy ===== *)
theory Heapq
  imports Prelude "HOL-Library.Multiset"
begin

section \<open>Binary heaps in a list (Python's heapq)\<close>

text \<open>
  The functions of the standard module \<open>heapq\<close> that vllm/v1/core/sched/request\_queue.py calls,
  with the loops of its reference implementation. The comparison \<open>__lt__\<close> of the elements is the
  parameter \<open>lt\<close>. \<open>_siftdown\<close> moves an element towards the root, \<open>_siftup\<close> towards the leaves.
\<close>

function siftdown_loop :: "('a \<Rightarrow> 'a \<Rightarrow> bool) \<Rightarrow> nat \<Rightarrow> 'a \<Rightarrow> 'a list \<Rightarrow> nat \<Rightarrow> 'a list" where
  "siftdown_loop lt startpos newitem heap pos =
     (if pos > startpos then
        let parentpos = (pos - 1) div 2; parent = heap ! parentpos
        in if lt newitem parent then siftdown_loop lt startpos newitem (heap[pos := parent]) parentpos
           else heap[pos := newitem]
      else heap[pos := newitem])"
  by pat_completeness auto
termination
  by (relation "measure (\<lambda>(lt, s, x, h, pos). pos)") auto

definition siftdown :: "('a \<Rightarrow> 'a \<Rightarrow> bool) \<Rightarrow> 'a list \<Rightarrow> nat \<Rightarrow> nat \<Rightarrow> 'a list" where
  "siftdown lt heap startpos pos = siftdown_loop lt startpos (heap ! pos) heap pos"

function siftup_loop :: "('a \<Rightarrow> 'a \<Rightarrow> bool) \<Rightarrow> 'a list \<Rightarrow> nat \<Rightarrow> 'a list \<times> nat" where
  "siftup_loop lt heap pos =
     (let childpos = 2 * pos + 1 in
      if childpos < length heap then
        let rightpos = childpos + 1;
            c = (if rightpos < length heap \<and> \<not> lt (heap ! childpos) (heap ! rightpos)
                 then rightpos else childpos)
        in siftup_loop lt (heap[pos := heap ! c]) c
      else (heap, pos))"
  by pat_completeness auto
termination
  by (relation "measure (\<lambda>(lt, h, pos). length h - pos)") (auto simp: Let_def)

declare siftdown_loop.simps [simp del] siftup_loop.simps [simp del]

definition siftup :: "('a \<Rightarrow> 'a \<Rightarrow> bool) \<Rightarrow> 'a list \<Rightarrow> nat \<Rightarrow> 'a list" where
  "siftup lt heap pos =
     (let newitem = heap ! pos; (heap', pos') = siftup_loop lt heap pos
      in siftdown lt (heap'[pos' := newitem]) pos pos')"

definition heappush :: "('a \<Rightarrow> 'a \<Rightarrow> bool) \<Rightarrow> 'a list \<Rightarrow> 'a \<Rightarrow> 'a list" where
  "heappush lt heap item = (let heap' = heap @ [item] in siftdown lt heap' 0 (length heap' - 1))"

definition heappop :: "('a \<Rightarrow> 'a \<Rightarrow> bool) \<Rightarrow> 'a list \<Rightarrow> ('a \<times> 'a list) result" where
  "heappop lt heap =
     (if heap = [] then Inl IndexError
      else
        let lastelt = last heap; heap' = butlast heap
        in if heap' \<noteq> [] then Inr (heap' ! 0, siftup lt (heap'[0 := lastelt]) 0)
           else Inr (lastelt, heap'))"

definition heapify :: "('a \<Rightarrow> 'a \<Rightarrow> bool) \<Rightarrow> 'a list \<Rightarrow> 'a list" where
  "heapify lt x = fold (\<lambda>i x. siftup lt x i) (rev [0..<length x div 2]) x"

subsection \<open>Heap order\<close>

text \<open>
  The edges of the tree below position \<open>s\<close> are in order: no element is smaller than its parent.
\<close>

abbreviation parent_pos :: "nat \<Rightarrow> nat" where
  "parent_pos j \<equiv> (j - 1) div 2"

definition heap_from :: "('a \<Rightarrow> 'a \<Rightarrow> bool) \<Rightarrow> nat \<Rightarrow> 'a list \<Rightarrow> bool" where
  "heap_from lt s xs \<longleftrightarrow>
     (\<forall>j. 0 < j \<and> j < length xs \<and> s \<le> parent_pos j \<longrightarrow> \<not> lt (xs ! j) (xs ! parent_pos j))"

abbreviation heap_ok :: "('a \<Rightarrow> 'a \<Rightarrow> bool) \<Rightarrow> 'a list \<Rightarrow> bool" where
  "heap_ok lt \<equiv> heap_from lt 0"

text \<open>The positions of the subtree at \<open>s\<close>.\<close>

inductive below :: "nat \<Rightarrow> nat \<Rightarrow> bool" for s where
  here: "below s s"
| left: "below s p \<Longrightarrow> below s (2 * p + 1)"
| right: "below s p \<Longrightarrow> below s (2 * p + 2)"

lemma below_le: "below s p \<Longrightarrow> s \<le> p"
  by (induction rule: below.induct) simp_all

lemma below_parent: "below s p \<Longrightarrow> s < p \<Longrightarrow> below s (parent_pos p)"
  by (induction rule: below.induct) simp_all

lemma below_root: "below 0 p"
proof (induction p rule: less_induct)
  case (less p)
  have "p = 0 \<or> (\<exists>k. p = 2 * k + 1) \<or> (\<exists>k. p = 2 * k + 2)" by presburger
  then consider "p = 0" | k where "p = 2 * k + 1" | k where "p = 2 * k + 2" by blast
  then show ?case
  proof cases
    case 1
    then show ?thesis by (simp add: below.here)
  next
    case 2
    then show ?thesis using below.left[OF less[of k]] by simp
  next
    case 3
    then show ?thesis using below.right[OF less[of k]] by simp
  qed
qed

text \<open>
  What \<open>siftdown\<close> keeps while it moves the element at \<open>pos\<close> up: all edges but the one above \<open>pos\<close>
  are in order, and so are the children of \<open>pos\<close> with its parent.
\<close>

definition rising :: "('a \<Rightarrow> 'a \<Rightarrow> bool) \<Rightarrow> nat \<Rightarrow> 'a list \<Rightarrow> nat \<Rightarrow> bool" where
  "rising lt s xs pos \<longleftrightarrow>
     pos < length xs \<and> below s pos \<and>
     (\<forall>j. 0 < j \<and> j < length xs \<and> s \<le> parent_pos j \<and> j \<noteq> pos \<longrightarrow>
        \<not> lt (xs ! j) (xs ! parent_pos j)) \<and>
     (s < pos \<longrightarrow> (\<forall>c. 0 < c \<and> c < length xs \<and> parent_pos c = pos \<longrightarrow>
        \<not> lt (xs ! c) (xs ! parent_pos pos)))"

text \<open>The order that heaps need: a strict weak order.\<close>

locale strict_weak_order =
  fixes lt :: "'a \<Rightarrow> 'a \<Rightarrow> bool"
  assumes irrefl: "\<not> lt a a"
    and trans: "lt a b \<Longrightarrow> lt b c \<Longrightarrow> lt a c"
    and neg_trans: "\<not> lt a b \<Longrightarrow> \<not> lt b c \<Longrightarrow> \<not> lt a c"
begin

lemma asym: "lt a b \<Longrightarrow> \<not> lt b a"
  using irrefl trans by blast

lemma rising_step:
  assumes r: "rising lt s xs pos" and pos: "s < pos" and lt: "lt (xs ! pos) (xs ! parent_pos pos)"
  shows "rising lt s (xs[pos := xs ! parent_pos pos, parent_pos pos := xs ! pos]) (parent_pos pos)"
proof -
  let ?p = "parent_pos pos"
  let ?ys = "xs[pos := xs ! ?p, ?p := xs ! pos]"
  have len: "pos < length xs" and bel: "below s pos" using r by (simp_all add: rising_def)
  have p: "?p < pos" "?p < length xs" using pos len by simp_all
  have ys: "?ys ! j = (if j = ?p then xs ! pos else if j = pos then xs ! ?p else xs ! j)"
    if "j < length xs" for j using that p len by (simp add: nth_list_update)
  have edge: "\<not> lt (xs ! j) (xs ! parent_pos j)"
    if "0 < j" "j < length xs" "s \<le> parent_pos j" "j \<noteq> pos" for j
    using r that by (simp add: rising_def)
  have gc: "\<not> lt (xs ! c) (xs ! ?p)" if "0 < c" "c < length xs" "parent_pos c = pos" for c
    using r pos that by (simp add: rising_def)
  have sp: "s \<le> ?p" using below_le[OF below_parent[OF bel pos]] .
  have "\<not> lt (?ys ! j) (?ys ! parent_pos j)"
    if j: "0 < j" "j < length xs" "s \<le> parent_pos j" "j \<noteq> ?p" for j
  proof -
    have pj: "parent_pos j < length xs" "parent_pos j \<noteq> j" using j by simp_all
    consider "j = pos" | "j \<noteq> pos" "parent_pos j = pos" | "j \<noteq> pos" "parent_pos j = ?p"
      | "j \<noteq> pos" "parent_pos j \<noteq> pos" "parent_pos j \<noteq> ?p" by blast
    then show ?thesis
    proof cases
      case 1
      then show ?thesis using asym[OF lt] ys[OF j(2)] ys[OF pj(1)] p by simp
    next
      case 2
      then show ?thesis using gc[OF j(1,2)] ys[OF j(2)] ys[OF pj(1)] p j(4) by simp
    next
      case 3
      with edge[OF j(1-3)] have "\<not> lt (xs ! j) (xs ! ?p)" by simp
      then have "\<not> lt (xs ! j) (xs ! pos)" using trans[OF _ lt] by blast
      then show ?thesis using 3 ys[OF j(2)] ys[OF pj(1)] j(4) by simp
    next
      case 4
      then show ?thesis using edge[OF j(1-3)] ys[OF j(2)] ys[OF pj(1)] j(4) by simp
    qed
  qed
  moreover have "\<not> lt (?ys ! c) (?ys ! parent_pos ?p)"
    if "s < ?p" and c: "0 < c" "c < length xs" "parent_pos c = ?p" for c
  proof -
    have pp: "parent_pos ?p < ?p" "parent_pos ?p < length xs" using that(1) p by linarith+
    have up: "\<not> lt (xs ! ?p) (xs ! parent_pos ?p)"
      using edge[of ?p] that(1) p below_le[OF below_parent[OF below_parent[OF bel pos] that(1)]] by simp
    have "\<not> lt (xs ! c) (xs ! parent_pos ?p)" if "c \<noteq> pos"
      using neg_trans[OF _ up] edge[of c] c that sp by simp
    moreover have "c \<noteq> ?p" using c by simp
    ultimately show ?thesis
      unfolding ys[OF c(2)] ys[OF pp(2)] using up pp(1) p(1) by (cases "c = pos") simp_all
  qed
  ultimately show ?thesis
    unfolding rising_def using p below_parent[OF bel pos] by simp
qed

lemma siftdown_loop_correct:
  "rising lt s (heap[pos := x]) pos \<Longrightarrow>
     heap_from lt s (siftdown_loop lt s x heap pos) \<and>
     mset (siftdown_loop lt s x heap pos) = mset (heap[pos := x])"
proof (induction pos arbitrary: heap rule: less_induct)
  case (less pos)
  let ?p = "parent_pos pos" and ?xs = "heap[pos := x]"
  have pos: "pos < length heap" using less.prems by (simp add: rising_def)
  show ?case
  proof (cases "s < pos \<and> lt x (heap ! ?p)")
    case True
    then have p: "?p < pos" "heap ! ?p = ?xs ! ?p" by auto
    have eq: "?xs[pos := ?xs ! ?p, ?p := ?xs ! pos] = heap[pos := heap ! ?p, ?p := x]"
      using pos p by simp
    have "rising lt s (heap[pos := heap ! ?p, ?p := x]) ?p"
      using rising_step[OF less.prems] True pos p unfolding eq by simp
    from less.IH[OF p(1) this] have
      "heap_from lt s (siftdown_loop lt s x (heap[pos := heap ! ?p]) ?p) \<and>
       mset (siftdown_loop lt s x (heap[pos := heap ! ?p]) ?p) = mset (heap[pos := heap ! ?p, ?p := x])" .
    moreover have "mset (heap[pos := heap ! ?p, ?p := x]) = mset ?xs"
      using mset_swap[of ?p ?xs pos] pos p unfolding eq by simp
    moreover have "siftdown_loop lt s x heap pos = siftdown_loop lt s x (heap[pos := heap ! ?p]) ?p"
      using True by (simp add: siftdown_loop.simps[of lt s x heap pos] Let_def)
    ultimately show ?thesis by simp
  next
    case False
    then have run: "siftdown_loop lt s x heap pos = ?xs"
      by (auto simp: siftdown_loop.simps[of lt s x heap pos] Let_def)
    have "\<not> lt (?xs ! j) (?xs ! parent_pos j)"
      if j: "0 < j" "j < length ?xs" "s \<le> parent_pos j" for j
    proof (cases "j = pos")
      case True
      then have "s < pos" "?p \<noteq> pos" using j by linarith+
      with False True pos show ?thesis by simp
    next
      case False
      then show ?thesis using less.prems j by (simp add: rising_def)
    qed
    then show ?thesis unfolding run heap_from_def by simp
  qed
qed

text \<open>
  What \<open>siftup\<close> keeps while the hole at \<open>pos\<close> sinks: all edges that do not touch the hole are in
  order, and so are its children with its parent.
\<close>

lemma siftup_loop_correct:
  assumes "pos < length heap" and "below s pos"
    and "\<And>j. 0 < j \<Longrightarrow> j < length heap \<Longrightarrow> s \<le> parent_pos j \<Longrightarrow> j \<noteq> pos \<Longrightarrow> parent_pos j \<noteq> pos \<Longrightarrow>
           \<not> lt (heap ! j) (heap ! parent_pos j)"
    and "\<And>c. s < pos \<Longrightarrow> 0 < c \<Longrightarrow> c < length heap \<Longrightarrow> parent_pos c = pos \<Longrightarrow>
           \<not> lt (heap ! c) (heap ! parent_pos pos)"
  shows "\<exists>heap' pos'. siftup_loop lt heap pos = (heap', pos') \<and>
    rising lt s (heap'[pos' := x]) pos' \<and> mset (heap'[pos' := x]) = mset (heap[pos := x])"
  using assms
proof (induction "length heap - pos" arbitrary: heap pos rule: less_induct)
  case less
  note edge = less.prems(3) and gc = less.prems(4)
  show ?case
  proof (cases "2 * pos + 1 < length heap")
    case False
    then have leaf: "parent_pos j \<noteq> pos" if "0 < j" "j < length heap" for j using that by linarith
    have "rising lt s (heap[pos := x]) pos"
      using less.prems(1,2) edge leaf by (auto simp: rising_def nth_list_update)
    then show ?thesis
      using False by (simp add: siftup_loop.simps[of lt heap pos] Let_def)
  next
    case True
    define c where "c = (if 2 * pos + 1 + 1 < length heap \<and>
      \<not> lt (heap ! (2 * pos + 1)) (heap ! (2 * pos + 1 + 1)) then 2 * pos + 1 + 1 else 2 * pos + 1)"
    let ?h = "heap[pos := heap ! c]"
    have c: "pos < c" "0 < c" "c < length heap" "parent_pos c = pos" "below s c"
      using True less.prems(2) below.left[of s pos] below.right[of s pos] by (auto simp: c_def)
    have smaller: "\<not> lt (heap ! j) (heap ! c)" if "0 < j" "j < length heap" "parent_pos j = pos" for j
    proof -
      have "j = 2 * pos + 1 \<or> j = 2 * pos + 1 + 1" using that by linarith
      then show ?thesis using that irrefl asym by (auto simp: c_def)
    qed
    have run: "siftup_loop lt heap pos = siftup_loop lt ?h c"
      using True by (simp add: siftup_loop.simps[of lt heap pos] Let_def c_def)
    have "\<exists>heap' pos'. siftup_loop lt ?h c = (heap', pos') \<and> rising lt s (heap'[pos' := x]) pos' \<and>
        mset (heap'[pos' := x]) = mset (?h[c := x])"
    proof (rule less.hyps)
      show "length ?h - c < length heap - pos" using c by simp
      show "c < length ?h" "below s c" using c by simp_all
      fix j assume j: "0 < j" "j < length ?h" "s \<le> parent_pos j" "j \<noteq> c" "parent_pos j \<noteq> c"
      show "\<not> lt (?h ! j) (?h ! parent_pos j)"
      proof (cases "j = pos")
        case True
        then have "s < pos" "parent_pos pos \<noteq> pos" using j by linarith+
        then show ?thesis using gc[OF _ c(2,3,4)] True less.prems(1) by simp
      next
        case False
        then show ?thesis
          using smaller[OF j(1)] edge[OF j(1) _ j(3)] j(2) less.prems(1) by (cases "parent_pos j = pos") simp_all
      qed
    next
      fix g assume g: "s < c" "0 < g" "g < length ?h" "parent_pos g = c"
      have "g \<noteq> pos" "s \<le> c" using g c by auto
      then show "\<not> lt (?h ! g) (?h ! parent_pos c)"
        using edge[OF g(2)] g c less.prems(1) by simp
    qed
    moreover have "mset (?h[c := x]) = mset (heap[pos := x])"
      using mset_swap[of pos "heap[pos := x]" c] c less.prems(1) by (simp add: list_update_swap)
    ultimately show ?thesis unfolding run by simp
  qed
qed

lemma siftup_correct:
  assumes "heap_from lt (Suc s) xs" and "s < length xs"
  shows "heap_from lt s (siftup lt xs s) \<and> mset (siftup lt xs s) = mset xs"
proof -
  obtain ys p where up: "siftup_loop lt xs s = (ys, p)" "rising lt s (ys[p := xs ! s]) p"
    "mset (ys[p := xs ! s]) = mset (xs[s := xs ! s])"
  proof -
    have "\<exists>ys p. siftup_loop lt xs s = (ys, p) \<and> rising lt s (ys[p := xs ! s]) p \<and>
        mset (ys[p := xs ! s]) = mset (xs[s := xs ! s])"
    proof (rule siftup_loop_correct)
      fix j assume "0 < j" "j < length xs" "s \<le> parent_pos j" "parent_pos j \<noteq> s"
      then show "\<not> lt (xs ! j) (xs ! parent_pos j)" using assms(1) by (simp add: heap_from_def)
    qed (use assms(2) below.here in auto)
    then show ?thesis using that by blast
  qed
  moreover have "p < length ys" using up(2) by (simp add: rising_def)
  ultimately show ?thesis
    using siftdown_loop_correct[of s "ys[p := xs ! s]" p "xs ! s"]
    by (simp add: siftup_def siftdown_def Let_def)
qed

lemma heappush_correct:
  assumes "heap_ok lt xs"
  shows "heap_ok lt (heappush lt xs x) \<and> mset (heappush lt xs x) = add_mset x (mset xs)"
proof -
  have "rising lt 0 ((xs @ [x])[length xs := x]) (length xs)"
    unfolding rising_def
  proof (intro conjI allI impI)
    fix c assume "0 < c \<and> c < length ((xs @ [x])[length xs := x]) \<and> parent_pos c = length xs"
    then have False by auto
    then show "\<not> lt ((xs @ [x])[length xs := x] ! c) ((xs @ [x])[length xs := x] ! parent_pos (length xs))"
      by blast
  qed (use assms in \<open>auto simp: below_root heap_from_def nth_append\<close>)
  from siftdown_loop_correct[OF this] show ?thesis by (simp add: heappush_def siftdown_def)
qed

text \<open>The root of a heap is minimal.\<close>

lemma heap_root: "heap_ok lt xs \<Longrightarrow> i < length xs \<Longrightarrow> \<not> lt (xs ! i) (xs ! 0)"
proof (induction i rule: less_induct)
  case (less i)
  show ?case
  proof (cases "i = 0")
    case True
    then show ?thesis using irrefl by simp
  next
    case False
    then have "parent_pos i < i" by simp
    with less have "\<not> lt (xs ! parent_pos i) (xs ! 0)" by simp
    moreover have "\<not> lt (xs ! i) (xs ! parent_pos i)" using less.prems False by (simp add: heap_from_def)
    ultimately show ?thesis using neg_trans by blast
  qed
qed

lemma heap_root_min: "heap_ok lt xs \<Longrightarrow> y \<in> set xs \<Longrightarrow> \<not> lt y (xs ! 0)"
  by (metis heap_root in_set_conv_nth)

lemma heappop_correct:
  assumes "heap_ok lt xs" and "xs \<noteq> []"
  shows "\<exists>ys. heappop lt xs = Inr (xs ! 0, ys) \<and> heap_ok lt ys \<and> add_mset (xs ! 0) (mset ys) = mset xs"
proof (cases "butlast xs = []")
  case True
  then obtain x where "xs = [x]" using assms(2) by (metis append_butlast_last_id append_Nil)
  then show ?thesis by (simp add: heappop_def heap_from_def)
next
  case False
  let ?b = "butlast xs" and ?ys = "(butlast xs)[0 := last xs]"
  have nth: "?b ! i = xs ! i" if "i < length ?b" for i using that by (simp add: nth_butlast)
  have "heap_from lt (Suc 0) ?ys"
    using assms(1) nth by (auto simp: heap_from_def nth_list_update)
  moreover have "0 < length ?ys" using False by (metis length_greater_0_conv list_update_nonempty)
  ultimately have up: "heap_ok lt (siftup lt ?ys 0)" "mset (siftup lt ?ys 0) = mset ?ys"
    using siftup_correct by blast+
  have "add_mset (?b ! 0) (mset ?ys) = add_mset (last xs) (mset ?b)"
    using False by (cases "butlast xs") (simp_all add: add_mset_commute)
  also have "\<dots> = mset xs" using arg_cong[OF append_butlast_last_id[OF assms(2)], of mset] by simp
  finally have "add_mset (?b ! 0) (mset ?ys) = mset xs" .
  moreover have "?b ! 0 = xs ! 0" using nth[of 0] False by (metis length_greater_0_conv)
  ultimately show ?thesis using up False assms(2) by (simp add: heappop_def Let_def)
qed

lemma heapify_correct: "heap_ok lt (heapify lt xs) \<and> mset (heapify lt xs) = mset xs"
proof -
  have "heap_ok lt (fold (\<lambda>i x. siftup lt x i) (rev [0..<k]) ys) \<and>
      mset (fold (\<lambda>i x. siftup lt x i) (rev [0..<k]) ys) = mset ys"
    if "heap_from lt k ys" and "k \<le> length ys" for k ys
    using that
  proof (induction k arbitrary: ys)
    case (Suc k)
    then have "heap_from lt k (siftup lt ys k)" "mset (siftup lt ys k) = mset ys"
      using siftup_correct[of k ys] by simp_all
    moreover from this(2) have "length (siftup lt ys k) = length ys" by (metis size_mset)
    ultimately show ?case using Suc.IH[of "siftup lt ys k"] Suc.prems(2) by simp
  qed simp
  moreover have "heap_from lt (length xs div 2) xs"
    unfolding heap_from_def by (auto simp: div_le_mono)
  ultimately show ?thesis unfolding heapify_def by simp
qed

end

end
