(* ===== verification/Request_Queue.thy ===== *)
theory Request_Queue
  imports Heapq Block_Hashing
begin

section \<open>Queues of waiting requests\<close>

text \<open>
  vllm/v1/core/sched/request\_queue.py: the first-come-first-served queue (a deque) and the
  priority queue (a binary heap). The class of a queue object is the constructor of
  \<open>request_queue\<close>, and a method call dispatches on it.

  Queues hold references to request objects, which other parts of the scheduler mutate. A
  reference is a number, a store maps it to the object, and equality and hashing of requests,
  which the class \<open>Request\<close> does not override, are equality of references. The comparison
  \<open>Request.__lt__\<close> through the store is \<open>ref_lt\<close>.
\<close>

type_synonym req_ref = nat

type_synonym req_store = "req_ref \<Rightarrow> request"

definition ref_lt :: "req_store \<Rightarrow> req_ref \<Rightarrow> req_ref \<Rightarrow> bool" where
  "ref_lt st a b = request_lt (st a) (st b)"

datatype scheduling_policy = FCFS | PRIORITY

datatype request_queue = FCFSRequestQueue "req_ref list" | PriorityRequestQueue "req_ref list"

definition create_request_queue :: "scheduling_policy \<Rightarrow> request_queue" where
  "create_request_queue policy =
     (case policy of PRIORITY \<Rightarrow> PriorityRequestQueue [] | FCFS \<Rightarrow> FCFSRequestQueue [])"

subsection \<open>The first-come-first-served queue\<close>

definition fcfs_add_request :: "req_ref list \<Rightarrow> req_ref \<Rightarrow> req_ref list" where
  "fcfs_add_request q request = q @ [request]"

definition fcfs_pop_request :: "req_ref list \<Rightarrow> (req_ref \<times> req_ref list) result" where
  "fcfs_pop_request q = (case q of [] \<Rightarrow> Inl IndexError | r # rs \<Rightarrow> Inr (r, rs))"

definition fcfs_peek_request :: "req_ref list \<Rightarrow> req_ref result" where
  "fcfs_peek_request q = (if q = [] then Inl IndexError else Inr (q ! 0))"

definition fcfs_prepend_request :: "req_ref list \<Rightarrow> req_ref \<Rightarrow> req_ref list" where
  "fcfs_prepend_request q request = request # q"

text \<open>\<open>extendleft\<close> prepends the items one by one.\<close>

definition fcfs_prepend_requests :: "req_ref list \<Rightarrow> req_ref list \<Rightarrow> req_ref list" where
  "fcfs_prepend_requests q requests = fold (\<lambda>r q. r # q) requests q"

definition fcfs_remove_request :: "req_ref list \<Rightarrow> req_ref \<Rightarrow> req_ref list result" where
  "fcfs_remove_request q request =
     (if request \<in> set q then Inr (remove1 request q) else Inl ValueError)"

definition fcfs_remove_requests :: "req_ref list \<Rightarrow> req_ref list \<Rightarrow> req_ref list" where
  "fcfs_remove_requests q requests = filter (\<lambda>r. r \<notin> set requests) q"

subsection \<open>The priority queue\<close>

definition prio_add_request :: "req_store \<Rightarrow> req_ref list \<Rightarrow> req_ref \<Rightarrow> req_ref list" where
  "prio_add_request st heap request = heappush (ref_lt st) heap request"

definition prio_pop_request :: "req_store \<Rightarrow> req_ref list \<Rightarrow> (req_ref \<times> req_ref list) result" where
  "prio_pop_request st heap = (if heap = [] then Inl IndexError else heappop (ref_lt st) heap)"

definition prio_peek_request :: "req_ref list \<Rightarrow> req_ref result" where
  "prio_peek_request heap = (if heap = [] then Inl IndexError else Inr (heap ! 0))"

definition prio_prepend_request :: "req_store \<Rightarrow> req_ref list \<Rightarrow> req_ref \<Rightarrow> req_ref list" where
  "prio_prepend_request st heap request = prio_add_request st heap request"

definition prio_prepend_requests :: "req_store \<Rightarrow> req_ref list \<Rightarrow> req_ref list \<Rightarrow> req_ref list" where
  "prio_prepend_requests st heap requests = fold (\<lambda>r h. prio_add_request st h r) requests heap"

definition prio_remove_request :: "req_store \<Rightarrow> req_ref list \<Rightarrow> req_ref \<Rightarrow> req_ref list result" where
  "prio_remove_request st heap request =
     (if request \<in> set heap then Inr (heapify (ref_lt st) (remove1 request heap)) else Inl ValueError)"

definition prio_remove_requests :: "req_store \<Rightarrow> req_ref list \<Rightarrow> req_ref list \<Rightarrow> req_ref list" where
  "prio_remove_requests st heap requests =
     heapify (ref_lt st) (filter (\<lambda>r. r \<notin> set requests) heap)"

text \<open>\<open>__iter__\<close> pops a copy of the heap until it is empty.\<close>

fun pop_all :: "nat \<Rightarrow> req_store \<Rightarrow> req_ref list \<Rightarrow> req_ref list" where
  "pop_all 0 st heap = []"
| "pop_all (Suc n) st heap =
     (case heappop (ref_lt st) heap of Inl e \<Rightarrow> [] | Inr (r, heap') \<Rightarrow> r # pop_all n st heap')"

definition prio_iter :: "req_store \<Rightarrow> req_ref list \<Rightarrow> req_ref list" where
  "prio_iter st heap = pop_all (length heap) st heap"

subsection \<open>Dispatch on the class of the queue\<close>

fun queue_iter :: "req_store \<Rightarrow> request_queue \<Rightarrow> req_ref list" where
  "queue_iter st (FCFSRequestQueue q) = q"
| "queue_iter st (PriorityRequestQueue h) = prio_iter st h"

fun queue_len :: "request_queue \<Rightarrow> int" where
  "queue_len (FCFSRequestQueue q) = int (length q)"
| "queue_len (PriorityRequestQueue h) = int (length h)"

fun queue_bool :: "request_queue \<Rightarrow> bool" where
  "queue_bool (FCFSRequestQueue q) = (length q > 0)"
| "queue_bool (PriorityRequestQueue h) = (h \<noteq> [])"

fun queue_add_request :: "req_store \<Rightarrow> req_ref \<Rightarrow> request_queue \<Rightarrow> request_queue" where
  "queue_add_request st r (FCFSRequestQueue q) = FCFSRequestQueue (fcfs_add_request q r)"
| "queue_add_request st r (PriorityRequestQueue h) = PriorityRequestQueue (prio_add_request st h r)"

fun queue_pop_request :: "req_store \<Rightarrow> request_queue \<Rightarrow> (req_ref \<times> request_queue) result" where
  "queue_pop_request st (FCFSRequestQueue q) =
     bindE (fcfs_pop_request q) (\<lambda>(r, q'). Inr (r, FCFSRequestQueue q'))"
| "queue_pop_request st (PriorityRequestQueue h) =
     bindE (prio_pop_request st h) (\<lambda>(r, h'). Inr (r, PriorityRequestQueue h'))"

fun queue_peek_request :: "request_queue \<Rightarrow> req_ref result" where
  "queue_peek_request (FCFSRequestQueue q) = fcfs_peek_request q"
| "queue_peek_request (PriorityRequestQueue h) = prio_peek_request h"

fun queue_prepend_request :: "req_store \<Rightarrow> req_ref \<Rightarrow> request_queue \<Rightarrow> request_queue" where
  "queue_prepend_request st r (FCFSRequestQueue q) = FCFSRequestQueue (fcfs_prepend_request q r)"
| "queue_prepend_request st r (PriorityRequestQueue h) =
     PriorityRequestQueue (prio_prepend_request st h r)"

fun queue_prepend_requests :: "req_store \<Rightarrow> request_queue \<Rightarrow> request_queue \<Rightarrow> request_queue" where
  "queue_prepend_requests st rs (FCFSRequestQueue q) =
     FCFSRequestQueue (fcfs_prepend_requests q (queue_iter st rs))"
| "queue_prepend_requests st rs (PriorityRequestQueue h) =
     PriorityRequestQueue (prio_prepend_requests st h (queue_iter st rs))"

fun queue_remove_request :: "req_store \<Rightarrow> req_ref \<Rightarrow> request_queue \<Rightarrow> request_queue result" where
  "queue_remove_request st r (FCFSRequestQueue q) =
     bindE (fcfs_remove_request q r) (\<lambda>q'. Inr (FCFSRequestQueue q'))"
| "queue_remove_request st r (PriorityRequestQueue h) =
     bindE (prio_remove_request st h r) (\<lambda>h'. Inr (PriorityRequestQueue h'))"

fun queue_remove_requests :: "req_store \<Rightarrow> req_ref list \<Rightarrow> request_queue \<Rightarrow> request_queue" where
  "queue_remove_requests st rs (FCFSRequestQueue q) = FCFSRequestQueue (fcfs_remove_requests q rs)"
| "queue_remove_requests st rs (PriorityRequestQueue h) =
     PriorityRequestQueue (prio_remove_requests st h rs)"

subsection \<open>The contract of a waiting queue\<close>

text \<open>
  \<open>items\<close> is the order in which the queue is iterated. Popping removes its head; adding and
  removing change its contents as a multiset.
\<close>

locale waiting_queue =
  fixes inv :: "'q \<Rightarrow> bool" and items :: "'q \<Rightarrow> 'r list"
    and add :: "'q \<Rightarrow> 'r \<Rightarrow> 'q" and pop :: "'q \<Rightarrow> ('r \<times> 'q) result" and peek :: "'q \<Rightarrow> 'r result"
    and remove :: "'q \<Rightarrow> 'r \<Rightarrow> 'q result" and removes :: "'q \<Rightarrow> 'r list \<Rightarrow> 'q"
  assumes add_inv: "inv q \<Longrightarrow> inv (add q r)"
    and add_items: "inv q \<Longrightarrow> mset (items (add q r)) = add_mset r (mset (items q))"
    and pop_empty: "inv q \<Longrightarrow> items q = [] \<Longrightarrow> pop q = Inl IndexError \<and> peek q = Inl IndexError"
    and pop_head: "inv q \<Longrightarrow> items q = r # rs \<Longrightarrow>
      \<exists>q'. pop q = Inr (r, q') \<and> inv q' \<and> items q' = rs \<and> peek q = Inr r"
    and remove_absent: "inv q \<Longrightarrow> r \<notin> set (items q) \<Longrightarrow> remove q r = Inl ValueError"
    and remove_present: "inv q \<Longrightarrow> r \<in> set (items q) \<Longrightarrow>
      \<exists>q'. remove q r = Inr q' \<and> inv q' \<and> add_mset r (mset (items q')) = mset (items q)"
    and removes_inv: "inv q \<Longrightarrow> inv (removes q rs)"
    and removes_items: "inv q \<Longrightarrow> mset (items (removes q rs)) = filter_mset (\<lambda>r. r \<notin> set rs) (mset (items q))"
begin

lemma add_all:
  "inv q \<Longrightarrow> inv (fold (\<lambda>r q. add q r) rs q) \<and>
     mset (items (fold (\<lambda>r q. add q r) rs q)) = mset rs + mset (items q)"
  by (induction rs arbitrary: q) (simp_all add: add_inv add_items)

lemma pop_cases:
  "inv q \<Longrightarrow>
     (case items q of
        [] \<Rightarrow> pop q = Inl IndexError \<and> peek q = Inl IndexError
      | r # rs \<Rightarrow> \<exists>q'. pop q = Inr (r, q') \<and> inv q' \<and> items q' = rs \<and> peek q = Inr r)"
  using pop_empty[of q] pop_head[of q] by (cases "items q") simp_all

lemma add_remove:
  assumes "inv q" and "r \<notin> set (items q)"
  shows "\<exists>q'. remove (add q r) r = Inr q' \<and> inv q' \<and> mset (items q') = mset (items q)"
proof -
  have "r \<in> set (items (add q r))" by (metis add_items[OF assms(1)] set_mset_mset union_single_eq_member)
  from remove_present[OF add_inv[OF assms(1)] this] show ?thesis by (simp add: add_items[OF assms(1)])
qed

end

text \<open>A queue that keeps its items in order of their arrival, and one that sorts them.\<close>

locale fifo_queue = waiting_queue +
  assumes add_last: "items (add q r) = items q @ [r]"

locale sorted_queue = waiting_queue +
  fixes before :: "'b \<Rightarrow> 'b \<Rightarrow> bool"
  assumes items_sorted: "inv q \<Longrightarrow> sorted_wrt (\<lambda>a b. \<not> before b a) (items q)"
begin

lemma pop_least:
  assumes "inv q" and "pop q = Inr (r, q')" and "x \<in> set (items q')"
  shows "\<not> before x r"
proof (cases "items q")
  case Nil
  with pop_empty[OF assms(1)] assms(2) show ?thesis by simp
next
  case (Cons y ys)
  from pop_head[OF assms(1) Cons] assms(2) have "r = y" "items q' = ys" by auto
  with items_sorted[OF assms(1)] Cons assms(3) show ?thesis by simp
qed

end

subsection \<open>Both queues meet the contract\<close>

interpretation fcfs: fifo_queue "\<lambda>_. True" "\<lambda>q. q" fcfs_add_request fcfs_pop_request
  fcfs_peek_request fcfs_remove_request fcfs_remove_requests
  by unfold_locales
    (auto simp: fcfs_add_request_def fcfs_pop_request_def fcfs_peek_request_def fcfs_remove_request_def
      fcfs_remove_requests_def mset_filter)

interpretation by_priority: strict_weak_order "ref_lt st" for st
  by unfold_locales (auto simp: ref_lt_def request_lt_key)

lemma pop_all_correct:
  assumes "heap_ok (ref_lt st) h" and "length h \<le> n"
  shows "mset (pop_all n st h) = mset h \<and> sorted_wrt (\<lambda>a b. \<not> ref_lt st b a) (pop_all n st h)"
  using assms
proof (induction n arbitrary: h)
  case 0
  then show ?case by simp
next
  case (Suc n)
  show ?case
  proof (cases "h = []")
    case True
    then show ?thesis by (simp add: heappop_def)
  next
    case False
    from by_priority.heappop_correct[OF Suc.prems(1) False] obtain h' where
      h': "heappop (ref_lt st) h = Inr (h ! 0, h')" "heap_ok (ref_lt st) h'"
        "add_mset (h ! 0) (mset h') = mset h" by blast
    then have "length h' \<le> n" using Suc.prems(2) by (metis Suc_le_mono size_add_mset size_mset)
    from Suc.IH[OF h'(2) this] have IH: "mset (pop_all n st h') = mset h'"
      "sorted_wrt (\<lambda>a b. \<not> ref_lt st b a) (pop_all n st h')" by simp_all
    have "\<not> ref_lt st x (h ! 0)" if "x \<in> set (pop_all n st h')" for x
    proof -
      have "x \<in># mset h" using that IH(1) h'(3) by (metis insert_noteq_member set_mset_mset
          union_iff add_mset_add_single)
      then show ?thesis using by_priority.heap_root_min[OF Suc.prems(1)] by simp
    qed
    with IH h' show ?thesis by simp
  qed
qed

lemma prio_iter_correct:
  assumes "heap_ok (ref_lt st) h"
  shows "mset (prio_iter st h) = mset h" and "sorted_wrt (\<lambda>a b. \<not> ref_lt st b a) (prio_iter st h)"
  using pop_all_correct[OF assms, of "length h"] by (simp_all add: prio_iter_def)

lemma prio_iter_Nil: "prio_iter st h = [] \<longleftrightarrow> h = []" if "heap_ok (ref_lt st) h"
  using prio_iter_correct(1)[OF that] by (metis mset_zero_iff)

lemma prio_iter_Cons:
  assumes "heap_ok (ref_lt st) h" and "h \<noteq> []"
  shows "\<exists>h'. heappop (ref_lt st) h = Inr (h ! 0, h') \<and> heap_ok (ref_lt st) h' \<and>
    prio_iter st h = h ! 0 # prio_iter st h'"
proof -
  from by_priority.heappop_correct[OF assms] obtain h' where
    h': "heappop (ref_lt st) h = Inr (h ! 0, h')" "heap_ok (ref_lt st) h'"
      "add_mset (h ! 0) (mset h') = mset h" by blast
  have "length h = Suc (length h')" using h'(3) by (metis size_add_mset size_mset)
  with h' show ?thesis by (simp add: prio_iter_def)
qed

interpretation prio: sorted_queue "heap_ok (ref_lt st)" "prio_iter st" "prio_add_request st"
  "prio_pop_request st" prio_peek_request "prio_remove_request st" "prio_remove_requests st" "ref_lt st"
  for st
proof unfold_locales
  fix q r assume inv: "heap_ok (ref_lt st) q"
  note push = by_priority.heappush_correct[OF inv, of r]
  then show "heap_ok (ref_lt st) (prio_add_request st q r)" by (simp add: prio_add_request_def)
  show "mset (prio_iter st (prio_add_request st q r)) = add_mset r (mset (prio_iter st q))"
    using push by (simp add: prio_add_request_def prio_iter_correct(1) inv)
next
  fix q assume "heap_ok (ref_lt st) q" and "prio_iter st q = []"
  then show "prio_pop_request st q = Inl IndexError \<and> prio_peek_request q = Inl IndexError"
    by (simp add: prio_iter_Nil prio_pop_request_def prio_peek_request_def)
next
  fix q r rs assume inv: "heap_ok (ref_lt st) q" and it: "prio_iter st q = r # rs"
  then have ne: "q \<noteq> []" by (metis list.distinct(1) prio_iter_Nil)
  from prio_iter_Cons[OF inv ne] it ne show "\<exists>q'. prio_pop_request st q = Inr (r, q') \<and>
      heap_ok (ref_lt st) q' \<and> prio_iter st q' = rs \<and> prio_peek_request q = Inr r"
    by (auto simp: prio_pop_request_def prio_peek_request_def)
next
  fix q r assume inv: "heap_ok (ref_lt st) q"
  have set: "set (prio_iter st q) = set q" by (metis prio_iter_correct(1)[OF inv] set_mset_mset)
  show "r \<notin> set (prio_iter st q) \<Longrightarrow> prio_remove_request st q r = Inl ValueError"
    by (simp add: set prio_remove_request_def)
  show "\<exists>q'. prio_remove_request st q r = Inr q' \<and> heap_ok (ref_lt st) q' \<and>
      add_mset r (mset (prio_iter st q')) = mset (prio_iter st q)" if "r \<in> set (prio_iter st q)"
    using that by_priority.heapify_correct[of st "remove1 r q"]
    by (simp add: set prio_remove_request_def prio_iter_correct(1) inv)
next
  fix q rs assume inv: "heap_ok (ref_lt st) q"
  note hf = by_priority.heapify_correct[of st "filter (\<lambda>r. r \<notin> set rs) q"]
  then show "heap_ok (ref_lt st) (prio_remove_requests st q rs)" by (simp add: prio_remove_requests_def)
  show "mset (prio_iter st (prio_remove_requests st q rs)) =
      filter_mset (\<lambda>r. r \<notin> set rs) (mset (prio_iter st q))"
    using hf by (simp add: prio_remove_requests_def prio_iter_correct(1) inv mset_filter)
next
  fix q assume "heap_ok (ref_lt st) q"
  then show "sorted_wrt (\<lambda>a b. \<not> ref_lt st b a) (prio_iter st q)" by (rule prio_iter_correct(2))
qed

subsection \<open>Properties\<close>

text \<open>A queue object is well formed if its heap, in case it has one, is in heap order.\<close>

fun queue_ok :: "req_store \<Rightarrow> request_queue \<Rightarrow> bool" where
  "queue_ok st (FCFSRequestQueue q) = True"
| "queue_ok st (PriorityRequestQueue h) = heap_ok (ref_lt st) h"

lemma queue_ok_create [simp]: "queue_ok st (create_request_queue policy)"
  by (cases policy) (simp_all add: create_request_queue_def heap_from_def)

lemma queue_prepend_ok:
  assumes "queue_ok st q"
  shows "queue_ok st (queue_prepend_request st r q)"
    and "mset (queue_iter st (queue_prepend_request st r q)) = add_mset r (mset (queue_iter st q))"
  using assms prio.add_inv[of st _ r] prio.add_items[of st _ r]
  by (cases q; simp add: fcfs_prepend_request_def prio_prepend_request_def)+

text \<open>C18. Both kinds of queues behave as queues of their iteration order. Adding a request adds it once
  to the contents, at the end for first-come-first-served. Popping an empty queue raises
  \<open>IndexError\<close>; popping another returns the first request of the order, which peeking shows, and
  leaves the rest of the order. Truth value and length are those of the order, and the order of
  a priority queue is sorted: no request comes after one that is strictly less urgent.
\<close>

theorem request_queue_correct:
  assumes "queue_ok st q"
  shows "queue_ok st (queue_add_request st r q) \<and>
    mset (queue_iter st (queue_add_request st r q)) = add_mset r (mset (queue_iter st q)) \<and>
    (case queue_iter st q of
       [] \<Rightarrow> queue_pop_request st q = Inl IndexError \<and> queue_peek_request q = Inl IndexError
     | x # xs \<Rightarrow> \<exists>q'. queue_pop_request st q = Inr (x, q') \<and> queue_peek_request q = Inr x \<and>
                       queue_ok st q' \<and> queue_iter st q' = xs) \<and>
    (queue_bool q \<longleftrightarrow> queue_iter st q \<noteq> []) \<and> queue_len q = int (length (queue_iter st q)) \<and>
    (case q of
       FCFSRequestQueue xs \<Rightarrow> queue_iter st (queue_add_request st r q) = queue_iter st q @ [r]
     | PriorityRequestQueue h \<Rightarrow> sorted_wrt (\<lambda>a b. \<not> ref_lt st b a) (queue_iter st q))"
proof (cases q)
  case (FCFSRequestQueue xs)
  then show ?thesis
    using fcfs.pop_cases[of xs] by (auto simp: fcfs_add_request_def split: list.splits)
next
  case (PriorityRequestQueue h)
  with assms have inv: "heap_ok (ref_lt st) h" by simp
  have "length (prio_iter st h) = length h" using prio_iter_correct(1)[OF inv] by (metis size_mset)
  then show ?thesis
    using PriorityRequestQueue prio.pop_cases[OF inv] prio.items_sorted[OF inv]
      prio.add_inv[OF inv] prio.add_items[OF inv] prio_iter_Nil[OF inv]
    by (auto split: list.splits)
qed

definition ex_store :: req_store where
  "ex_store i = (ex_request [1] [])\<lparr>priority := - int i, obj_id := i\<rparr>"

lemma ex_store_lt: "ref_lt ex_store i j \<longleftrightarrow> j < i"
  by (simp add: ref_lt_def request_lt_def ex_store_def)

theorem request_queue_correct_witness:
  "queue_ok ex_store (PriorityRequestQueue [2, 1]) \<and>
   (\<exists>q'. queue_pop_request ex_store (PriorityRequestQueue [2, 1]) = Inr (2, q') \<and>
      queue_iter ex_store q' = [1])"
proof -
  have "queue_ok ex_store (PriorityRequestQueue [2, 1])"
    by (auto simp: heap_from_def ex_store_lt less_Suc_eq)
  moreover have "queue_iter ex_store (PriorityRequestQueue [2, 1]) = [2, 1]"
    by (simp add: prio_iter_def numeral_2_eq_2 heappop_def siftup_def siftup_loop.simps siftdown_def
        siftdown_loop.simps)
  ultimately show ?thesis
    using request_queue_correct[of ex_store "PriorityRequestQueue [2, 1]" 0] by auto
qed

text \<open>C19. Removing a request raises \<open>ValueError\<close> if it is not queued and removes one occurrence
  otherwise; removing several drops exactly the queued requests among them. The queue stays
  well formed, and a first-come-first-served queue keeps the order of the others.
\<close>

theorem request_queue_remove_correct:
  assumes "queue_ok st q"
  shows "(if r \<in> set (queue_iter st q)
          then \<exists>q'. queue_remove_request st r q = Inr q' \<and> queue_ok st q' \<and>
                 add_mset r (mset (queue_iter st q')) = mset (queue_iter st q)
          else queue_remove_request st r q = Inl ValueError) \<and>
    queue_ok st (queue_remove_requests st rs q) \<and>
    mset (queue_iter st (queue_remove_requests st rs q)) =
      filter_mset (\<lambda>x. x \<notin> set rs) (mset (queue_iter st q)) \<and>
    (case q of
       FCFSRequestQueue xs \<Rightarrow>
         queue_iter st (queue_remove_requests st rs q) = filter (\<lambda>x. x \<notin> set rs) (queue_iter st q)
     | PriorityRequestQueue h \<Rightarrow> True)"
proof (cases q)
  case (FCFSRequestQueue xs)
  then show ?thesis
    using fcfs.remove_absent[of r xs] fcfs.remove_present[of r xs]
    by (auto simp: fcfs_remove_requests_def mset_filter)
next
  case (PriorityRequestQueue h)
  with assms have inv: "heap_ok (ref_lt st) h" by simp
  show ?thesis
    using PriorityRequestQueue prio.remove_absent[OF inv, of r] prio.remove_present[OF inv, of r]
      prio.removes_inv[OF inv] prio.removes_items[OF inv] by auto
qed

theorem request_queue_remove_correct_witness:
  "queue_remove_request ex_store 7 (FCFSRequestQueue [3, 5]) = Inl ValueError \<and>
   queue_iter ex_store (queue_remove_requests ex_store [5, 9] (FCFSRequestQueue [3, 5, 4])) = [3, 4]"
  using request_queue_remove_correct[of ex_store "FCFSRequestQueue [3, 5]" 7 "[]"]
    request_queue_remove_correct[of ex_store "FCFSRequestQueue [3, 5, 4]" 7 "[5, 9]"] by simp

text \<open>C20. The scheduler collects the requests it has to skip by prepending them, one after the other,
  to a fresh queue, and prepends that queue in the end. For first-come-first-served the two
  reversals cancel out: the skipped requests come first, in the order in which they were
  met. For priorities all requests are kept and the order is again sorted.
\<close>

theorem skipped_requests_keep_order:
  fixes st policy skipped
  defines "step_skipped \<equiv> fold (queue_prepend_request st) skipped (create_request_queue policy)"
  assumes "queue_ok st q" and "(policy = FCFS) = (\<exists>xs. q = FCFSRequestQueue xs)"
  shows "mset (queue_iter st (queue_prepend_requests st step_skipped q)) =
      mset skipped + mset (queue_iter st q) \<and>
    queue_ok st (queue_prepend_requests st step_skipped q) \<and>
    (policy = FCFS \<longrightarrow>
       queue_iter st (queue_prepend_requests st step_skipped q) = skipped @ queue_iter st q)"
proof -
  have fold: "queue_ok st (fold (queue_prepend_request st) rs p) \<and>
      mset (queue_iter st (fold (queue_prepend_request st) rs p)) = mset rs + mset (queue_iter st p)"
    if "queue_ok st p" for rs p
    using that by (induction rs arbitrary: p) (simp_all add: queue_prepend_ok)
  have empty: "queue_iter st (create_request_queue policy) = []"
    by (cases policy) (simp_all add: create_request_queue_def prio_iter_def)
  have step: "mset (queue_iter st step_skipped) = mset skipped"
    using fold[OF queue_ok_create, of skipped policy] empty by (simp add: step_skipped_def)
  show ?thesis
  proof (cases q)
    case (FCFSRequestQueue xs)
    have "fold (queue_prepend_request st) rs (FCFSRequestQueue p) = FCFSRequestQueue (rev rs @ p)" for rs p
      by (induction rs arbitrary: p) (simp_all add: fcfs_prepend_request_def)
    moreover have "fold (\<lambda>r q. r # q) rs p = rev rs @ p" for rs p :: "req_ref list"
      by (induction rs arbitrary: p) simp_all
    ultimately show ?thesis
      using FCFSRequestQueue assms(3) step
      by (auto simp: step_skipped_def create_request_queue_def fcfs_prepend_requests_def)
  next
    case (PriorityRequestQueue h)
    with assms have inv: "heap_ok (ref_lt st) h" and "policy \<noteq> FCFS" by auto
    then show ?thesis
      using PriorityRequestQueue prio.add_all[OF inv, of "queue_iter st step_skipped"] step
      by (simp add: prio_prepend_requests_def)
  qed
qed

theorem skipped_requests_keep_order_witness:
  "queue_iter ex_store
     (queue_prepend_requests ex_store
        (fold (queue_prepend_request ex_store) [1, 2] (create_request_queue FCFS))
        (FCFSRequestQueue [3])) = [1, 2, 3]"
  using skipped_requests_keep_order[of ex_store "FCFSRequestQueue [3]" FCFS "[1, 2]"] by simp

end
