(* ===== verification/Encoder_Cache.thy ===== *)
theory Encoder_Cache
  imports Block_Hashing
begin

section \<open>The cache of encoder outputs\<close>

text \<open>
  vllm/v1/core/encoder\_cache\_manager.py: \<open>EncoderCacheManager\<close> with its reference sets and its
  list of reclaimable entries, \<open>EncoderDecoderCacheManager\<close>, and \<open>compute_mm_encoder_budget\<close>.

  A Python set of request or input identifiers is a list without duplicates. Where the code
  iterates over a set, the order is not determined; it is the argument \<open>set_order\<close>, a function
  that lists the members.
\<close>

record encoder_cache_manager =
  cache_size :: int
  num_free_slots :: int
  num_freeable_slots :: int
  ec_cached :: "(string, string list) dict"
  request_cached_ids :: "(string, int list) dict"
  ec_freeable :: "(string, int) dict"
  ec_freed :: "string list"

definition ec_init :: "int \<Rightarrow> encoder_cache_manager" where
  "ec_init capacity =
     \<lparr>cache_size = capacity, num_free_slots = capacity, num_freeable_slots = capacity, ec_cached = [],
      request_cached_ids = [], ec_freeable = [], ec_freed = []\<rparr>"

definition ec_reset :: "encoder_cache_manager \<Rightarrow> encoder_cache_manager" where
  "ec_reset m =
     m\<lparr>ec_cached := [], request_cached_ids := [], ec_freeable := [], ec_freed := [],
       num_free_slots := cache_size m, num_freeable_slots := cache_size m\<rparr>"

text \<open>\<open>self.request_cached_ids.setdefault(request_id, set()).add(input_id)\<close>\<close>

definition add_cached_id :: "string \<Rightarrow> int \<Rightarrow> (string, int list) dict \<Rightarrow> (string, int list) dict" where
  "add_cached_id rid input_id d = dict_set rid (List.insert input_id (dict_get_default d rid [])) d"

definition check_and_update_cache ::
  "request \<Rightarrow> int \<Rightarrow> encoder_cache_manager \<Rightarrow> (bool \<times> encoder_cache_manager) result" where
  "check_and_update_cache r input_id m =
     bindE (py_index (mm_features r) input_id) (\<lambda>f.
       let mm_hash = mm_identifier f in
       case dict_get (ec_cached m) mm_hash of
         None \<Rightarrow> Inr (False, m)
       | Some refs \<Rightarrow>
           bindE (if refs = [] then
                    (case dict_get (ec_freeable m) mm_hash of
                       None \<Rightarrow> Inl KeyError
                     | Some n \<Rightarrow>
                         Inr (m\<lparr>ec_freeable := dict_del mm_hash (ec_freeable m),
                                num_freeable_slots := num_freeable_slots m - n\<rparr>))
                  else Inr m) (\<lambda>m.
             Inr (True,
                  m\<lparr>ec_cached := dict_set mm_hash (List.insert (request_id r) refs) (ec_cached m),
                    request_cached_ids := add_cached_id (request_id r) input_id (request_cached_ids m)\<rparr>)))"

text \<open>The eviction loop of \<open>can_allocate\<close>: \<open>popitem(last=False)\<close> takes the oldest entry.\<close>

function evict_loop :: "int \<Rightarrow> encoder_cache_manager \<Rightarrow> encoder_cache_manager result" where
  "evict_loop num_embeds m =
     (if num_embeds > num_free_slots m then
        (case ec_freeable m of
           [] \<Rightarrow> Inl KeyError
         | (mm_hash, num_free_embeds) # rest \<Rightarrow>
             if dict_get (ec_cached m) mm_hash = None then Inl KeyError
             else evict_loop num_embeds
                    (m\<lparr>ec_freeable := rest, ec_cached := dict_del mm_hash (ec_cached m),
                       ec_freed := ec_freed m @ [mm_hash],
                       num_free_slots := num_free_slots m + num_free_embeds\<rparr>))
      else Inr m)"
  by pat_completeness auto
termination
  by (relation "measure (\<lambda>(n, m). length (ec_freeable m))") auto

declare evict_loop.simps [simp del]

definition can_allocate ::
  "request \<Rightarrow> int \<Rightarrow> int \<Rightarrow> int \<Rightarrow> encoder_cache_manager \<Rightarrow> (bool \<times> encoder_cache_manager) result" where
  "can_allocate r input_id encoder_compute_budget num_embeds_to_schedule m =
     bindE (get_num_encoder_embeds r input_id) (\<lambda>n.
       if n > encoder_compute_budget then Inr (False, m)
       else
         let num_embeds = n + num_embeds_to_schedule in
         if num_embeds \<le> num_free_slots m then Inr (True, m)
         else if num_embeds > num_freeable_slots m then Inr (False, m)
         else bindE (evict_loop num_embeds m) (\<lambda>m. Inr (True, m)))"

definition ec_allocate :: "request \<Rightarrow> int \<Rightarrow> encoder_cache_manager \<Rightarrow> encoder_cache_manager result" where
  "ec_allocate r input_id m =
     bindE (py_index (mm_features r) input_id) (\<lambda>f.
     let mm_hash = mm_identifier f;
         m = (if dict_get (ec_cached m) mm_hash = None
              then m\<lparr>ec_cached := dict_set mm_hash [] (ec_cached m)\<rparr> else m)
     in bindE (get_num_encoder_embeds r input_id) (\<lambda>num_encoder_embeds.
        bindE (assertE (num_free_slots m \<ge> num_encoder_embeds)) (\<lambda>_.
        bindE (assertE (num_freeable_slots m \<ge> num_encoder_embeds)) (\<lambda>_.
          Inr (m\<lparr>ec_cached := dict_set mm_hash
                   (List.insert (request_id r) (dict_get_default (ec_cached m) mm_hash [])) (ec_cached m),
                 request_cached_ids := add_cached_id (request_id r) input_id (request_cached_ids m),
                 num_free_slots := num_free_slots m - num_encoder_embeds,
                 num_freeable_slots := num_freeable_slots m - num_encoder_embeds\<rparr>)))))"

definition get_cached_input_ids :: "request \<Rightarrow> encoder_cache_manager \<Rightarrow> int list" where
  "get_cached_input_ids r m = dict_get_default (request_cached_ids m) (request_id r) []"

text \<open>The first statement of \<open>free_encoder_input\<close>.\<close>

definition discard_cached_id :: "string \<Rightarrow> int \<Rightarrow> (string, int list) dict \<Rightarrow> (string, int list) dict" where
  "discard_cached_id rid input_id d =
     (case dict_get d rid of
        None \<Rightarrow> d
      | Some ids \<Rightarrow>
          let ids' = removeAll input_id ids
          in if ids' = [] then dict_del rid d else dict_set rid ids' d)"

definition free_encoder_input ::
  "request \<Rightarrow> int \<Rightarrow> encoder_cache_manager \<Rightarrow> encoder_cache_manager result" where
  "free_encoder_input r input_id m =
     bindE (py_index (mm_features r) input_id) (\<lambda>f.
     let mm_hash = mm_identifier f;
         m = m\<lparr>request_cached_ids := discard_cached_id (request_id r) input_id (request_cached_ids m)\<rparr>;
         refs = dict_get_default (ec_cached m) mm_hash []
     in if refs = [] then Inr m
        else
          let refs' = removeAll (request_id r) refs;
              m = m\<lparr>ec_cached := dict_set mm_hash refs' (ec_cached m)\<rparr>
          in if refs' \<noteq> [] then Inr m
             else bindE (get_num_encoder_embeds r input_id) (\<lambda>n.
               Inr (m\<lparr>ec_freeable := dict_set mm_hash n (ec_freeable m),
                      num_freeable_slots := num_freeable_slots m + n\<rparr>)))"

definition ec_free ::
  "(int list \<Rightarrow> int list) \<Rightarrow> request \<Rightarrow> encoder_cache_manager \<Rightarrow> encoder_cache_manager result" where
  "ec_free set_order r m = foldE (free_encoder_input r) (set_order (get_cached_input_ids r m)) m"

definition get_freed_mm_hashes :: "encoder_cache_manager \<Rightarrow> string list \<times> encoder_cache_manager" where
  "get_freed_mm_hashes m = (ec_freed m, m\<lparr>ec_freed := []\<rparr>)"

subsection \<open>The encoder budget\<close>

record mm_budget_config =
  disable_chunked_mm_input :: bool
  max_num_batched_tokens :: int
  max_num_encoder_input_tokens :: int
  encoder_cache_size :: int

definition compute_mm_encoder_budget ::
  "mm_budget_config \<Rightarrow> (string, int) dict \<Rightarrow> (int \<times> int) result" where
  "compute_mm_encoder_budget cfg mm_max_toks_per_item =
     (if mm_max_toks_per_item = [] then Inr (0, 0)
      else
        let max_tokens_per_mm_item = Max (set (dict_values mm_max_toks_per_item)) in
        if disable_chunked_mm_input cfg \<and> max_tokens_per_mm_item > max_num_batched_tokens cfg
        then Inl ValueError
        else Inr (max (max_num_encoder_input_tokens cfg) max_tokens_per_mm_item,
                  max (encoder_cache_size cfg) max_tokens_per_mm_item))"

subsection \<open>Encoder-decoder models\<close>

record encoder_decoder_cache_manager =
  ed_cache_size :: int
  ed_num_free_slots :: int
  ed_allocated :: "string list"
  ed_to_free :: "string list"

definition ed_init :: "int \<Rightarrow> encoder_decoder_cache_manager" where
  "ed_init capacity =
     \<lparr>ed_cache_size = capacity, ed_num_free_slots = capacity, ed_allocated = [], ed_to_free = []\<rparr>"

definition ed_reset :: "encoder_decoder_cache_manager \<Rightarrow> encoder_decoder_cache_manager" where
  "ed_reset m = m\<lparr>ed_num_free_slots := ed_cache_size m, ed_allocated := [], ed_to_free := []\<rparr>"

definition ed_check_and_update_cache ::
  "request \<Rightarrow> int \<Rightarrow> encoder_decoder_cache_manager \<Rightarrow> bool" where
  "ed_check_and_update_cache r input_id m = False"

definition ed_can_allocate ::
  "request \<Rightarrow> int \<Rightarrow> int \<Rightarrow> int \<Rightarrow> encoder_decoder_cache_manager \<Rightarrow> bool result" where
  "ed_can_allocate r input_id encoder_compute_budget num_embeds_to_schedule m =
     bindE (get_num_encoder_embeds r input_id) (\<lambda>n.
       if n > encoder_compute_budget then Inr False
       else Inr (n + num_embeds_to_schedule \<le> ed_num_free_slots m))"

definition ed_allocate ::
  "request \<Rightarrow> int \<Rightarrow> encoder_decoder_cache_manager \<Rightarrow> encoder_decoder_cache_manager result" where
  "ed_allocate r input_id m =
     bindE (get_num_encoder_embeds r input_id) (\<lambda>n.
     bindE (py_index (mm_features r) input_id) (\<lambda>f.
       Inr (m\<lparr>ed_num_free_slots := ed_num_free_slots m - n,
              ed_allocated := ed_allocated m @ [mm_identifier f]\<rparr>)))"

definition ed_free_encoder_input ::
  "request \<Rightarrow> int \<Rightarrow> encoder_decoder_cache_manager \<Rightarrow> encoder_decoder_cache_manager result" where
  "ed_free_encoder_input r input_id m =
     bindE (get_num_encoder_embeds r input_id) (\<lambda>n.
       Inr (m\<lparr>ed_num_free_slots := ed_num_free_slots m + n\<rparr>))"

definition ed_free ::
  "request \<Rightarrow> encoder_decoder_cache_manager \<Rightarrow> encoder_decoder_cache_manager result" where
  "ed_free r m = foldE (ed_free_encoder_input r) [0..int (length (mm_features r)) - 1] m"

definition ed_get_cached_input_ids :: "request \<Rightarrow> encoder_decoder_cache_manager \<Rightarrow> int list" where
  "ed_get_cached_input_ids r m = [0..int (length (mm_features r)) - 1]"

definition ed_get_freed_mm_hashes ::
  "encoder_decoder_cache_manager \<Rightarrow> string list \<times> encoder_decoder_cache_manager" where
  "ed_get_freed_mm_hashes m = (ed_to_free m, m\<lparr>ed_to_free := ed_allocated m, ed_allocated := []\<rparr>)"

subsection \<open>The accounting invariant\<close>

text \<open>
  \<open>sz h\<close> is the number of embeddings of the item with hash \<open>h\<close>; equal hashes stand for equal items.
  An entry is pinned while a request references it. The unreferenced entries are exactly the
  reclaimable ones, and both counters follow from the entries.
\<close>

definition embeds_sized :: "(string \<Rightarrow> int) \<Rightarrow> request \<Rightarrow> bool" where
  "embeds_sized sz r \<longleftrightarrow>
     (\<forall>f \<in> set (mm_features r). get_num_embeds (mm_position f) = sz (mm_identifier f))"

definition pinned :: "encoder_cache_manager \<Rightarrow> string set" where
  "pinned m = {h. \<exists>x xs. dict_get (ec_cached m) h = Some (x # xs)}"

definition ec_ok :: "(string \<Rightarrow> int) \<Rightarrow> encoder_cache_manager \<Rightarrow> bool" where
  "ec_ok sz m \<longleftrightarrow>
     (\<forall>h. 0 \<le> sz h) \<and> distinct (dict_keys (ec_freeable m)) \<and>
     (\<forall>h. dict_get (ec_freeable m) h = (if dict_get (ec_cached m) h = Some [] then Some (sz h) else None)) \<and>
     num_free_slots m = cache_size m - (\<Sum>h \<in> dom (dict_get (ec_cached m)). sz h) \<and>
     num_freeable_slots m = cache_size m - (\<Sum>h \<in> pinned m. sz h) \<and>
     0 \<le> num_free_slots m"

lemma pinned_subset: "pinned m \<subseteq> dom (dict_get (ec_cached m))"
  by (auto simp: pinned_def)

lemma finite_pinned [simp]: "finite (pinned m)"
  by (rule finite_subset[OF pinned_subset finite_dom_map_of])

lemma ec_ok_bounds:
  assumes "ec_ok sz m"
  shows "0 \<le> num_free_slots m" and "num_free_slots m \<le> num_freeable_slots m"
    and "num_freeable_slots m \<le> cache_size m"
proof -
  have nn: "0 \<le> sz h" for h using assms by (simp add: ec_ok_def)
  then have "(\<Sum>h \<in> pinned m. sz h) \<le> (\<Sum>h \<in> dom (dict_get (ec_cached m)). sz h)"
    by (intro sum_mono2 finite_dom_map_of pinned_subset) simp_all
  moreover have "0 \<le> (\<Sum>h \<in> pinned m. sz h)" by (rule sum_nonneg) (rule nn)
  ultimately show "0 \<le> num_free_slots m" "num_free_slots m \<le> num_freeable_slots m"
    "num_freeable_slots m \<le> cache_size m" using assms by (simp_all add: ec_ok_def)
qed

lemma get_num_encoder_embeds_ok:
  assumes "embeds_sized sz r" and "py_index (mm_features r) i = Inr f"
  shows "get_num_encoder_embeds r i = Inr (sz (mm_identifier f))" and "f \<in> set (mm_features r)"
proof -
  from assms(2) show f: "f \<in> set (mm_features r)" by (auto simp: py_index_def Let_def split: if_splits)
  from assms(2) have "i < int (length (mm_features r))"
    by (auto simp: py_index_def Let_def split: if_splits)
  with assms f show "get_num_encoder_embeds r i = Inr (sz (mm_identifier f))"
    by (simp add: get_num_encoder_embeds_def embeds_sized_def)
qed

lemma dom_set: "dom (dict_get (dict_set h v d)) = insert h (dom (dict_get d))"
  by (auto simp: update_conv')

lemma check_and_update_ok:
  assumes ok: "ec_ok sz m" and f: "py_index (mm_features r) i = Inr f"
  shows "\<exists>m'. check_and_update_cache r i m = Inr (dict_get (ec_cached m) (mm_identifier f) \<noteq> None, m') \<and>
    ec_ok sz m' \<and> cache_size m' = cache_size m \<and> num_free_slots m' = num_free_slots m \<and>
    dom (dict_get (ec_cached m')) = dom (dict_get (ec_cached m)) \<and>
    pinned m' = (if dict_get (ec_cached m) (mm_identifier f) = None then pinned m
                 else insert (mm_identifier f) (pinned m))"
proof (cases "dict_get (ec_cached m) (mm_identifier f)")
  case None
  with ok f show ?thesis by (simp add: check_and_update_cache_def)
next
  case (Some refs)
  let ?h = "mm_identifier f" and ?rid = "request_id r"
  have dom: "insert ?h (dom (dict_get (ec_cached m))) = dom (dict_get (ec_cached m))"
    using Some by auto
  show ?thesis
  proof (cases refs)
    case Nil
    let ?m = "m\<lparr>ec_freeable := dict_del ?h (ec_freeable m), num_freeable_slots := num_freeable_slots m - sz ?h,
      ec_cached := dict_set ?h [?rid] (ec_cached m),
      request_cached_ids := add_cached_id ?rid i (request_cached_ids m)\<rparr>"
    have run: "check_and_update_cache r i m = Inr (True, ?m)"
      using ok f Some Nil by (simp add: check_and_update_cache_def ec_ok_def Let_def)
    have pin: "pinned ?m = insert ?h (pinned m)" "?h \<notin> pinned m" using Some Nil by (auto simp: pinned_def)
    have "ec_ok sz ?m"
      unfolding ec_ok_def pin(1) using ok pin(2) Some dom
      by (simp add: ec_ok_def dict_keys_del_distinct dom_set)
    with run Some dom pin show ?thesis by (simp add: dom_set)
  next
    case (Cons x xs)
    let ?m = "m\<lparr>ec_cached := dict_set ?h (List.insert ?rid refs) (ec_cached m),
      request_cached_ids := add_cached_id ?rid i (request_cached_ids m)\<rparr>"
    have run: "check_and_update_cache r i m = Inr (True, ?m)"
      using f Some Cons by (simp add: check_and_update_cache_def)
    have "List.insert ?rid refs \<noteq> []" by (metis Cons list.distinct(1) list.set_intros(1) in_set_insert not_in_set_insert)
    then obtain y ys where ne: "List.insert ?rid refs = y # ys" by (cases "List.insert ?rid refs") auto
    have pin: "pinned ?m = pinned m" using Some Cons ne by (auto simp: pinned_def)
    have ins: "insert ?h (pinned m) = pinned m" using Some Cons by (auto simp: pinned_def)
    have "ec_ok sz ?m"
      unfolding ec_ok_def pin using ok Some Cons dom ne by (simp add: ec_ok_def dom_set)
    with run Some dom pin ins show ?thesis by (simp add: dom_set)
  qed
qed

lemma dom_del: "dom (dict_get (dict_del h d)) = dom (dict_get d) - {h}"
  by (auto simp: delete_conv' split: if_splits)

lemma evict_one_ok:
  assumes ok: "ec_ok sz m" and fr: "ec_freeable m = (h, n) # rest"
  defines "m' \<equiv> m\<lparr>ec_freeable := rest, ec_cached := dict_del h (ec_cached m),
    ec_freed := ec_freed m @ [h], num_free_slots := num_free_slots m + n\<rparr>"
  shows "dict_get (ec_cached m) h = Some [] \<and> n = sz h \<and> ec_ok sz m'"
proof -
  have "dict_get (ec_freeable m) h = Some n" by (simp add: fr)
  then have h: "dict_get (ec_cached m) h = Some []" "n = sz h"
    using ok by (auto simp: ec_ok_def split: if_splits)
  have pin: "pinned m' = pinned m" using h(1) by (auto simp: pinned_def m'_def)
  have "(\<Sum>k \<in> dom (dict_get (ec_cached m)) - {h}. sz k) = (\<Sum>k \<in> dom (dict_get (ec_cached m)). sz k) - sz h"
    by (rule sum_diff1[THEN trans]) (use h in \<open>auto simp: finite_dom_map_of\<close>)
  moreover have "dict_get rest k = (if dict_get (dict_del h (ec_cached m)) k = Some [] then Some (sz k) else None)" for k
  proof -
    have "dict_get (ec_freeable m) k = (if dict_get (ec_cached m) k = Some [] then Some (sz k) else None)"
      using ok by (simp add: ec_ok_def)
    moreover have "h \<notin> fst ` set rest" using ok by (simp add: ec_ok_def fr)
    ultimately show ?thesis by (auto simp: fr map_of_eq_None_iff split: if_splits)
  qed
  ultimately have "ec_ok sz m'"
    unfolding ec_ok_def pin using ok h(2)
    by (simp add: ec_ok_def m'_def dom_del fr delete_conv' del: dict_get_del)
  with h show ?thesis by simp
qed

text \<open>
  The loop ends, evicts a prefix of the reclaimable entries, and stops as soon as there is room.
\<close>

lemma evict_loop_ok:
  assumes "ec_ok sz m" and "need \<le> num_freeable_slots m"
  shows "\<exists>m' k. evict_loop need m = Inr m' \<and> k \<le> length (ec_freeable m) \<and> ec_ok sz m' \<and>
    need \<le> num_free_slots m' \<and> num_freeable_slots m' = num_freeable_slots m \<and>
    cache_size m' = cache_size m \<and> request_cached_ids m' = request_cached_ids m \<and>
    ec_freeable m' = drop k (ec_freeable m) \<and>
    ec_freed m' = ec_freed m @ map fst (take k (ec_freeable m)) \<and>
    (\<forall>j < k. num_free_slots m + (\<Sum>(h, n) \<leftarrow> take j (ec_freeable m). n) < need) \<and>
    (\<forall>h. dict_get (ec_cached m') h =
      (if h \<in> fst ` set (take k (ec_freeable m)) then None else dict_get (ec_cached m) h))"
  using assms
proof (induction "length (ec_freeable m)" arbitrary: m)
  case 0
  then have none: "dict_get (ec_cached m) h \<noteq> Some []" for h
    by (auto simp: ec_ok_def split: if_splits)
  have "pinned m = dom (dict_get (ec_cached m))"
  proof
    show "dom (dict_get (ec_cached m)) \<subseteq> pinned m"
    proof
      fix h assume "h \<in> dom (dict_get (ec_cached m))"
      then obtain xs where "dict_get (ec_cached m) h = Some xs" by auto
      then show "h \<in> pinned m" using none[of h] by (cases xs) (auto simp: pinned_def)
    qed
  qed (rule pinned_subset)
  then have "num_free_slots m = num_freeable_slots m" using 0 by (simp add: ec_ok_def)
  then show ?case using 0 by (intro exI[of _ m] exI[of _ 0]) (simp add: evict_loop.simps)
next
  case (Suc l)
  show ?case
  proof (cases "need \<le> num_free_slots m")
    case True
    then show ?thesis using Suc.prems by (intro exI[of _ m] exI[of _ 0]) (simp add: evict_loop.simps)
  next
    case False
    from Suc.hyps(2) obtain h n rest where fr: "ec_freeable m = (h, n) # rest"
      by (cases "ec_freeable m") auto
    define m1 where "m1 = m\<lparr>ec_freeable := rest, ec_cached := dict_del h (ec_cached m),
      ec_freed := ec_freed m @ [h], num_free_slots := num_free_slots m + n\<rparr>"
    have one: "dict_get (ec_cached m) h = Some []" "ec_ok sz m1"
      using evict_one_ok[OF Suc.prems(1) fr] unfolding m1_def by blast+
    have run: "evict_loop need m = evict_loop need m1"
      using False one(1) fr by (simp add: evict_loop.simps[of need m] m1_def)
    have "l = length (ec_freeable m1)" "need \<le> num_freeable_slots m1"
      using Suc fr by (simp_all add: m1_def)
    from Suc.hyps(1)[OF this(1) one(2) this(2)] obtain m' k where IH:
      "evict_loop need m1 = Inr m'" "k \<le> length (ec_freeable m1)" "ec_ok sz m'"
      "need \<le> num_free_slots m'" "num_freeable_slots m' = num_freeable_slots m1"
      "cache_size m' = cache_size m1" "request_cached_ids m' = request_cached_ids m1"
      "ec_freeable m' = drop k (ec_freeable m1)"
      "ec_freed m' = ec_freed m1 @ map fst (take k (ec_freeable m1))"
      "\<forall>j < k. num_free_slots m1 + (\<Sum>(h, n) \<leftarrow> take j (ec_freeable m1). n) < need"
      "\<forall>h. dict_get (ec_cached m') h =
        (if h \<in> fst ` set (take k (ec_freeable m1)) then None else dict_get (ec_cached m1) h)"
      by blast
    have "num_free_slots m + (\<Sum>(h, n) \<leftarrow> take j (ec_freeable m). n) < need" if "j < Suc k" for j
    proof (cases j)
      case 0
      then show ?thesis using False by simp
    next
      case (Suc i)
      then show ?thesis using IH(10) that by (auto simp: fr m1_def algebra_simps)
    qed
    moreover have "\<forall>x. dict_get (ec_cached m') x =
        (if x \<in> fst ` set (take (Suc k) (ec_freeable m)) then None else dict_get (ec_cached m) x)"
      using IH(11) by (auto simp: fr m1_def)
    ultimately show ?thesis
      using IH(1-9) run by (intro exI[of _ m'] exI[of _ "Suc k"]) (simp add: fr m1_def)
  qed
qed

lemma evict_pinned:
  assumes ok: "ec_ok sz m" and ev: "\<forall>h. dict_get (ec_cached m') h =
    (if h \<in> fst ` set (take k (ec_freeable m)) then None else dict_get (ec_cached m) h)"
  shows "pinned m' = pinned m"
proof (rule set_eqI)
  fix h
  have "dict_get (ec_cached m) h = Some []" if "h \<in> fst ` set (take k (ec_freeable m))"
  proof -
    have "h \<in> fst ` set (ec_freeable m)" using that by (auto dest: in_set_takeD)
    then have "dict_get (ec_freeable m) h \<noteq> None" by (simp add: map_of_eq_None_iff)
    then show ?thesis using ok by (auto simp: ec_ok_def split: if_splits)
  qed
  then show "h \<in> pinned m' \<longleftrightarrow> h \<in> pinned m"
    using ev[rule_format, of h] unfolding pinned_def mem_Collect_eq
    by (cases "h \<in> fst ` set (take k (ec_freeable m))") (simp_all only: if_True if_False, simp)
qed

lemma can_allocate_ok:
  assumes ok: "ec_ok sz m" and sized: "embeds_sized sz r" and f: "py_index (mm_features r) i = Inr f"
  shows "\<exists>b m' k. can_allocate r i budget sched m = Inr (b, m') \<and> ec_ok sz m' \<and>
    (b \<longleftrightarrow> sz (mm_identifier f) \<le> budget \<and> sz (mm_identifier f) + sched \<le> num_freeable_slots m) \<and>
    (b \<longrightarrow> sz (mm_identifier f) + sched \<le> num_free_slots m') \<and> (\<not> b \<longrightarrow> m' = m) \<and>
    num_freeable_slots m' = num_freeable_slots m \<and> cache_size m' = cache_size m \<and>
    request_cached_ids m' = request_cached_ids m \<and> ec_freeable m' = drop k (ec_freeable m) \<and>
    ec_freed m' = ec_freed m @ map fst (take k (ec_freeable m)) \<and>
    (\<forall>j < k. num_free_slots m + (\<Sum>(h, n) \<leftarrow> take j (ec_freeable m). n) < sz (mm_identifier f) + sched) \<and>
    (\<forall>h. dict_get (ec_cached m') h =
      (if h \<in> fst ` set (take k (ec_freeable m)) then None else dict_get (ec_cached m) h)) \<and>
    pinned m' = pinned m"
proof -
  let ?n = "sz (mm_identifier f)"
  have n: "get_num_encoder_embeds r i = Inr ?n" by (rule get_num_encoder_embeds_ok[OF sized f])
  have le: "num_free_slots m \<le> num_freeable_slots m" by (rule ec_ok_bounds[OF ok])
  consider "?n > budget" | "?n \<le> budget" "?n + sched \<le> num_free_slots m"
    | "?n \<le> budget" "num_freeable_slots m < ?n + sched"
    | "?n \<le> budget" "num_free_slots m < ?n + sched" "?n + sched \<le> num_freeable_slots m" by linarith
  then show ?thesis
  proof cases
    case 1
    with ok n show ?thesis by (intro exI[of _ False] exI[of _ m] exI[of _ 0]) (simp add: can_allocate_def)
  next
    case 2
    with ok n le show ?thesis
      by (intro exI[of _ True] exI[of _ m] exI[of _ 0]) (simp add: can_allocate_def)
  next
    case 3
    with ok n le show ?thesis
      by (intro exI[of _ False] exI[of _ m] exI[of _ 0]) (simp add: can_allocate_def)
  next
    case 4
    from evict_loop_ok[OF ok 4(3)] obtain m' k where e:
      "evict_loop (?n + sched) m = Inr m'" "ec_ok sz m'"
      "?n + sched \<le> num_free_slots m'" "num_freeable_slots m' = num_freeable_slots m"
      "cache_size m' = cache_size m" "request_cached_ids m' = request_cached_ids m"
      "ec_freeable m' = drop k (ec_freeable m)"
      "ec_freed m' = ec_freed m @ map fst (take k (ec_freeable m))"
      "\<forall>j < k. num_free_slots m + (\<Sum>(h, n) \<leftarrow> take j (ec_freeable m). n) < ?n + sched"
      "\<forall>h. dict_get (ec_cached m') h =
        (if h \<in> fst ` set (take k (ec_freeable m)) then None else dict_get (ec_cached m) h)"
      by blast
    then have "can_allocate r i budget sched m = Inr (True, m')"
      using 4 n by (simp add: can_allocate_def Let_def)
    with e 4 evict_pinned[OF ok e(10)] show ?thesis by blast
  qed
qed

lemma ec_allocate_ok:
  assumes ok: "ec_ok sz m" and sized: "embeds_sized sz r" and f: "py_index (mm_features r) i = Inr f"
    and new: "dict_get (ec_cached m) (mm_identifier f) = None"
    and room: "sz (mm_identifier f) \<le> num_free_slots m"
  shows "\<exists>m'. ec_allocate r i m = Inr m' \<and> ec_ok sz m' \<and> cache_size m' = cache_size m \<and>
    num_free_slots m' = num_free_slots m - sz (mm_identifier f) \<and>
    dom (dict_get (ec_cached m')) = insert (mm_identifier f) (dom (dict_get (ec_cached m))) \<and>
    pinned m' = insert (mm_identifier f) (pinned m)"
proof -
  let ?h = "mm_identifier f" and ?rid = "request_id r"
  let ?m = "m\<lparr>ec_cached := dict_set ?h [?rid] (dict_set ?h [] (ec_cached m)),
    request_cached_ids := add_cached_id ?rid i (request_cached_ids m),
    num_free_slots := num_free_slots m - sz ?h, num_freeable_slots := num_freeable_slots m - sz ?h\<rparr>"
  have n: "get_num_encoder_embeds r i = Inr (sz ?h)" by (rule get_num_encoder_embeds_ok[OF sized f])
  have "sz ?h \<le> num_freeable_slots m" using ec_ok_bounds[OF ok] room by linarith
  then have run: "ec_allocate r i m = Inr ?m"
    using n f new room by (simp add: ec_allocate_def Let_def dict_get_default_def)
  have pin: "pinned ?m = insert ?h (pinned m)" "?h \<notin> pinned m" using new by (auto simp: pinned_def)
  have dom: "dom (dict_get (ec_cached ?m)) = insert ?h (dom (dict_get (ec_cached m)))"
    by (auto split: if_splits)
  have "ec_ok sz ?m"
    unfolding ec_ok_def pin(1) dom using ok pin(2) new room
    by (auto simp: ec_ok_def finite_dom_map_of domIff dest: spec[of _ ?h])
  with run pin(1) show ?thesis by (simp add: dom_set)
qed

lemma free_encoder_input_ok:
  assumes ok: "ec_ok sz m" and sized: "embeds_sized sz r" and f: "py_index (mm_features r) i = Inr f"
  shows "\<exists>m'. free_encoder_input r i m = Inr m' \<and> ec_ok sz m' \<and> cache_size m' = cache_size m \<and>
    num_free_slots m' = num_free_slots m \<and> dom (dict_get (ec_cached m')) = dom (dict_get (ec_cached m))"
proof -
  let ?h = "mm_identifier f" and ?rid = "request_id r"
  let ?ids = "discard_cached_id ?rid i (request_cached_ids m)"
  have n: "get_num_encoder_embeds r i = Inr (sz ?h)" by (rule get_num_encoder_embeds_ok[OF sized f])
  show ?thesis
  proof (cases "dict_get_default (ec_cached m) ?h [] = []")
    case True
    then have "free_encoder_input r i m = Inr (m\<lparr>request_cached_ids := ?ids\<rparr>)"
      using f by (simp add: free_encoder_input_def Let_def)
    moreover have "ec_ok sz (m\<lparr>request_cached_ids := ?ids\<rparr>)" using ok by (simp add: ec_ok_def pinned_def)
    ultimately show ?thesis by simp
  next
    case False
    then obtain x xs where refs: "dict_get (ec_cached m) ?h = Some (x # xs)"
      by (cases "dict_get (ec_cached m) ?h") (auto simp: dict_get_default_def neq_Nil_conv)
    have dom: "dom (\<lambda>k. if k = ?h then Some v else dict_get (ec_cached m) k) = dom (dict_get (ec_cached m))" for v
      using refs by (auto split: if_splits)
    have dom': "dom (dict_get (dict_set ?h v (ec_cached m))) = dom (dict_get (ec_cached m))" for v
      using refs by (auto simp: dom_set split: if_splits)
    let ?refs' = "removeAll ?rid (x # xs)"
    let ?m1 = "m\<lparr>request_cached_ids := ?ids, ec_cached := dict_set ?h ?refs' (ec_cached m)\<rparr>"
    show ?thesis
    proof (cases "?refs' = []")
      case False
      then have "free_encoder_input r i m = Inr ?m1"
        using f refs by (simp add: free_encoder_input_def Let_def dict_get_default_def)
      moreover have "pinned ?m1 = pinned m" using refs False by (auto simp: pinned_def neq_Nil_conv)
      then have "ec_ok sz ?m1" using ok refs False dom by (auto simp: ec_ok_def)
      ultimately show ?thesis by (simp add: dom')
    next
      case True
      let ?m2 = "?m1\<lparr>ec_freeable := dict_set ?h (sz ?h) (ec_freeable m),
        num_freeable_slots := num_freeable_slots m + sz ?h\<rparr>"
      have run: "free_encoder_input r i m = Inr ?m2"
        using f refs True n by (simp add: free_encoder_input_def Let_def dict_get_default_def)
      have pin: "pinned ?m2 = pinned m - {?h}" "?h \<in> pinned m" using refs True by (auto simp: pinned_def)
      have "(\<Sum>h \<in> pinned m - {?h}. sz h) = (\<Sum>h \<in> pinned m. sz h) - sz ?h"
        using pin(2) by (simp add: sum_diff1)
      then have "ec_ok sz ?m2"
        unfolding ec_ok_def pin(1) using ok True dom
        by (auto simp: ec_ok_def dict_keys_set_distinct dom')
      with run show ?thesis by (simp add: dom')
    qed
  qed
qed

lemma free_encoder_input_inv:
  assumes "ec_ok sz m" and "embeds_sized sz r" and "free_encoder_input r i m = Inr m'"
  shows "ec_ok sz m' \<and> cache_size m' = cache_size m"
proof -
  from assms(3) obtain f where "py_index (mm_features r) i = Inr f"
    by (auto simp: free_encoder_input_def bindE_Inr_iff)
  from free_encoder_input_ok[OF assms(1,2) this] assms(3) show ?thesis by auto
qed

subsection \<open>Reachable states\<close>

text \<open>
  The operations the scheduler performs. It allocates an entry only after \<open>check_and_update_cache\<close>
  has found that the item is not cached.
\<close>

inductive ec_reach :: "(string \<Rightarrow> int) \<Rightarrow> int \<Rightarrow> encoder_cache_manager \<Rightarrow> bool" for sz capacity where
  start: "ec_reach sz capacity (ec_init capacity)"
| check: "ec_reach sz capacity m \<Longrightarrow> check_and_update_cache r i m = Inr (b, m') \<Longrightarrow>
    ec_reach sz capacity m'"
| room: "ec_reach sz capacity m \<Longrightarrow> embeds_sized sz r \<Longrightarrow>
    can_allocate r i budget sched m = Inr (b, m') \<Longrightarrow> ec_reach sz capacity m'"
| alloc: "ec_reach sz capacity m \<Longrightarrow> embeds_sized sz r \<Longrightarrow>
    check_and_update_cache r i m = Inr (False, m) \<Longrightarrow> ec_allocate r i m = Inr m' \<Longrightarrow>
    ec_reach sz capacity m'"
| drop_input: "ec_reach sz capacity m \<Longrightarrow> embeds_sized sz r \<Longrightarrow> free_encoder_input r i m = Inr m' \<Longrightarrow>
    ec_reach sz capacity m'"
| drop_all: "ec_reach sz capacity m \<Longrightarrow> embeds_sized sz r \<Longrightarrow> ec_free set_order r m = Inr m' \<Longrightarrow>
    ec_reach sz capacity m'"
| notify: "ec_reach sz capacity m \<Longrightarrow> ec_reach sz capacity (snd (get_freed_mm_hashes m))"
| restart: "ec_reach sz capacity m \<Longrightarrow> ec_reach sz capacity (ec_reset m)"

lemma ec_reach_ok:
  assumes "ec_reach sz capacity m" and nn: "\<forall>h. 0 \<le> sz h" and cap: "0 \<le> capacity"
  shows "ec_ok sz m \<and> cache_size m = capacity"
  using assms(1)
proof induction
  case start
  then show ?case using nn cap by (simp add: ec_ok_def ec_init_def pinned_def)
next
  case (check m r i b m')
  then obtain f where "py_index (mm_features r) i = Inr f"
    by (auto simp: check_and_update_cache_def bindE_Inr_iff)
  with check_and_update_ok[of sz m r i f] check show ?case by auto
next
  case (room m r i budget sched b m')
  then obtain f where "py_index (mm_features r) i = Inr f"
    by (auto simp: can_allocate_def get_num_encoder_embeds_def bindE_Inr_iff)
  with can_allocate_ok[of sz m r i f budget sched] room show ?case by auto
next
  case (alloc m r i m')
  then obtain f where f: "py_index (mm_features r) i = Inr f"
    by (auto simp: check_and_update_cache_def bindE_Inr_iff)
  have new: "dict_get (ec_cached m) (mm_identifier f) = None"
    using check_and_update_ok[of sz m r i f] f alloc by auto
  have "sz (mm_identifier f) \<le> num_free_slots m"
    using alloc f new get_num_encoder_embeds_ok(1)[OF _ f, of sz]
    by (auto simp: ec_allocate_def bindE_Inr_iff Let_def)
  with ec_allocate_ok[of sz m r i f] f new alloc show ?case by auto
next
  case (drop_input m r i m')
  then show ?case using free_encoder_input_inv[of sz m r i m'] by auto
next
  case (drop_all m r set_order m')
  then show ?case
    unfolding ec_free_def
    by (elim foldE_invariant[where P = "\<lambda>m. ec_ok sz m \<and> cache_size m = capacity"])
      (auto dest: free_encoder_input_inv)
next
  case (notify m)
  then show ?case by (simp add: get_freed_mm_hashes_def ec_ok_def pinned_def)
next
  case (restart m)
  then show ?case using nn cap by (simp add: ec_reset_def ec_ok_def pinned_def)
qed

subsection \<open>Properties\<close>

text \<open>C22. In every reachable state of the encoder cache the counters are exact: the free slots are
  the capacity minus the size of all entries, the freeable slots the capacity minus the size of
  the entries some request references; so the entries never exceed the capacity. The reclaimable
  entries are exactly the unreferenced ones, each with its size.\<close>

theorem encoder_cache_invariant:
  assumes "ec_reach sz capacity m" and "\<forall>h. 0 \<le> sz h" and "0 \<le> capacity"
  shows "num_free_slots m = capacity - (\<Sum>h \<in> dom (dict_get (ec_cached m)). sz h) \<and>
    num_freeable_slots m = capacity - (\<Sum>h \<in> pinned m. sz h) \<and>
    0 \<le> num_free_slots m \<and> num_free_slots m \<le> num_freeable_slots m \<and> num_freeable_slots m \<le> capacity \<and>
    (\<forall>h. dict_get (ec_freeable m) h = (if dict_get (ec_cached m) h = Some [] then Some (sz h) else None))"
proof -
  have ok: "ec_ok sz m" and cap: "cache_size m = capacity" using ec_reach_ok[OF assms] by simp_all
  from ec_ok_bounds[OF ok] ok show ?thesis unfolding ec_ok_def cap by blast
qed

definition ex_mm_request :: request where
  "ex_mm_request = ex_request [1, 2] [ex_input ''a'' 0]"

lemma ex_mm_request_facts:
  "mm_features ex_mm_request = [ex_input ''a'' 0]" "embeds_sized (\<lambda>_. 1) ex_mm_request"
  "get_num_encoder_embeds ex_mm_request 0 = Inr 1" "num_encoder_inputs ex_mm_request = 1"
proof -
  have "mm_sorted [ex_input ''a'' 0]" by (simp add: mm_sorted_def ex_input_def)
  then show f: "mm_features ex_mm_request = [ex_input ''a'' 0]"
    unfolding ex_mm_request_def by (rule ex_request_ok(3))
  show "embeds_sized (\<lambda>_. 1) ex_mm_request" "get_num_encoder_embeds ex_mm_request 0 = Inr 1"
    "num_encoder_inputs ex_mm_request = 1"
    by (simp_all add: embeds_sized_def f ex_input_def get_num_embeds_def embeds_cumsum_def
        get_num_encoder_embeds_def py_index_def num_encoder_inputs_def)
qed

theorem encoder_cache_invariant_witness:
  "\<exists>m. ec_allocate ex_mm_request 0 (ec_init 4) = Inr m \<and> dict_get (ec_cached m) ''a'' \<noteq> None \<and>
     0 \<le> num_free_slots m \<and> num_free_slots m \<le> num_freeable_slots m \<and> num_freeable_slots m \<le> 4"
proof -
  obtain m where m: "ec_allocate ex_mm_request 0 (ec_init 4) = Inr m" "dict_get (ec_cached m) ''a'' \<noteq> None"
    by (simp add: ec_allocate_def ex_mm_request_facts ec_init_def py_index_def ex_input_def Let_def)
  have "check_and_update_cache ex_mm_request 0 (ec_init 4) = Inr (False, ec_init 4)"
    by (simp add: check_and_update_cache_def ex_mm_request_facts ec_init_def py_index_def)
  from ec_reach.alloc[OF ec_reach.start ex_mm_request_facts(2) this m(1)]
  have "ec_reach (\<lambda>_. 1) 4 m" .
  from encoder_cache_invariant[OF this] m show ?thesis by auto
qed



text \<open>C24. The budget admits every item the model can produce: if no entry of the cache is referenced
  and the compute budget of the step is unused, an item with at most as many embeddings as the
  longest item of some modality can be allocated.\<close>

theorem every_item_can_be_scheduled:
  assumes "compute_mm_encoder_budget cfg mm_max = Inr (budget, capacity)"
    and "ec_reach sz capacity m" and "\<forall>h. 0 \<le> sz h" and "0 \<le> capacity" and "pinned m = {}"
    and "embeds_sized sz r" and "py_index (mm_features r) i = Inr f"
    and "(kind, max_toks) \<in> set mm_max" and "sz (mm_identifier f) \<le> max_toks"
  shows "\<exists>m'. can_allocate r i budget 0 m = Inr (True, m') \<and>
    (dict_get (ec_cached m) (mm_identifier f) = None \<longrightarrow> (\<exists>m''. ec_allocate r i m' = Inr m''))"
proof -
  have ok: "ec_ok sz m" "cache_size m = capacity" using ec_reach_ok[OF assms(2-4)] by simp_all
  have "max_toks \<in> set (dict_values mm_max)" using assms(8) by force
  then have "max_toks \<le> Max (set (dict_values mm_max))" by simp
  then have "max_toks \<le> budget" "max_toks \<le> capacity"
    using assms(1,8) by (auto simp: compute_mm_encoder_budget_def Let_def split: if_splits)
  moreover have "num_freeable_slots m = capacity" using ok assms(5) by (simp add: ec_ok_def)
  ultimately have fits: "sz (mm_identifier f) \<le> budget" "sz (mm_identifier f) + 0 \<le> num_freeable_slots m"
    using assms(9) by simp_all
  from can_allocate_ok[OF ok(1) assms(6,7), of budget 0] obtain b m' where
    b: "can_allocate r i budget 0 m = Inr (b, m')" "ec_ok sz m'"
      "b \<longleftrightarrow> sz (mm_identifier f) \<le> budget \<and> sz (mm_identifier f) + 0 \<le> num_freeable_slots m"
      "b \<longrightarrow> sz (mm_identifier f) + 0 \<le> num_free_slots m'"
      "\<exists>S. \<forall>h. dict_get (ec_cached m') h = (if h \<in> S then None else dict_get (ec_cached m) h)" by blast
  have "\<exists>m''. ec_allocate r i m' = Inr m''" if "dict_get (ec_cached m) (mm_identifier f) = None"
  proof -
    have "dict_get (ec_cached m') (mm_identifier f) = None" using b(5) that by auto
    from ec_allocate_ok[OF b(2) assms(6,7) this] b fits show ?thesis by auto
  qed
  moreover have "can_allocate r i budget 0 m = Inr (True, m')" using b(1,3) fits by simp
  ultimately show ?thesis by auto
qed

theorem every_item_can_be_scheduled_witness:
  "\<exists>m' m''. can_allocate ex_mm_request 0 8 0 (ec_init 8) = Inr (True, m') \<and>
     ec_allocate ex_mm_request 0 m' = Inr m''"
proof -
  let ?cfg = "\<lparr>disable_chunked_mm_input = False, max_num_batched_tokens = 8,
    max_num_encoder_input_tokens = 8, encoder_cache_size = 8\<rparr>"
  have "compute_mm_encoder_budget ?cfg [(''image'', 5)] = Inr (8, 8)"
    by (simp add: compute_mm_encoder_budget_def)
  moreover have "py_index (mm_features ex_mm_request) 0 = Inr (ex_input ''a'' 0)"
    by (simp add: ex_mm_request_facts py_index_def)
  ultimately show ?thesis
    using every_item_can_be_scheduled[of ?cfg "[(''image'', 5)]" 8 8 "\<lambda>_. 1" "ec_init 8" ex_mm_request 0
        "ex_input ''a'' 0" "''image''" 5] ec_reach.start[of "\<lambda>_. 1" 8]
    by (auto simp: ex_mm_request_facts pinned_def ec_init_def)
qed

end
