(* ===== verification/Encoder_Scheduling.thy ===== *)
theory Encoder_Scheduling
  imports Encoder_Cache "HOL-Library.Multiset"
begin

section \<open>Scheduling of encoder inputs\<close>

text \<open>
  \<open>Scheduler._try_schedule_encoder_inputs\<close> and \<open>Scheduler._free_encoder_inputs\<close> of
  vllm/v1/core/sched/scheduler.py with \<open>get_mm_features_in_window\<close> of vllm/multimodal/utils.py, over
  the two cache managers; \<open>bisect.bisect_left\<close> is the binary search of the standard library. The
  remote encoder cache is a parameter: the predicate of its \<open>has_cache_item\<close>, if there is one.
\<close>

datatype encoder_manager =
    MultiModalManager encoder_cache_manager
  | EncoderDecoderManager encoder_decoder_cache_manager

fun em_check_and_update_cache ::
  "request \<Rightarrow> int \<Rightarrow> encoder_manager \<Rightarrow> (bool \<times> encoder_manager) result" where
  "em_check_and_update_cache r i (MultiModalManager m) =
     bindE (check_and_update_cache r i m) (\<lambda>(b, m). Inr (b, MultiModalManager m))"
| "em_check_and_update_cache r i (EncoderDecoderManager m) =
     Inr (ed_check_and_update_cache r i m, EncoderDecoderManager m)"

fun em_can_allocate ::
  "request \<Rightarrow> int \<Rightarrow> int \<Rightarrow> int \<Rightarrow> encoder_manager \<Rightarrow> (bool \<times> encoder_manager) result" where
  "em_can_allocate r i budget n (MultiModalManager m) =
     bindE (can_allocate r i budget n m) (\<lambda>(b, m). Inr (b, MultiModalManager m))"
| "em_can_allocate r i budget n (EncoderDecoderManager m) =
     bindE (ed_can_allocate r i budget n m) (\<lambda>b. Inr (b, EncoderDecoderManager m))"

fun em_allocate :: "request \<Rightarrow> int \<Rightarrow> encoder_manager \<Rightarrow> encoder_manager result" where
  "em_allocate r i (MultiModalManager m) = bindE (ec_allocate r i m) (\<lambda>m. Inr (MultiModalManager m))"
| "em_allocate r i (EncoderDecoderManager m) =
     bindE (ed_allocate r i m) (\<lambda>m. Inr (EncoderDecoderManager m))"

fun em_get_cached_input_ids :: "request \<Rightarrow> encoder_manager \<Rightarrow> int list" where
  "em_get_cached_input_ids r (MultiModalManager m) = get_cached_input_ids r m"
| "em_get_cached_input_ids r (EncoderDecoderManager m) = ed_get_cached_input_ids r m"

fun em_free_encoder_input :: "request \<Rightarrow> int \<Rightarrow> encoder_manager \<Rightarrow> encoder_manager result" where
  "em_free_encoder_input r i (MultiModalManager m) =
     bindE (free_encoder_input r i m) (\<lambda>m. Inr (MultiModalManager m))"
| "em_free_encoder_input r i (EncoderDecoderManager m) =
     bindE (ed_free_encoder_input r i m) (\<lambda>m. Inr (EncoderDecoderManager m))"

subsection \<open>The inputs in a window\<close>

function bisect_left_loop :: "('a \<Rightarrow> int) \<Rightarrow> 'a list \<Rightarrow> int \<Rightarrow> nat \<Rightarrow> nat \<Rightarrow> nat" where
  "bisect_left_loop key a x lo hi =
     (if lo < hi then
        let mid = (lo + hi) div 2
        in if key (a ! mid) < x then bisect_left_loop key a x (mid + 1) hi
           else bisect_left_loop key a x lo mid
      else lo)"
  by pat_completeness auto
termination
  by (relation "measure (\<lambda>(k, a, x, lo, hi). hi - lo)") auto

declare bisect_left_loop.simps [simp del]

definition bisect_left :: "('a \<Rightarrow> int) \<Rightarrow> 'a list \<Rightarrow> int \<Rightarrow> int" where
  "bisect_left key a x = int (bisect_left_loop key a x 0 (length a))"

definition get_mm_features_in_window :: "mm_feature list \<Rightarrow> int \<Rightarrow> int \<Rightarrow> int \<times> int" where
  "get_mm_features_in_window feats start stop =
     (bisect_left mm_end feats (start + 1), bisect_left mm_offset feats stop)"

subsection \<open>Choosing the inputs of a step\<close>

record encoder_sched_config =
  is_encoder_decoder :: bool
  no_chunked_mm_input :: bool
  ec_has_cache_item :: "(string \<Rightarrow> bool) option"

record encoder_sched_state =
  encoder_inputs_to_schedule :: "int list"
  es_num_new_tokens :: int
  es_compute_budget :: int
  external_load_encoder_input :: "int list"
  mm_hashes_to_schedule :: "string list"
  es_num_embeds :: int
  es_manager :: encoder_manager

fun schedule_inputs_loop ::
  "encoder_sched_config \<Rightarrow> request \<Rightarrow> int \<Rightarrow> int \<Rightarrow> int list \<Rightarrow> encoder_sched_state \<Rightarrow>
     encoder_sched_state result" where
  "schedule_inputs_loop cfg r n_computed shift [] st = Inr st"
| "schedule_inputs_loop cfg r n_computed shift (i # is) st =
     bindE (py_index (mm_features r) i) (\<lambda>f.
     let start_pos = mm_offset f;
         num_encoder_tokens = range_length (mm_position f);
         num_encoder_embeds = get_num_embeds (mm_position f);
         item = mm_identifier f
     in
     if is_encoder_decoder cfg \<and> n_computed > 0 then
       bindE (assertE (start_pos = 0)) (\<lambda>_. schedule_inputs_loop cfg r n_computed shift is st)
     else if \<not> is_encoder_decoder cfg \<and> item \<in> set (mm_hashes_to_schedule st) then
       schedule_inputs_loop cfg r n_computed shift is st
     else
       bindE (if is_encoder_decoder cfg then Inr (False, es_manager st)
              else em_check_and_update_cache r i (es_manager st)) (\<lambda>(hit, mgr).
       let st = st\<lparr>es_manager := mgr\<rparr> in
       if hit then schedule_inputs_loop cfg r n_computed shift is st
       else if no_chunked_mm_input cfg \<and> n_computed < start_pos \<and>
               n_computed + es_num_new_tokens st < start_pos + num_encoder_tokens then
         Inr (st\<lparr>es_num_new_tokens := max 0 (start_pos - (n_computed + shift))\<rparr>)
       else
         bindE (em_can_allocate r i (es_compute_budget st) (es_num_embeds st) mgr) (\<lambda>(ok, mgr).
         let st = st\<lparr>es_manager := mgr\<rparr> in
         if \<not> ok then
           Inr (st\<lparr>es_num_new_tokens :=
                     (if n_computed + shift < start_pos then start_pos - (n_computed + shift) else 0)\<rparr>)
         else
           bindE (get_embeds_indices_in_range (mm_position f) (max 0 (n_computed - start_pos))
                    (min num_encoder_tokens (n_computed + es_num_new_tokens st - start_pos)))
             (\<lambda>(curr_embeds_start, curr_embeds_end).
             if curr_embeds_end - curr_embeds_start = 0 then
               schedule_inputs_loop cfg r n_computed shift is st
             else if (case ec_has_cache_item cfg of None \<Rightarrow> False | Some has \<Rightarrow> has item) then
               schedule_inputs_loop cfg r n_computed shift is
                 (st\<lparr>mm_hashes_to_schedule := mm_hashes_to_schedule st @ [item],
                     external_load_encoder_input := external_load_encoder_input st @ [i],
                     es_num_embeds := es_num_embeds st + num_encoder_embeds\<rparr>)
             else
               schedule_inputs_loop cfg r n_computed shift is
                 (st\<lparr>es_num_embeds := es_num_embeds st + num_encoder_embeds,
                     es_compute_budget := es_compute_budget st - num_encoder_embeds,
                     mm_hashes_to_schedule := mm_hashes_to_schedule st @ [item],
                     encoder_inputs_to_schedule := encoder_inputs_to_schedule st @ [i]\<rparr>)))))"

definition try_schedule_encoder_inputs ::
  "encoder_sched_config \<Rightarrow> request \<Rightarrow> int \<Rightarrow> int \<Rightarrow> int \<Rightarrow> int \<Rightarrow> encoder_manager \<Rightarrow>
     encoder_sched_state result" where
  "try_schedule_encoder_inputs cfg r n_computed n_new budget shift mgr =
     (let st = \<lparr>encoder_inputs_to_schedule = [], es_num_new_tokens = n_new, es_compute_budget = budget,
                external_load_encoder_input = [], mm_hashes_to_schedule = [], es_num_embeds = 0,
                es_manager = mgr\<rparr>
      in if n_new = 0 \<or> \<not> has_encoder_inputs r then Inr st
         else
           let (lo, hi) = get_mm_features_in_window (mm_features r) n_computed (n_computed + n_new + shift);
               lo = (if is_encoder_decoder cfg then 0 else lo)
           in schedule_inputs_loop cfg r n_computed shift [lo..hi - 1] st)"

subsection \<open>Giving back the inputs that are no longer needed\<close>

definition free_encoder_inputs ::
  "(int list \<Rightarrow> int list) \<Rightarrow> encoder_sched_config \<Rightarrow> request \<Rightarrow> encoder_manager \<Rightarrow> encoder_manager result" where
  "free_encoder_inputs set_order cfg r mgr =
     (let ids = em_get_cached_input_ids r mgr in
      if ids = [] then Inr mgr
      else foldE (\<lambda>input_id mgr.
        bindE (py_index (mm_features r) input_id) (\<lambda>f.
          if is_encoder_decoder cfg \<and> num_computed_tokens r > 0 then em_free_encoder_input r input_id mgr
          else if mm_end f \<le> num_computed_tokens r then em_free_encoder_input r input_id mgr
          else Inr mgr)) (set_order ids) mgr)"

subsection \<open>The window is exact\<close>

lemma bisect_left_loop_correct:
  assumes "lo \<le> hi" and "hi \<le> length a"
    and "\<And>j. j < lo \<Longrightarrow> key (a ! j) < x" and "\<And>j. hi \<le> j \<Longrightarrow> j < length a \<Longrightarrow> x \<le> key (a ! j)"
    and mono: "\<And>i j. i \<le> j \<Longrightarrow> j < length a \<Longrightarrow> key (a ! i) \<le> key (a ! j)"
  shows "\<exists>k \<le> length a. bisect_left_loop key a x lo hi = k \<and> (\<forall>j < length a. j < k \<longleftrightarrow> key (a ! j) < x)"
  using assms(1-4)
proof (induction "hi - lo" arbitrary: lo hi rule: less_induct)
  case less
  show ?case
  proof (cases "lo < hi")
    case False
    then have "lo = hi" using less.prems by simp
    moreover have "bisect_left_loop key a x lo hi = lo" using False by (simp add: bisect_left_loop.simps)
    ultimately show ?thesis using less.prems by (metis not_le)
  next
    case True
    let ?m = "(lo + hi) div 2"
    have m: "lo \<le> ?m" "?m < hi" using True by simp_all
    show ?thesis
    proof (cases "key (a ! ?m) < x")
      case lt: True
      have "key (a ! j) < x" if "j < ?m + 1" for j
        using mono[of j ?m] that m less.prems(2) lt by fastforce
      then show ?thesis
        using less.hyps[of hi "?m + 1"] m less.prems lt True
        by (simp add: bisect_left_loop.simps[of key a x lo hi] Let_def)
    next
      case ge: False
      have "x \<le> key (a ! j)" if "?m \<le> j" "j < length a" for j
        using mono[OF that] ge by simp
      then show ?thesis
        using less.hyps[of ?m lo] m less.prems ge True
        by (simp add: bisect_left_loop.simps[of key a x lo hi] Let_def)
    qed
  qed
qed

lemma bisect_left_correct:
  assumes "\<And>i j. i \<le> j \<Longrightarrow> j < length a \<Longrightarrow> key (a ! i) \<le> key (a ! j)"
  shows "0 \<le> bisect_left key a x" and "bisect_left key a x \<le> int (length a)"
    and "j < length a \<Longrightarrow> int j < bisect_left key a x \<longleftrightarrow> key (a ! j) < x"
  using bisect_left_loop_correct[of 0 "length a" a key x] assms by (auto simp: bisect_left_def)

lemma mm_sorted_mono:
  assumes "mm_sorted fs" and "i \<le> j" and "j < length fs"
  shows "mm_offset (fs ! i) \<le> mm_offset (fs ! j)" and "mm_end (fs ! i) \<le> mm_end (fs ! j)"
proof -
  have "i = j \<or> mm_end (fs ! i) \<le> mm_offset (fs ! j)"
    using assms by (cases "i = j") (auto simp: mm_sorted_def sorted_wrt_iff_nth_less)
  moreover have "0 \<le> range_length (mm_position (fs ! i))" "0 \<le> range_length (mm_position (fs ! j))"
    using assms by (auto simp: mm_sorted_def)
  ultimately show "mm_offset (fs ! i) \<le> mm_offset (fs ! j)" "mm_end (fs ! i) \<le> mm_end (fs ! j)" by auto
qed

lemma window_exact:
  assumes "mm_sorted fs"
  shows "\<exists>lo hi. get_mm_features_in_window fs start stop = (lo, hi) \<and> 0 \<le> lo \<and> hi \<le> int (length fs) \<and>
    (\<forall>i < length fs. lo \<le> int i \<and> int i < hi \<longleftrightarrow> mm_overlaps start stop (fs ! i))"
proof -
  note l = bisect_left_correct[where a = fs and key = mm_end and x = "start + 1", OF mm_sorted_mono(2)[OF assms]]
  note h = bisect_left_correct[where a = fs and key = mm_offset and x = stop, OF mm_sorted_mono(1)[OF assms]]
  have "bisect_left mm_end fs (start + 1) \<le> int i \<longleftrightarrow> start < mm_end (fs ! i)" if "i < length fs" for i
    using l(3)[OF _ _ that] by fastforce
  with l(1) h(2,3) show ?thesis by (simp add: get_mm_features_in_window_def mm_overlaps_def) blast
qed

subsection \<open>Positions that receive an embedding\<close>

definition mask_ok :: "mm_feature \<Rightarrow> bool" where
  "mask_ok f \<longleftrightarrow>
     (case is_embed (mm_position f) of
        None \<Rightarrow> True
      | Some mask_bits \<Rightarrow> int (length mask_bits) = range_length (mm_position f))"

definition embeds_at :: "mm_feature \<Rightarrow> int \<Rightarrow> bool" where
  "embeds_at f p \<longleftrightarrow> mm_offset f \<le> p \<and> p < mm_end f \<and>
     (case is_embed (mm_position f) of None \<Rightarrow> True | Some mask_bits \<Rightarrow> mask_bits ! nat (p - mm_offset f))"

lemma prefix_count:
  assumes "s \<le> p" and "p < e" and "p < length xs" and "xs ! p"
  shows "length (filter id (take s xs)) < length (filter id (take e xs))"
proof -
  have e: "take e xs = take s xs @ take (e - s) (drop s xs)" using take_add[of s "e - s" xs] assms by simp
  have "xs ! p \<in> set (take (e - s) (drop s xs))"
    using assms by (auto simp: in_set_conv_nth intro!: exI[of _ "p - s"])
  then have "filter id (take (e - s) (drop s xs)) \<noteq> []" using assms(4) by (auto simp: filter_empty_conv)
  then show ?thesis unfolding e by simp
qed

lemma embeds_index:
  assumes "is_embed q = Some xs" and "0 \<le> i" and "i \<le> int (length xs)"
  shows "(if 0 < i then py_index (cumsum 0 xs) (i - 1) else Inr 0) =
    Inr (int (length (filter id (take (nat i) xs))))"
proof (cases "0 < i")
  case True
  then have "nat (i - 1) < length xs" "Suc (nat (i - 1)) = nat i" using assms(3) by linarith+
  then show ?thesis using True assms(3) cumsum_nth[of "nat (i - 1)" xs 0] by (simp add: py_index_def)
next
  case False
  then show ?thesis using assms(2) by simp
qed

text \<open>
  The index computation does not fail on an input of the window, and if it finds no embedding in
  the range, no position of the range receives one.
\<close>

lemma embeds_in_range:
  assumes "mask_ok f" and "n_computed < mm_end f" and "0 \<le> range_length (mm_position f)"
  shows "\<exists>a b. get_embeds_indices_in_range (mm_position f) (max 0 (n_computed - mm_offset f))
      (min (range_length (mm_position f)) (n_computed + n_new - mm_offset f)) = Inr (a, b) \<and>
    (b - a = 0 \<longrightarrow> (\<forall>p. n_computed \<le> p \<and> p < n_computed + n_new \<longrightarrow> \<not> embeds_at f p))"
proof (cases "is_embed (mm_position f)")
  case None
  then show ?thesis
    by (auto simp: get_embeds_indices_in_range_def embeds_cumsum_def embeds_at_def min_def max_def)
next
  case (Some xs)
  let ?s = "max 0 (n_computed - mm_offset f)"
  let ?e = "min (range_length (mm_position f)) (n_computed + n_new - mm_offset f)"
  have len: "int (length xs) = range_length (mm_position f)" using assms(1) Some by (simp add: mask_ok_def)
  let ?c = "\<lambda>i. int (length (filter id (take (nat i) xs)))"
  have s: "(if 0 < ?s then py_index (cumsum 0 xs) (?s - 1) else Inr 0) = Inr (?c ?s)"
    by (rule embeds_index[OF Some]) (use assms(2,3) len in auto)
  have e: "(if 0 < ?e then py_index (cumsum 0 xs) (?e - 1) else Inr 0) = Inr (?c ?e)"
  proof (cases "0 \<le> ?e")
    case True
    then show ?thesis by (intro embeds_index[OF Some]) (use len in auto)
  next
    case False
    then have "nat ?e = 0" "\<not> 0 < ?e" by linarith+
    then show ?thesis by (simp only: if_False take_0 filter.simps list.size, simp)
  qed
  have "get_embeds_indices_in_range (mm_position f) ?s ?e = Inr (?c ?s, ?c ?e)"
    unfolding get_embeds_indices_in_range_def embeds_cumsum_def Some option.map option.case s e by simp
  moreover have "\<not> embeds_at f p"
    if z: "?c ?e - ?c ?s = 0" and p: "n_computed \<le> p \<and> p < n_computed + n_new" for p
  proof
    assume at: "embeds_at f p"
    then have "length (filter id (take (nat ?s) xs)) < length (filter id (take (nat ?e) xs))"
      using p Some len
      by (intro prefix_count[of _ "nat (p - mm_offset f)"]) (auto simp: embeds_at_def)
    with z show False by simp
  qed
  ultimately show ?thesis by blast
qed

subsection \<open>The loop over the window\<close>

text \<open>
  What the loop maintains: the inputs chosen so far are not cached, pairwise different, and their
  sizes, which add up to the promised embeddings, still fit into the free slots.
\<close>

abbreviation item_of :: "request \<Rightarrow> int \<Rightarrow> string" where
  "item_of r i \<equiv> mm_identifier (mm_features r ! nat i)"

abbreviation chosen :: "encoder_sched_state \<Rightarrow> int list" where
  "chosen st \<equiv> encoder_inputs_to_schedule st @ external_load_encoder_input st"

definition es_ok :: "int \<Rightarrow> (string \<Rightarrow> int) \<Rightarrow> request \<Rightarrow> encoder_sched_state \<Rightarrow> encoder_cache_manager \<Rightarrow> bool" where
  "es_ok cap sz r st m \<longleftrightarrow>
     es_manager st = MultiModalManager m \<and> ec_ok sz m \<and> cache_size m = cap \<and>
     distinct (mm_hashes_to_schedule st) \<and>
     mset (map (item_of r) (chosen st)) = mset (mm_hashes_to_schedule st) \<and>
     (\<forall>i \<in> set (chosen st). 0 \<le> i \<and> i < num_encoder_inputs r) \<and>
     set (mm_hashes_to_schedule st) \<inter> dom (dict_get (ec_cached m)) = {} \<and>
     es_num_embeds st = (\<Sum>h \<leftarrow> mm_hashes_to_schedule st. sz h) \<and>
     es_num_embeds st \<le> num_free_slots m"

text \<open>The items whose encoder output is available to the step.\<close>

definition supplied :: "encoder_sched_state \<Rightarrow> encoder_cache_manager \<Rightarrow> string set" where
  "supplied st m = pinned m \<union> set (mm_hashes_to_schedule st)"

lemma es_ok_manager:
  assumes "es_ok cap sz r st m" and "ec_ok sz m'" and "cache_size m' = cache_size m" and "es_num_embeds st \<le> num_free_slots m'"
    and "dom (dict_get (ec_cached m')) \<subseteq> dom (dict_get (ec_cached m))"
  shows "es_ok cap sz r (st\<lparr>es_manager := MultiModalManager m'\<rparr>) m'"
  using assms by (auto simp: es_ok_def)

lemma es_ok_choose:
  assumes ok: "es_ok cap sz r st m" and i: "0 \<le> i" "i < num_encoder_inputs r"
    and new: "item_of r i \<notin> dom (dict_get (ec_cached m))" "item_of r i \<notin> set (mm_hashes_to_schedule st)"
    and fits: "sz (item_of r i) + es_num_embeds st \<le> num_free_slots m"
    and st': "mm_hashes_to_schedule st' = mm_hashes_to_schedule st @ [item_of r i]"
      "es_num_embeds st' = es_num_embeds st + sz (item_of r i)" "es_manager st' = es_manager st"
      "mset (chosen st') = add_mset i (mset (chosen st))"
  shows "es_ok cap sz r st' m"
proof -
  have "set (chosen st') = insert i (set (chosen st))"
    using st'(4) by (metis set_mset_add_mset_insert set_mset_mset)
  moreover have "mset (map (item_of r) (chosen st')) = add_mset (item_of r i) (mset (map (item_of r) (chosen st)))"
    using st'(4) by (metis image_mset_add_mset mset_map)
  ultimately show ?thesis using ok i new fits st'(1-3) by (auto simp: es_ok_def)
qed

text \<open>What the loop has achieved when it ends in \<open>st'\<close>.\<close>

definition total_budget :: "(string \<Rightarrow> int) \<Rightarrow> request \<Rightarrow> encoder_sched_state \<Rightarrow> int" where
  "total_budget sz r st =
     es_compute_budget st + (\<Sum>i \<leftarrow> encoder_inputs_to_schedule st. sz (item_of r i))"

definition es_post ::
  "int \<Rightarrow> (string \<Rightarrow> int) \<Rightarrow> request \<Rightarrow> int \<Rightarrow> int \<Rightarrow> int list \<Rightarrow> encoder_sched_state \<Rightarrow> encoder_cache_manager \<Rightarrow>
     encoder_sched_state \<Rightarrow> encoder_cache_manager \<Rightarrow> bool" where
  "es_post cap sz r n_computed n_new is st m st' m' \<longleftrightarrow>
     es_ok cap sz r st' m' \<and> 0 \<le> es_num_new_tokens st' \<and> es_num_new_tokens st' \<le> n_new \<and>
     supplied st m \<subseteq> supplied st' m' \<and> total_budget sz r st' = total_budget sz r st \<and>
     (0 \<le> es_compute_budget st \<longrightarrow> 0 \<le> es_compute_budget st') \<and>
     (\<forall>i \<in> set is. \<forall>p. n_computed \<le> p \<and> p < n_computed + es_num_new_tokens st' \<and>
        embeds_at (mm_features r ! nat i) p \<longrightarrow> item_of r i \<in> supplied st' m')"

lemma es_post_step:
  assumes post: "es_post cap sz r n_computed n_new is st1 m1 st' m'"
    and "supplied st m \<subseteq> supplied st1 m1" and "total_budget sz r st1 = total_budget sz r st"
    and "0 \<le> es_compute_budget st \<Longrightarrow> 0 \<le> es_compute_budget st1"
    and "item_of r i \<in> supplied st1 m1 \<or>
      (\<forall>p. n_computed \<le> p \<and> p < n_computed + n_new \<longrightarrow> \<not> embeds_at (mm_features r ! nat i) p)"
  shows "es_post cap sz r n_computed n_new (i # is) st m st' m'"
  using assms unfolding es_post_def by (auto dest: subsetD)

text \<open>Rolling back to before the input keeps its positions and those of later inputs out of the step.\<close>

lemma es_post_truncate:
  assumes ok: "es_ok cap sz r st1 m1" and srt: "mm_sorted (mm_features r)" and shift: "0 \<le> shift"
    and "sorted (i # is)" and win: "\<forall>j \<in> set (i # is). 0 \<le> j \<and> j < num_encoder_inputs r"
    and "mm_offset (mm_features r ! nat i) < n_computed + n_new + shift" and new: "0 \<le> n_new"
    and st1: "supplied st m \<subseteq> supplied st1 m1" "total_budget sz r st1 = total_budget sz r st"
      "es_compute_budget st1 = es_compute_budget st"
  defines "st' \<equiv> st1\<lparr>es_num_new_tokens := max 0 (mm_offset (mm_features r ! nat i) - (n_computed + shift))\<rparr>"
  shows "es_post cap sz r n_computed n_new (i # is) st m st' m1"
proof -
  let ?F = "mm_features r"
  have "\<not> embeds_at (?F ! nat j) p"
    if j: "j \<in> set (i # is)" and p: "n_computed \<le> p" "p < n_computed + es_num_new_tokens st'" for j p
  proof -
    have "nat i \<le> nat j" "nat j < length ?F" using j assms(4) win by (auto simp: num_encoder_inputs_def)
    from mm_sorted_mono(1)[OF srt this] have "mm_offset (?F ! nat i) \<le> mm_offset (?F ! nat j)" .
    moreover have "p < mm_offset (?F ! nat i)" using p shift by (auto simp: st'_def max_def split: if_splits)
    ultimately show ?thesis by (simp add: embeds_at_def)
  qed
  moreover have "es_ok cap sz r st' m1" using ok by (simp add: es_ok_def st'_def)
  moreover have "supplied st' m1 = supplied st1 m1" "total_budget sz r st' = total_budget sz r st1"
    by (simp_all add: supplied_def total_budget_def st'_def)
  ultimately show ?thesis
    unfolding es_post_def using st1 assms(6) new by (auto simp: st'_def)
qed

text \<open>
  One iteration either goes on with a good state or ends the loop.
\<close>

definition es_next ::
  "int \<Rightarrow> (string \<Rightarrow> int) \<Rightarrow> encoder_sched_config \<Rightarrow> request \<Rightarrow> int \<Rightarrow> int \<Rightarrow> int \<Rightarrow> int \<Rightarrow> int list \<Rightarrow>
     encoder_sched_state \<Rightarrow> encoder_cache_manager \<Rightarrow> bool" where
  "es_next cap sz cfg r n_computed n_new shift i is st m \<longleftrightarrow>
     (\<exists>st1 m1. schedule_inputs_loop cfg r n_computed shift (i # is) st =
         schedule_inputs_loop cfg r n_computed shift is st1 \<and> es_ok cap sz r st1 m1 \<and>
         es_num_new_tokens st1 = n_new \<and> supplied st m \<subseteq> supplied st1 m1 \<and>
         total_budget sz r st1 = total_budget sz r st \<and>
         (0 \<le> es_compute_budget st \<longrightarrow> 0 \<le> es_compute_budget st1) \<and>
         (item_of r i \<in> supplied st1 m1 \<or>
          (\<forall>p. n_computed \<le> p \<and> p < n_computed + n_new \<longrightarrow> \<not> embeds_at (mm_features r ! nat i) p))) \<or>
     (\<exists>st' m'. schedule_inputs_loop cfg r n_computed shift (i # is) st = Inr st' \<and>
         es_post cap sz r n_computed n_new (i # is) st m st' m')"

lemma iteration_known:
  assumes ed: "\<not> is_encoder_decoder cfg" and ok: "es_ok cap sz r st m" and new: "es_num_new_tokens st = n_new"
    and i: "0 \<le> i" "i < num_encoder_inputs r"
    and known: "item_of r i \<in> set (mm_hashes_to_schedule st) \<or> dict_get (ec_cached m) (item_of r i) \<noteq> None"
  shows "es_next cap sz cfg r n_computed n_new shift i is st m"
proof -
  have f: "py_index (mm_features r) i = Inr (mm_features r ! nat i)"
    using i by (simp add: py_index_def num_encoder_inputs_def)
  show ?thesis
  proof (cases "item_of r i \<in> set (mm_hashes_to_schedule st)")
    case True
    then have "schedule_inputs_loop cfg r n_computed shift (i # is) st =
        schedule_inputs_loop cfg r n_computed shift is st"
      using ed f by (simp add: Let_def)
    with True ok new show ?thesis unfolding es_next_def by (auto simp: supplied_def)
  next
    case False
    with known have hit: "dict_get (ec_cached m) (item_of r i) \<noteq> None" by simp
    have m: "es_manager st = MultiModalManager m" "ec_ok sz m" using ok by (simp_all add: es_ok_def)
    from check_and_update_ok[OF m(2) f] hit obtain m1 where c:
      "check_and_update_cache r i m = Inr (True, m1)" "ec_ok sz m1" "num_free_slots m1 = num_free_slots m"
      "dom (dict_get (ec_cached m1)) = dom (dict_get (ec_cached m))"
      "pinned m1 = insert (item_of r i) (pinned m)" "cache_size m1 = cache_size m" by auto
    let ?st = "st\<lparr>es_manager := MultiModalManager m1\<rparr>"
    have "schedule_inputs_loop cfg r n_computed shift (i # is) st =
        schedule_inputs_loop cfg r n_computed shift is ?st"
      using ed f False m(1) c(1) by (simp add: Let_def)
    moreover have "es_ok cap sz r ?st m1" by (rule es_ok_manager[OF ok c(2)]) (use ok in \<open>simp_all add: c es_ok_def\<close>)
    ultimately show ?thesis
      unfolding es_next_def using c(5) new
      by (intro disjI1 exI[of _ ?st] exI[of _ m1]) (auto simp: supplied_def total_budget_def)
  qed
qed

lemma iteration_new:
  assumes ed: "\<not> is_encoder_decoder cfg" and sized: "embeds_sized sz r"
    and srt: "mm_sorted (mm_features r)" and masks: "\<forall>f \<in> set (mm_features r). mask_ok f"
    and shift: "0 \<le> shift" and n_new: "0 \<le> n_new"
    and ok: "es_ok cap sz r st m" and new: "es_num_new_tokens st = n_new" and asc: "sorted (i # is)"
    and win: "\<forall>j \<in> set (i # is). 0 \<le> j \<and> j < num_encoder_inputs r"
    and over: "mm_overlaps n_computed (n_computed + n_new + shift) (mm_features r ! nat i)"
    and fresh: "item_of r i \<notin> set (mm_hashes_to_schedule st)" "dict_get (ec_cached m) (item_of r i) = None"
  shows "es_next cap sz cfg r n_computed n_new shift i is st m"
proof -
  let ?f = "mm_features r ! nat i" and ?loop = "schedule_inputs_loop cfg r n_computed shift"
  have i: "0 \<le> i" "i < num_encoder_inputs r" using win by simp_all
  have f: "py_index (mm_features r) i = Inr ?f" using i by (simp add: py_index_def num_encoder_inputs_def)
  have fin: "?f \<in> set (mm_features r)" by (rule get_num_encoder_embeds_ok[OF sized f])
  then have n: "get_num_embeds (mm_position ?f) = sz (mm_identifier ?f)" "mask_ok ?f"
    "0 \<le> range_length (mm_position ?f)" using sized masks srt by (auto simp: embeds_sized_def mm_sorted_def)
  have m: "es_manager st = MultiModalManager m" "ec_ok sz m" using ok by (simp_all add: es_ok_def)
  from check_and_update_ok[OF m(2) f] fresh(2) obtain m1 where c:
    "check_and_update_cache r i m = Inr (False, m1)" "ec_ok sz m1" "num_free_slots m1 = num_free_slots m"
    "dom (dict_get (ec_cached m1)) = dom (dict_get (ec_cached m))" "pinned m1 = pinned m"
    "cache_size m1 = cache_size m" by auto
  let ?st1 = "st\<lparr>es_manager := MultiModalManager m1\<rparr>"
  have ok1: "es_ok cap sz r ?st1 m1" by (rule es_ok_manager[OF ok c(2)]) (use ok in \<open>simp_all add: c es_ok_def\<close>)
  note trunc = es_post_truncate[OF _ srt shift asc win _ n_new, of cap sz _ _ n_computed st m]
  have start: "mm_offset ?f < n_computed + n_new + shift" "n_computed < mm_end ?f"
    using over by (simp_all add: mm_overlaps_def)
  from can_allocate_ok[OF c(2) sized f, of "es_compute_budget st" "es_num_embeds st"] obtain b m2 k where a:
    "can_allocate r i (es_compute_budget st) (es_num_embeds st) m1 = Inr (b, m2)" "ec_ok sz m2"
    "b \<longrightarrow> sz (mm_identifier ?f) + es_num_embeds st \<le> num_free_slots m2" "\<not> b \<longrightarrow> m2 = m1"
    "b \<longrightarrow> sz (mm_identifier ?f) \<le> es_compute_budget st" "pinned m2 = pinned m1"
    "\<forall>h. dict_get (ec_cached m2) h =
      (if h \<in> fst ` set (take k (ec_freeable m1)) then None else dict_get (ec_cached m1) h)"
    "cache_size m2 = cache_size m1" by blast
  let ?st2 = "st\<lparr>es_manager := MultiModalManager m2\<rparr>"
  show ?thesis
  proof (cases "no_chunked_mm_input cfg \<and> n_computed < mm_offset ?f \<and> n_computed + n_new < mm_end ?f")
    case True
    then have "?loop (i # is) st =
        Inr (?st1\<lparr>es_num_new_tokens := max 0 (mm_offset ?f - (n_computed + shift))\<rparr>)"
      using ed f fresh(1) m(1) c(1) new by (simp add: Let_def)
    moreover have "es_post cap sz r n_computed n_new (i # is) st m
        (?st1\<lparr>es_num_new_tokens := max 0 (mm_offset ?f - (n_computed + shift))\<rparr>) m1"
      by (rule trunc[OF ok1 start(1)]) (simp_all add: supplied_def total_budget_def c)
    ultimately show ?thesis unfolding es_next_def by blast
  next
    case chunk: False
    show ?thesis
    proof (cases b)
      case False
      then have "?loop (i # is) st =
          Inr (?st1\<lparr>es_num_new_tokens := max 0 (mm_offset ?f - (n_computed + shift))\<rparr>)"
        using ed f fresh(1) m(1) c(1) new chunk a(1,4) by (simp add: Let_def max_def)
      moreover have "es_post cap sz r n_computed n_new (i # is) st m
          (?st1\<lparr>es_num_new_tokens := max 0 (mm_offset ?f - (n_computed + shift))\<rparr>) m1"
        by (rule trunc[OF ok1 start(1)]) (simp_all add: supplied_def total_budget_def c)
      ultimately show ?thesis unfolding es_next_def by blast
    next
      case True
      have nn: "0 \<le> sz (mm_identifier ?f)" using c(2) by (simp add: ec_ok_def)
      have sub: "dom (dict_get (ec_cached m2)) \<subseteq> dom (dict_get (ec_cached m))"
        using a(7) c(4) by (auto split: if_splits)
      have ok2: "es_ok cap sz r ?st2 m2"
        by (rule es_ok_manager[OF ok a(2) _ _ sub]) (use a(3,8) c(6) True nn in simp_all)
      have pin: "pinned m2 = pinned m" using a(6) c(5) by simp
      obtain x y where xy: "get_embeds_indices_in_range (mm_position ?f) (max 0 (n_computed - mm_offset ?f))
          (min (range_length (mm_position ?f)) (n_computed + n_new - mm_offset ?f)) = Inr (x, y)"
        "y - x = 0 \<longrightarrow> (\<forall>p. n_computed \<le> p \<and> p < n_computed + n_new \<longrightarrow> \<not> embeds_at ?f p)"
        using embeds_in_range[OF n(2) start(2) n(3), of n_new] by blast
      let ?ext = "case ec_has_cache_item cfg of None \<Rightarrow> False | Some has \<Rightarrow> has (mm_identifier ?f)"
      let ?st3 = "?st2\<lparr>mm_hashes_to_schedule := mm_hashes_to_schedule st @ [mm_identifier ?f],
        external_load_encoder_input := external_load_encoder_input st @ [i],
        es_num_embeds := es_num_embeds st + sz (mm_identifier ?f)\<rparr>"
      let ?st4 = "?st2\<lparr>es_num_embeds := es_num_embeds st + sz (mm_identifier ?f),
        es_compute_budget := es_compute_budget st - sz (mm_identifier ?f),
        mm_hashes_to_schedule := mm_hashes_to_schedule st @ [mm_identifier ?f],
        encoder_inputs_to_schedule := encoder_inputs_to_schedule st @ [i]\<rparr>"
      have run: "?loop (i # is) st = ?loop is (if y - x = 0 then ?st2 else if ?ext then ?st3 else ?st4)"
        using ed f fresh(1) m(1) c(1) new chunk a(1) True xy(1) n(1) by (auto simp: Let_def)
      have "item_of r i \<notin> dom (dict_get (ec_cached m2))" using sub fresh(2) by auto
      moreover have "sz (item_of r i) + es_num_embeds ?st2 \<le> num_free_slots m2" using a(3) True by simp
      ultimately have choose: "es_ok cap sz r st' m2"
        if "mm_hashes_to_schedule st' = mm_hashes_to_schedule ?st2 @ [item_of r i]"
          "es_num_embeds st' = es_num_embeds ?st2 + sz (item_of r i)" "es_manager st' = es_manager ?st2"
          "mset (chosen st') = add_mset i (mset (chosen ?st2))" for st'
        using es_ok_choose[OF ok2 i _ _ _ that] fresh(1) by simp
      consider "y - x = 0" | "y - x \<noteq> 0" ?ext | "y - x \<noteq> 0" "\<not> ?ext" by blast
      then show ?thesis
      proof cases
        case 1
        then show ?thesis
          unfolding es_next_def run using ok2 new pin xy(2)
          by (intro disjI1 exI[of _ ?st2] exI[of _ m2]) (simp add: supplied_def total_budget_def)
      next
        case 2
        have "es_ok cap sz r ?st3 m2" by (rule choose) simp_all
        with 2 new pin show ?thesis
          unfolding es_next_def run
          by (intro disjI1 exI[of _ ?st3] exI[of _ m2]) (auto simp: supplied_def total_budget_def)
      next
        case 3
        have "es_ok cap sz r ?st4 m2" by (rule choose) simp_all
        with 3 new pin a(5) True show ?thesis
          unfolding es_next_def run
          by (intro disjI1 exI[of _ ?st4] exI[of _ m2]) (auto simp: supplied_def total_budget_def)
      qed
    qed
  qed
qed

lemma schedule_inputs_loop_ok:
  assumes ed: "\<not> is_encoder_decoder cfg" and sized: "embeds_sized sz r"
    and srt: "mm_sorted (mm_features r)" and masks: "\<forall>f \<in> set (mm_features r). mask_ok f"
    and shift: "0 \<le> shift" and n_new: "0 \<le> n_new"
    and "sorted is" and "\<forall>j \<in> set is. 0 \<le> j \<and> j < num_encoder_inputs r \<and>
      mm_overlaps n_computed (n_computed + n_new + shift) (mm_features r ! nat j)"
    and "es_ok cap sz r st m" and "es_num_new_tokens st = n_new"
  shows "\<exists>st' m'. schedule_inputs_loop cfg r n_computed shift is st = Inr st' \<and>
    es_post cap sz r n_computed n_new is st m st' m'"
  using assms(7-)
proof (induction "is" arbitrary: st m)
  case Nil
  then show ?case using n_new by (auto simp: es_post_def)
next
  case (Cons i "is")
  have "es_next cap sz cfg r n_computed n_new shift i is st m"
  proof (cases "item_of r i \<in> set (mm_hashes_to_schedule st) \<or> dict_get (ec_cached m) (item_of r i) \<noteq> None")
    case True
    show ?thesis by (rule iteration_known[OF ed Cons.prems(3,4) _ _ True]) (use Cons.prems(2) in simp_all)
  next
    case False
    then show ?thesis
      by (intro iteration_new[OF ed sized srt masks shift n_new Cons.prems(3,4,1)]) (use Cons.prems(2) in auto)
  qed
  then show ?case
    unfolding es_next_def
  proof (rule disjE, goal_cases)
    case 1
    then obtain st1 m1 where run: "schedule_inputs_loop cfg r n_computed shift (i # is) st =
        schedule_inputs_loop cfg r n_computed shift is st1"
      and *: "es_ok cap sz r st1 m1" "es_num_new_tokens st1 = n_new" "supplied st m \<subseteq> supplied st1 m1"
        "total_budget sz r st1 = total_budget sz r st"
        "0 \<le> es_compute_budget st \<longrightarrow> 0 \<le> es_compute_budget st1"
      and it: "item_of r i \<in> supplied st1 m1 \<or>
        (\<forall>p. n_computed \<le> p \<and> p < n_computed + n_new \<longrightarrow> \<not> embeds_at (mm_features r ! nat i) p)"
      by blast
    from Cons.IH[OF _ _ *(1,2)] Cons.prems(1,2) obtain st' m' where
      "schedule_inputs_loop cfg r n_computed shift is st1 = Inr st'"
      and post: "es_post cap sz r n_computed n_new is st1 m1 st' m'" by auto
    with run es_post_step[OF post *(3,4) *(5)[rule_format] it] show ?case by auto
  qed blast
qed

lemma allocate_chosen_ok:
  assumes sized: "embeds_sized sz r" and "ec_ok sz m"
    and "\<forall>i \<in> set is. 0 \<le> i \<and> i < num_encoder_inputs r" and "distinct (map (item_of r) is)"
    and "set (map (item_of r) is) \<inter> dom (dict_get (ec_cached m)) = {}"
    and "(\<Sum>i \<leftarrow> is. sz (item_of r i)) \<le> num_free_slots m"
  shows "\<exists>m'. foldE (em_allocate r) is (MultiModalManager m) = Inr (MultiModalManager m') \<and> ec_ok sz m' \<and>
    cache_size m' = cache_size m \<and> pinned m' = pinned m \<union> set (map (item_of r) is)"
  using assms(2-)
proof (induction "is" arbitrary: m)
  case Nil
  then show ?case by simp
next
  case (Cons i "is")
  let ?f = "mm_features r ! nat i"
  have f: "py_index (mm_features r) i = Inr ?f"
    using Cons.prems(2) by (simp add: py_index_def num_encoder_inputs_def)
  have "0 \<le> (\<Sum>i \<leftarrow> is. sz (item_of r i))"
    using Cons.prems(1) by (intro sum_list_nonneg) (auto simp: ec_ok_def)
  then have "sz (mm_identifier ?f) \<le> num_free_slots m" using Cons.prems(5) by simp
  moreover have "dict_get (ec_cached m) (mm_identifier ?f) = None" using Cons.prems(4) by auto
  ultimately obtain m1 where m1: "ec_allocate r i m = Inr m1" "ec_ok sz m1"
    "num_free_slots m1 = num_free_slots m - sz (mm_identifier ?f)"
    "dom (dict_get (ec_cached m1)) = insert (mm_identifier ?f) (dom (dict_get (ec_cached m)))"
    "pinned m1 = insert (mm_identifier ?f) (pinned m)" "cache_size m1 = cache_size m"
    using ec_allocate_ok[OF Cons.prems(1) sized f] by blast
  from Cons.IH[OF m1(2)] Cons.prems m1(3,4) obtain m' where
    "foldE (em_allocate r) is (MultiModalManager m1) = Inr (MultiModalManager m')" "ec_ok sz m'"
    "cache_size m' = cache_size m1" "pinned m' = pinned m1 \<union> set (map (item_of r) is)" by auto
  with m1(1,5,6) show ?case by auto
qed

lemma allocate_es_ok:
  assumes sized: "embeds_sized sz r" and es: "es_ok cap sz r st m"
  shows "\<exists>m'. foldE (em_allocate r) (chosen st) (MultiModalManager m) = Inr (MultiModalManager m') \<and>
    ec_ok sz m' \<and> cache_size m' = cap \<and> pinned m' = supplied st m"
proof -
  have ms: "mset (map (item_of r) (chosen st)) = mset (mm_hashes_to_schedule st)"
    and st: "ec_ok sz m" "distinct (mm_hashes_to_schedule st)" "cache_size m = cap"
      "\<forall>i \<in> set (chosen st). 0 \<le> i \<and> i < num_encoder_inputs r"
      "set (mm_hashes_to_schedule st) \<inter> dom (dict_get (ec_cached m)) = {}"
      "(\<Sum>h \<leftarrow> mm_hashes_to_schedule st. sz h) \<le> num_free_slots m"
    using es unfolding es_ok_def by simp_all
  have "set (map (item_of r) (chosen st)) = set (mm_hashes_to_schedule st)"
    using ms by (rule mset_eq_setD)
  moreover have "distinct (map (item_of r) (chosen st))"
    using ms st(2) by (metis mset_eq_imp_distinct_iff)
  moreover have "(\<Sum>i \<leftarrow> chosen st. sz (item_of r i)) = (\<Sum>h \<leftarrow> mm_hashes_to_schedule st. sz h)"
  proof -
    have "mset (map sz (map (item_of r) (chosen st))) = mset (map sz (mm_hashes_to_schedule st))"
      using ms by (metis mset_map)
    then have "sum_list (map sz (map (item_of r) (chosen st))) = sum_list (map sz (mm_hashes_to_schedule st))"
      by (metis sum_mset_sum_list)
    then show ?thesis by (simp add: comp_def)
  qed
  ultimately show ?thesis
    using allocate_chosen_ok[OF sized st(1,4)] st(3,5,6) by (auto simp: supplied_def)
qed

lemma window_run:
  fixes m :: encoder_cache_manager and budget :: int
  assumes ed: "\<not> is_encoder_decoder cfg" and sized: "embeds_sized sz r"
    and srt: "mm_sorted (mm_features r)" and masks: "\<forall>f \<in> set (mm_features r). mask_ok f"
    and shift: "0 \<le> shift" and n_new: "0 \<le> n_new"
  defines "st0 \<equiv> \<lparr>encoder_inputs_to_schedule = [], es_num_new_tokens = n_new,
    es_compute_budget = budget, external_load_encoder_input = [], mm_hashes_to_schedule = [],
    es_num_embeds = 0, es_manager = MultiModalManager m\<rparr>"
  assumes ok: "es_ok cap sz r st0 m"
  shows "\<exists>is st m'. try_schedule_encoder_inputs cfg r n_computed n_new budget shift (MultiModalManager m) = Inr st \<and>
    es_post cap sz r n_computed n_new is st0 m st m' \<and>
    (\<forall>j < length (mm_features r). int j \<in> set is \<or> n_new = 0 \<or>
      \<not> mm_overlaps n_computed (n_computed + n_new + shift) (mm_features r ! j))"
proof (cases "n_new = 0 \<or> \<not> has_encoder_inputs r")
  case True
  then have "try_schedule_encoder_inputs cfg r n_computed n_new budget shift (MultiModalManager m) = Inr st0"
    by (simp add: try_schedule_encoder_inputs_def st0_def Let_def)
  moreover have "es_post cap sz r n_computed n_new [] st0 m st0 m"
    using ok n_new by (simp add: es_post_def st0_def)
  ultimately show ?thesis
    using True by (intro exI[of _ "[]"] exI[of _ st0] exI[of _ m])
      (auto simp: has_encoder_inputs_def num_encoder_inputs_def)
next
  case False
  from window_exact[OF srt, of n_computed "n_computed + n_new + shift"] obtain lo hi where
    w: "get_mm_features_in_window (mm_features r) n_computed (n_computed + n_new + shift) = (lo, hi)"
      "0 \<le> lo" "hi \<le> int (length (mm_features r))"
      "\<forall>i < length (mm_features r). lo \<le> int i \<and> int i < hi \<longleftrightarrow>
        mm_overlaps n_computed (n_computed + n_new + shift) (mm_features r ! i)" by blast
  have "\<forall>j \<in> set [lo..hi - 1]. 0 \<le> j \<and> j < num_encoder_inputs r \<and>
      mm_overlaps n_computed (n_computed + n_new + shift) (mm_features r ! nat j)"
  proof
    fix j assume "j \<in> set [lo..hi - 1]"
    then show "0 \<le> j \<and> j < num_encoder_inputs r \<and>
        mm_overlaps n_computed (n_computed + n_new + shift) (mm_features r ! nat j)"
      using w(2,3) w(4)[rule_format, of "nat j"] by (auto simp: num_encoder_inputs_def)
  qed
  from schedule_inputs_loop_ok[OF ed sized srt masks shift n_new _ this ok] obtain st m' where
    "schedule_inputs_loop cfg r n_computed shift [lo..hi - 1] st0 = Inr st"
    "es_post cap sz r n_computed n_new [lo..hi - 1] st0 m st m'" by (auto simp: st0_def)
  moreover have "try_schedule_encoder_inputs cfg r n_computed n_new budget shift (MultiModalManager m) =
      schedule_inputs_loop cfg r n_computed shift [lo..hi - 1] st0"
    using False ed by (simp add: try_schedule_encoder_inputs_def w(1) st0_def Let_def)
  ultimately show ?thesis using w(4) by (intro exI[of _ "[lo..hi - 1]"]) auto
qed

subsection \<open>Properties\<close>

text \<open>C21. Scheduling the encoder inputs of a multi-modal request never raises, and the inputs it
  chooses can all be allocated: no assertion of the cache fails and its accounting stays
  exact. The number of new tokens shrinks at most, and the compute budget pays for exactly the
  inputs that are encoded, without becoming negative. After the allocation, the output of every
  input with an embedding at a position of the step is in the cache and pinned.\<close>

theorem encoder_inputs_available:
  assumes "\<not> is_encoder_decoder cfg" and "embeds_sized sz r" and "mm_sorted (mm_features r)"
    and "\<forall>f \<in> set (mm_features r). mask_ok f" and "0 \<le> shift" and "0 \<le> n_new" and "0 \<le> budget"
    and "ec_reach sz capacity m" and "\<forall>h. 0 \<le> sz h" and "0 \<le> capacity"
  shows "\<exists>st m'. try_schedule_encoder_inputs cfg r n_computed n_new budget shift (MultiModalManager m) = Inr st \<and>
    foldE (em_allocate r) (encoder_inputs_to_schedule st @ external_load_encoder_input st) (es_manager st) =
      Inr (MultiModalManager m') \<and>
    num_free_slots m' = capacity - (\<Sum>h \<in> dom (dict_get (ec_cached m')). sz h) \<and> 0 \<le> num_free_slots m' \<and>
    0 \<le> es_num_new_tokens st \<and> es_num_new_tokens st \<le> n_new \<and>
    es_compute_budget st = budget - (\<Sum>i \<leftarrow> encoder_inputs_to_schedule st. sz (item_of r i)) \<and>
    0 \<le> es_compute_budget st \<and>
    (\<forall>f \<in> set (mm_features r). \<forall>p. n_computed \<le> p \<and> p < n_computed + es_num_new_tokens st \<and> embeds_at f p \<longrightarrow>
       mm_identifier f \<in> pinned m')"
proof -
  have ok: "ec_ok sz m" "cache_size m = capacity" using ec_reach_ok[OF assms(8-10)] by simp_all
  define st0 where "st0 = \<lparr>encoder_inputs_to_schedule = [], es_num_new_tokens = n_new,
    es_compute_budget = budget, external_load_encoder_input = [], mm_hashes_to_schedule = [],
    es_num_embeds = 0, es_manager = MultiModalManager m\<rparr>"
  have ok0: "es_ok capacity sz r st0 m" using ok ec_ok_bounds[OF ok(1)] by (simp add: es_ok_def st0_def)
  obtain "is" st m' where run: "try_schedule_encoder_inputs cfg r n_computed n_new budget shift (MultiModalManager m) = Inr st"
    and post: "es_post capacity sz r n_computed n_new is st0 m st m'"
    and window: "\<forall>j < length (mm_features r). int j \<in> set is \<or> n_new = 0 \<or>
      \<not> mm_overlaps n_computed (n_computed + n_new + shift) (mm_features r ! j)"
    using window_run[OF assms(1-6) ok0[unfolded st0_def]] unfolding st0_def by blast
  note p = post[unfolded es_post_def]
  have es: "es_ok capacity sz r st m'" using p by simp
  obtain m'' where alloc: "foldE (em_allocate r) (chosen st) (MultiModalManager m') = Inr (MultiModalManager m'')"
    "ec_ok sz m''" "cache_size m'' = capacity" "pinned m'' = supplied st m'"
    using allocate_es_ok[OF assms(2) es] by blast
  have "mm_identifier f \<in> pinned m''" if f: "f \<in> set (mm_features r)"
    and pos: "n_computed \<le> q" "q < n_computed + es_num_new_tokens st" "embeds_at f q" for f q
  proof -
    obtain j where j: "j < length (mm_features r)" "f = mm_features r ! j" using f by (auto simp: in_set_conv_nth)
    have "q < n_computed + n_new + shift" "n_new \<noteq> 0" using p pos assms(5) by auto
    then have "mm_overlaps n_computed (n_computed + n_new + shift) f"
      using pos by (auto simp: mm_overlaps_def embeds_at_def)
    with window j \<open>n_new \<noteq> 0\<close> have "int j \<in> set is" by auto
    with p pos j show ?thesis unfolding alloc(4) by fastforce
  qed
  moreover have "es_manager st = MultiModalManager m'" using es by (simp add: es_ok_def)
  moreover have "num_free_slots m'' = capacity - (\<Sum>h \<in> dom (dict_get (ec_cached m'')). sz h)" "0 \<le> num_free_slots m''"
    using alloc(2,3) by (simp_all add: ec_ok_def)
  moreover have "es_compute_budget st = budget - (\<Sum>i \<leftarrow> encoder_inputs_to_schedule st. sz (item_of r i))"
    "0 \<le> es_compute_budget st"
    using p assms(7) by (simp_all add: total_budget_def st0_def)
  ultimately show ?thesis using run alloc(1) p by (intro exI[of _ st] exI[of _ m'']) auto
qed

theorem encoder_inputs_available_witness:
  "\<exists>st m'. try_schedule_encoder_inputs
       \<lparr>is_encoder_decoder = False, no_chunked_mm_input = False, ec_has_cache_item = None\<rparr>
       ex_mm_request 0 2 8 0 (MultiModalManager (ec_init 4)) = Inr st \<and>
     foldE (em_allocate ex_mm_request) (chosen st) (es_manager st) = Inr (MultiModalManager m') \<and>
     0 \<le> es_num_new_tokens st \<and> es_num_new_tokens st \<le> 2 \<and> 0 \<le> num_free_slots m'"
proof -
  let ?cfg = "\<lparr>is_encoder_decoder = False, no_chunked_mm_input = False, ec_has_cache_item = None\<rparr>"
  have "mm_sorted (mm_features ex_mm_request)" "\<forall>f \<in> set (mm_features ex_mm_request). mask_ok f"
    by (simp_all add: ex_mm_request_facts mm_sorted_def mask_ok_def ex_input_def)
  from encoder_inputs_available[of ?cfg "\<lambda>_. 1" ex_mm_request 0 2 8 4 "ec_init 4" 0, OF _ ex_mm_request_facts(2) this]
  show ?thesis using ec_reach.start[of "\<lambda>_. 1" 4] by auto
qed

text \<open>C25. For encoder-decoder models, giving back inputs after a step is not idempotent: every call on
  a request with computed tokens adds the sizes of all its inputs to the free slots, also if they have
  been given back before. After \<open>k\<close> steps of a request whose inputs were allocated once, the
  manager reports \<open>k - 1\<close> times their size more than its capacity as free.\<close>

theorem encoder_decoder_slots_grow:
  assumes "is_encoder_decoder cfg" and "num_computed_tokens r > 0" and "has_encoder_inputs r"
    and "\<And>ids. set (set_order ids) = set ids \<and> distinct (set_order ids)"
  defines "embeds_total \<equiv> (\<Sum>f \<leftarrow> mm_features r. get_num_embeds (mm_position f))"
  shows "\<exists>m1 mk. foldE (ed_allocate r) [0..num_encoder_inputs r - 1] (ed_init capacity) = Inr m1 \<and>
    foldE (\<lambda>_. free_encoder_inputs set_order cfg r) (replicate k ()) (EncoderDecoderManager m1) =
      Inr (EncoderDecoderManager mk) \<and>
    ed_num_free_slots mk = ed_cache_size mk + (int k - 1) * embeds_total"
proof -
  let ?F = "mm_features r" and ?n = "num_encoder_inputs r"
  let ?e = "\<lambda>i. get_num_embeds (mm_position (?F ! nat i))"
  let ?ids = "[0..?n - 1]"
  have ids: "set ?ids = int ` {0..<length ?F}" by (auto simp: num_encoder_inputs_def image_int_atLeastLessThan)
  have total: "(\<Sum>i \<leftarrow> xs. ?e i) = embeds_total" if "set xs = set ?ids" "distinct xs" for xs
  proof -
    have "(\<Sum>i \<leftarrow> xs. ?e i) = (\<Sum>i \<in> int ` {0..<length ?F}. ?e i)"
      using that ids by (simp add: sum_list_distinct_conv_sum_set)
    also have "\<dots> = embeds_total"
      by (simp add: sum.reindex embeds_total_def sum_list_sum_nth)
    finally show ?thesis .
  qed
  have alloc: "\<exists>m'. foldE (ed_allocate r) xs m = Inr m' \<and> ed_cache_size m' = ed_cache_size m \<and>
      ed_num_free_slots m' = ed_num_free_slots m - (\<Sum>i \<leftarrow> xs. ?e i)" if "set xs \<subseteq> set ?ids" for xs m
    using that
    by (induction xs arbitrary: m)
      (force simp: ed_allocate_def get_num_encoder_embeds_def py_index_def num_encoder_inputs_def)+
  have once: "\<exists>m'. free_encoder_inputs set_order cfg r (EncoderDecoderManager m) = Inr (EncoderDecoderManager m') \<and>
      ed_cache_size m' = ed_cache_size m \<and> ed_num_free_slots m' = ed_num_free_slots m + embeds_total" for m
  proof -
    have "\<exists>m'. foldE (\<lambda>input_id mgr.
        bindE (py_index ?F input_id) (\<lambda>f.
          if is_encoder_decoder cfg \<and> num_computed_tokens r > 0 then em_free_encoder_input r input_id mgr
          else if mm_end f \<le> num_computed_tokens r then em_free_encoder_input r input_id mgr
          else Inr mgr)) xs (EncoderDecoderManager m) = Inr (EncoderDecoderManager m') \<and>
      ed_cache_size m' = ed_cache_size m \<and> ed_num_free_slots m' = ed_num_free_slots m + (\<Sum>i \<leftarrow> xs. ?e i)"
      if "set xs \<subseteq> set ?ids" for xs
      using that assms(1,2)
      by (induction xs arbitrary: m)
        (force simp: ed_free_encoder_input_def get_num_encoder_embeds_def py_index_def num_encoder_inputs_def)+
    from this[of "set_order ?ids"] show ?thesis
      using assms(3,4) total[of "set_order ?ids"]
      by (auto simp: free_encoder_inputs_def Let_def ed_get_cached_input_ids_def has_encoder_inputs_def
          num_encoder_inputs_def)
  qed
  have "\<exists>mk. foldE (\<lambda>_. free_encoder_inputs set_order cfg r) (replicate k ()) (EncoderDecoderManager m) =
      Inr (EncoderDecoderManager mk) \<and> ed_cache_size mk = ed_cache_size m \<and>
      ed_num_free_slots mk = ed_num_free_slots m + int k * embeds_total" for m
  proof (induction k arbitrary: m)
    case (Suc k)
    obtain m1 where "free_encoder_inputs set_order cfg r (EncoderDecoderManager m) = Inr (EncoderDecoderManager m1)"
      "ed_cache_size m1 = ed_cache_size m" "ed_num_free_slots m1 = ed_num_free_slots m + embeds_total"
      using once by blast
    with Suc[of m1] show ?case by (auto simp: algebra_simps)
  qed simp
  moreover obtain m1 where "foldE (ed_allocate r) ?ids (ed_init capacity) = Inr m1"
    "ed_cache_size m1 = capacity" "ed_num_free_slots m1 = capacity - embeds_total"
    using alloc[of ?ids "ed_init capacity"] total[of ?ids] by (auto simp: ed_init_def)
  ultimately show ?thesis by (fastforce simp: algebra_simps)
qed

theorem encoder_decoder_slots_grow_witness:
  "\<exists>m1 mk. foldE (ed_allocate (ex_mm_request\<lparr>num_computed_tokens := 1\<rparr>)) [0] (ed_init 4) = Inr m1 \<and>
     foldE (\<lambda>_. free_encoder_inputs remdups
              \<lparr>is_encoder_decoder = True, no_chunked_mm_input = False, ec_has_cache_item = None\<rparr>
              (ex_mm_request\<lparr>num_computed_tokens := 1\<rparr>)) (replicate 3 ()) (EncoderDecoderManager m1) =
       Inr (EncoderDecoderManager mk) \<and>
     ed_num_free_slots mk = ed_cache_size mk + 2"
  using encoder_decoder_slots_grow[of
      "\<lparr>is_encoder_decoder = True, no_chunked_mm_input = False, ec_has_cache_item = None\<rparr>"
      "ex_mm_request\<lparr>num_computed_tokens := 1\<rparr>" remdups 4 3]
    ex_mm_request_facts
  by (auto simp: has_encoder_inputs_def num_encoder_inputs_def ex_input_def get_num_embeds_def
      embeds_cumsum_def)

end
