(* ===== verification/KV_Cache_Spec.thy ===== *)
theory KV_Cache_Spec
  imports Prelude
begin

section \<open>KV-cache specifications\<close>

text \<open>
  vllm/v1/kv\_cache\_interface.py: the format of the KV cache of a layer, the size of its pages, the
  memory it may need, and the merging of the specifications of several layers; with the registry of
  vllm/v1/kv\_cache\_spec\_registry.py that assigns a manager class to each specification class.

  The classes form a hierarchy; an object is a record with its class as a tag, and \<open>isinstance\<close>
  follows the method resolution order of the tag. Attributes a class does not have keep a fixed
  default, so that equality of records is the equality of the (frozen) data classes. The size of
  an element of a torch data type is the parameter \<open>dsize\<close>.
\<close>

subsection \<open>Quantization modes\<close>

datatype kv_quant_mode =
  QUANT_NONE | FP8_PER_TENSOR | INT8_PER_TOKEN_HEAD | FP8_PER_TOKEN_HEAD | NVFP4

definition is_per_token_head :: "kv_quant_mode \<Rightarrow> bool" where
  "is_per_token_head q \<longleftrightarrow> q \<in> {INT8_PER_TOKEN_HEAD, FP8_PER_TOKEN_HEAD}"

definition is_nvfp4 :: "kv_quant_mode \<Rightarrow> bool" where
  "is_nvfp4 q \<longleftrightarrow> q = NVFP4"

definition get_kv_quant_mode :: "string \<Rightarrow> kv_quant_mode" where
  "get_kv_quant_mode kv_cache_dtype =
     (if kv_cache_dtype = ''int8_per_token_head'' then INT8_PER_TOKEN_HEAD
      else if kv_cache_dtype = ''fp8_per_token_head'' then FP8_PER_TOKEN_HEAD
      else if kv_cache_dtype = ''nvfp4'' then NVFP4
      else if take 3 kv_cache_dtype = ''fp8'' then FP8_PER_TENSOR
      else QUANT_NONE)"

definition is_quantized_kv_cache :: "string \<Rightarrow> bool" where
  "is_quantized_kv_cache kv_cache_dtype \<longleftrightarrow> get_kv_quant_mode kv_cache_dtype \<noteq> QUANT_NONE"

definition kv_cache_uses_per_token_head_scales :: "string \<Rightarrow> bool" where
  "kv_cache_uses_per_token_head_scales kv_cache_dtype =
     is_per_token_head (get_kv_quant_mode kv_cache_dtype)"

definition nvfp4_kv_cache_full_dim :: "int \<Rightarrow> int" where
  "nvfp4_kv_cache_full_dim head_size = head_size div 2 + head_size div 16"

subsection \<open>Classes\<close>

datatype spec_class =
    KVCacheSpec
  | AttentionSpec
  | FullAttentionSpec
  | TQFullAttentionSpec
  | MLAAttentionSpec
  | HiddenStateCacheSpec
  | ChunkedLocalAttentionSpec
  | SlidingWindowSpec
  | SlidingWindowMLASpec
  | MambaSpec
  | EncoderOnlyAttentionSpec
  | CrossAttentionSpec
  | SinkFullAttentionSpec

text \<open>The classes an instance of a class belongs to, most specific first (\<open>__mro__\<close>).\<close>

fun mro :: "spec_class \<Rightarrow> spec_class list" where
  "mro KVCacheSpec = [KVCacheSpec]"
| "mro AttentionSpec = [AttentionSpec, KVCacheSpec]"
| "mro FullAttentionSpec = [FullAttentionSpec, AttentionSpec, KVCacheSpec]"
| "mro TQFullAttentionSpec = [TQFullAttentionSpec, FullAttentionSpec, AttentionSpec, KVCacheSpec]"
| "mro MLAAttentionSpec = [MLAAttentionSpec, FullAttentionSpec, AttentionSpec, KVCacheSpec]"
| "mro HiddenStateCacheSpec =
     [HiddenStateCacheSpec, MLAAttentionSpec, FullAttentionSpec, AttentionSpec, KVCacheSpec]"
| "mro ChunkedLocalAttentionSpec = [ChunkedLocalAttentionSpec, AttentionSpec, KVCacheSpec]"
| "mro SlidingWindowSpec = [SlidingWindowSpec, AttentionSpec, KVCacheSpec]"
| "mro SlidingWindowMLASpec = [SlidingWindowMLASpec, SlidingWindowSpec, AttentionSpec, KVCacheSpec]"
| "mro MambaSpec = [MambaSpec, KVCacheSpec]"
| "mro EncoderOnlyAttentionSpec = [EncoderOnlyAttentionSpec, AttentionSpec, KVCacheSpec]"
| "mro CrossAttentionSpec = [CrossAttentionSpec, AttentionSpec, KVCacheSpec]"
| "mro SinkFullAttentionSpec = [SinkFullAttentionSpec, FullAttentionSpec, AttentionSpec, KVCacheSpec]"

definition issubclass :: "spec_class \<Rightarrow> spec_class \<Rightarrow> bool" where
  "issubclass c d \<longleftrightarrow> d \<in> set (mro c)"

record layer_spec =
  spec_class_of :: spec_class
  spec_block_size :: int
  spec_num_kv_heads :: int
  spec_head_size :: int
  spec_dtype :: string
  spec_kv_quant_mode :: kv_quant_mode
  spec_page_size_padded :: "int option"
  spec_head_size_v :: "int option"
  spec_sliding_window :: "int option"
  spec_attention_chunk_size :: "int option"
  spec_tq_slot_size :: int
  spec_cache_dtype_str :: "string option"
  spec_alignment :: "int option"
  spec_compress_ratio :: int
  spec_model_version :: "string option"
  spec_shapes :: "int list list"
  spec_dtypes :: "string list"
  spec_mamba_type :: string
  spec_mamba_cache_mode :: string
  spec_num_speculative_blocks :: int
  spec_sink_len :: "int option"

definition default_spec :: "spec_class \<Rightarrow> layer_spec" where
  "default_spec c =
     \<lparr>spec_class_of = c, spec_block_size = 0, spec_num_kv_heads = 0, spec_head_size = 0, spec_dtype = [],
      spec_kv_quant_mode = QUANT_NONE, spec_page_size_padded = None, spec_head_size_v = None,
      spec_sliding_window = None, spec_attention_chunk_size = None, spec_tq_slot_size = 0,
      spec_cache_dtype_str = None, spec_alignment = None, spec_compress_ratio = 1,
      spec_model_version = None, spec_shapes = [], spec_dtypes = [], spec_mamba_type = ''MAMBA2'',
      spec_mamba_cache_mode = ''none'', spec_num_speculative_blocks = 0, spec_sink_len = None\<rparr>"

text \<open>A specification object: of one layer, or of several layers of one type.\<close>

datatype kv_cache_spec =
    is_LayerSpec: LayerSpec layer_spec
  | is_UniformTypeKVCacheSpecs: UniformTypeKVCacheSpecs (uspec_block_size: int) (uniform_specs: "(string, layer_spec) dict")

fun mro_of :: "kv_cache_spec \<Rightarrow> spec_class list" where
  "mro_of (LayerSpec s) = mro (spec_class_of s)"
| "mro_of (UniformTypeKVCacheSpecs b d) = [KVCacheSpec]"

fun block_size_of :: "kv_cache_spec \<Rightarrow> int" where
  "block_size_of (LayerSpec s) = spec_block_size s"
| "block_size_of (UniformTypeKVCacheSpecs b d) = b"

definition isinstance_spec :: "layer_spec \<Rightarrow> spec_class \<Rightarrow> bool" where
  "isinstance_spec s c = issubclass (spec_class_of s) c"

definition isinstance :: "kv_cache_spec \<Rightarrow> spec_class \<Rightarrow> bool" where
  "isinstance s c \<longleftrightarrow> c \<in> set (mro_of s)"

subsection \<open>Page sizes\<close>

definition storage_block_size :: "layer_spec \<Rightarrow> int result" where
  "storage_block_size s =
     (if isinstance_spec s MLAAttentionSpec \<or> isinstance_spec s SlidingWindowMLASpec
      then py_div (spec_block_size s) (spec_compress_ratio s) else Inr (spec_block_size s))"

definition attention_real_page_size :: "(string \<Rightarrow> int) \<Rightarrow> layer_spec \<Rightarrow> int" where
  "attention_real_page_size dsize s =
     (if is_nvfp4 (spec_kv_quant_mode s) then
        2 * spec_block_size s * spec_num_kv_heads s *
        nvfp4_kv_cache_full_dim (spec_head_size s) * dsize (spec_dtype s)
      else 2 * spec_block_size s * spec_num_kv_heads s * spec_head_size s * dsize (spec_dtype s))"

definition full_real_page_size :: "(string \<Rightarrow> int) \<Rightarrow> layer_spec \<Rightarrow> int result" where
  "full_real_page_size dsize s =
     (case spec_head_size_v s of
        None \<Rightarrow> Inl TypeError
      | Some v \<Rightarrow>
          if is_nvfp4 (spec_kv_quant_mode s) then
            let last_dim = nvfp4_kv_cache_full_dim (spec_head_size s) + nvfp4_kv_cache_full_dim v
            in Inr (spec_block_size s * spec_num_kv_heads s * last_dim * dsize (spec_dtype s))
          else Inr (spec_block_size s * spec_num_kv_heads s * (spec_head_size s + v) * dsize (spec_dtype s)))"

definition tq_real_page_size :: "(string \<Rightarrow> int) \<Rightarrow> layer_spec \<Rightarrow> int result" where
  "tq_real_page_size dsize s =
     (if spec_tq_slot_size s > 0
      then Inr (spec_block_size s * spec_num_kv_heads s * spec_tq_slot_size s)
      else full_real_page_size dsize s)"

definition mla_real_page_size :: "(string \<Rightarrow> int) \<Rightarrow> layer_spec \<Rightarrow> int result" where
  "mla_real_page_size dsize s =
     (if spec_cache_dtype_str s = Some ''fp8_ds_mla'' then
        if spec_model_version s = Some ''deepseek_v4''
        then bindE (storage_block_size s) (\<lambda>b. Inr (b * 584))
        else Inr (spec_block_size s * 656)
      else
        bindE (storage_block_size s) (\<lambda>b.
          Inr (b * spec_num_kv_heads s * spec_head_size s * dsize (spec_dtype s))))"

definition swa_mla_real_page_size :: "(string \<Rightarrow> int) \<Rightarrow> layer_spec \<Rightarrow> int result" where
  "swa_mla_real_page_size dsize s =
     (if spec_model_version s = Some ''deepseek_v4'' \<and> spec_cache_dtype_str s = Some ''fp8_ds_mla''
      then bindE (storage_block_size s) (\<lambda>b. Inr (b * 584))
      else
        bindE (assertE (spec_model_version s \<in> {None, Some ''deepseek_v4''})) (\<lambda>_.
        bindE (storage_block_size s) (\<lambda>b.
          Inr (b * spec_num_kv_heads s * spec_head_size s * dsize (spec_dtype s)))))"

fun real_page_size_of :: "spec_class \<Rightarrow> (string \<Rightarrow> int) \<Rightarrow> layer_spec \<Rightarrow> int result" where
  "real_page_size_of FullAttentionSpec = full_real_page_size"
| "real_page_size_of SinkFullAttentionSpec = full_real_page_size"
| "real_page_size_of TQFullAttentionSpec = tq_real_page_size"
| "real_page_size_of MLAAttentionSpec = mla_real_page_size"
| "real_page_size_of HiddenStateCacheSpec = mla_real_page_size"
| "real_page_size_of SlidingWindowSpec = full_real_page_size"
| "real_page_size_of SlidingWindowMLASpec = swa_mla_real_page_size"
| "real_page_size_of _ = (\<lambda>dsize s. Inr (attention_real_page_size dsize s))"

definition real_page_size_bytes :: "(string \<Rightarrow> int) \<Rightarrow> layer_spec \<Rightarrow> int result" where
  "real_page_size_bytes dsize s = real_page_size_of (spec_class_of s) dsize s"

definition padded_page_size :: "int option \<Rightarrow> int \<Rightarrow> int result" where
  "padded_page_size page_size_padded page_size =
     (case page_size_padded of
        None \<Rightarrow> Inr page_size
      | Some p \<Rightarrow> bindE (assertE (p \<ge> page_size)) (\<lambda>_. Inr p))"

definition mamba_page_size_bytes :: "(string \<Rightarrow> int) \<Rightarrow> layer_spec \<Rightarrow> int result" where
  "mamba_page_size_bytes dsize s =
     (let page_size = sum_list (map (\<lambda>(shape, dtype). prod_list shape * dsize dtype)
                                    (zip (spec_shapes s) (spec_dtypes s)))
      in padded_page_size (spec_page_size_padded s) page_size)"

definition attention_page_size_bytes :: "(string \<Rightarrow> int) \<Rightarrow> layer_spec \<Rightarrow> int result" where
  "attention_page_size_bytes dsize s =
     bindE (real_page_size_bytes dsize s) (\<lambda>real_page_size.
       let real_page_size =
             (if is_per_token_head (spec_kv_quant_mode s)
              then real_page_size + 2 * spec_block_size s * spec_num_kv_heads s * dsize ''float32''
              else real_page_size)
       in padded_page_size (spec_page_size_padded s) real_page_size)"

definition page_size_bytes :: "(string \<Rightarrow> int) \<Rightarrow> layer_spec \<Rightarrow> int result" where
  "page_size_bytes dsize s =
     (if spec_class_of s = KVCacheSpec then Inl NotImplementedError
      else if spec_class_of s = MambaSpec then mamba_page_size_bytes dsize s
      else attention_page_size_bytes dsize s)"

text \<open>What the constructors do after the fields are set (\<open>__post_init__\<close>).\<close>

definition apply_alignment_padding :: "(string \<Rightarrow> int) \<Rightarrow> layer_spec \<Rightarrow> layer_spec result" where
  "apply_alignment_padding dsize s =
     (case spec_alignment s of
        None \<Rightarrow> Inr s
      | Some a \<Rightarrow>
          bindE (real_page_size_bytes dsize s) (\<lambda>actual.
          bindE (py_round_up actual a) (\<lambda>padded_size.
            Inr (if padded_size \<noteq> actual then s\<lparr>spec_page_size_padded := Some padded_size\<rparr> else s))))"

definition default_head_size_v :: "layer_spec \<Rightarrow> layer_spec" where
  "default_head_size_v s =
     (if spec_head_size_v s = None then s\<lparr>spec_head_size_v := Some (spec_head_size s)\<rparr> else s)"

definition post_init :: "(string \<Rightarrow> int) \<Rightarrow> layer_spec \<Rightarrow> layer_spec result" where
  "post_init dsize s =
     (if isinstance_spec s MLAAttentionSpec then apply_alignment_padding dsize (default_head_size_v s)
      else if isinstance_spec s FullAttentionSpec then Inr (default_head_size_v s)
      else if isinstance_spec s SlidingWindowMLASpec then apply_alignment_padding dsize s
      else if isinstance_spec s SlidingWindowSpec then Inr (default_head_size_v s)
      else Inr s)"

text \<open>\<open>dataclasses.replace(spec, block_size=...)\<close> runs the constructor again.\<close>

definition copy_with_new_block_size :: "(string \<Rightarrow> int) \<Rightarrow> layer_spec \<Rightarrow> int \<Rightarrow> layer_spec result" where
  "copy_with_new_block_size dsize s b = post_init dsize (s\<lparr>spec_block_size := b\<rparr>)"

subsection \<open>The registry\<close>

datatype manager_class =
    FullAttentionManager
  | SlidingWindowManager
  | ChunkedLocalAttentionManager
  | MambaManager
  | CrossAttentionManager
  | SinkFullAttentionManager

record spec_metadata =
  kvcache_spec_cls :: spec_class
  manager_class_of :: manager_class
  uniform_type_base_spec :: spec_class

type_synonym registry = "(spec_class, spec_metadata) dict"

definition register ::
    "spec_class \<Rightarrow> manager_class option \<Rightarrow> spec_class option \<Rightarrow> registry \<Rightarrow> registry result" where
  "register c mc base reg =
     (case mc of
        None \<Rightarrow> Inl AssertionError
      | Some m \<Rightarrow>
          let base = (case base of None \<Rightarrow> c | Some b \<Rightarrow> b) in
          bindE (assertE (issubclass c base)) (\<lambda>_.
          bindE (case dict_get reg c of
                   None \<Rightarrow> Inr ()
                 | Some registered \<Rightarrow>
                     assertE (m = manager_class_of registered \<and> base = uniform_type_base_spec registered))
            (\<lambda>_. Inr (dict_set c \<lparr>kvcache_spec_cls = c, manager_class_of = m, uniform_type_base_spec = base\<rparr> reg))))"

text \<open>The in-tree platforms register nothing more.\<close>

definition register_all_kvcache_specs :: "registry \<Rightarrow> registry result" where
  "register_all_kvcache_specs reg =
     foldE (\<lambda>(c, m, base). register c (Some m) (Some base))
       [(FullAttentionSpec, FullAttentionManager, FullAttentionSpec),
        (SlidingWindowSpec, SlidingWindowManager, SlidingWindowSpec),
        (SlidingWindowMLASpec, SlidingWindowManager, SlidingWindowMLASpec),
        (MambaSpec, MambaManager, MambaSpec),
        (ChunkedLocalAttentionSpec, ChunkedLocalAttentionManager, ChunkedLocalAttentionSpec),
        (CrossAttentionSpec, CrossAttentionManager, CrossAttentionSpec),
        (TQFullAttentionSpec, FullAttentionManager, FullAttentionSpec),
        (MLAAttentionSpec, FullAttentionManager, FullAttentionSpec),
        (HiddenStateCacheSpec, FullAttentionManager, FullAttentionSpec),
        (SinkFullAttentionSpec, SinkFullAttentionManager, FullAttentionSpec)] reg"

definition ensure_registered :: "registry \<Rightarrow> registry result" where
  "ensure_registered reg = (if reg \<noteq> [] then Inr reg else register_all_kvcache_specs reg)"

fun first_registered :: "registry \<Rightarrow> spec_class list \<Rightarrow> spec_metadata option" where
  "first_registered reg [] = None"
| "first_registered reg (c # cs) =
     (case dict_get reg c of None \<Rightarrow> first_registered reg cs | Some m \<Rightarrow> Some m)"

definition get_manager_class :: "registry \<Rightarrow> kv_cache_spec \<Rightarrow> manager_class option result" where
  "get_manager_class reg s =
     bindE (ensure_registered reg) (\<lambda>reg.
       Inr (map_option manager_class_of (first_registered reg (mro_of s))))"

definition get_uniform_type_base_spec :: "registry \<Rightarrow> kv_cache_spec \<Rightarrow> spec_class option result" where
  "get_uniform_type_base_spec reg s =
     bindE (ensure_registered reg) (\<lambda>reg.
       Inr (map_option uniform_type_base_spec (first_registered reg (mro_of s))))"

definition check_kv_cache_spec_registry :: "registry \<Rightarrow> (string, layer_spec) dict \<Rightarrow> unit result" where
  "check_kv_cache_spec_registry reg specs =
     bindE (ensure_registered reg) (\<lambda>reg.
       foldE (\<lambda>(layer_name, s) _.
           bindE (get_uniform_type_base_spec reg (LayerSpec s)) (\<lambda>base.
             if base = None then Inl ValueError
             else bindE (get_manager_class reg (LayerSpec s)) (\<lambda>m.
               if m = None then Inl ValueError else Inr ())))
         specs ())"

subsection \<open>Memory of one request\<close>

text \<open>The parts of the engine's configuration that the KV cache is planned from.\<close>

record vllm_config =
  cfg_max_model_len :: int
  cfg_original_max_model_len :: int
  cfg_max_num_batched_tokens :: int
  cfg_max_num_encoder_input_tokens :: int
  cfg_disable_hybrid_kv_cache_manager :: bool
  cfg_decode_context_parallel_size :: int
  cfg_prefill_context_parallel_size :: int
  cfg_block_size :: int
  cfg_hash_block_size :: "int option"
  cfg_enable_prefix_caching :: bool
  cfg_num_gpu_blocks_override :: "int option"
  cfg_mamba_cache_mode :: string
  cfg_has_kv_transfer_config :: bool
  cfg_use_eagle :: bool

text \<open>An attribute that is \<open>None\<close> makes the arithmetic raise.\<close>

definition an_int :: "int option \<Rightarrow> int result" where
  "an_int x = (case x of None \<Rightarrow> Inl TypeError | Some i \<Rightarrow> Inr i)"

definition chunked_max_admission_blocks :: "layer_spec \<Rightarrow> int \<Rightarrow> int \<Rightarrow> int result" where
  "chunked_max_admission_blocks s max_num_batched_tokens max_model_len =
     bindE (an_int (spec_attention_chunk_size s)) (\<lambda>chunk.
       let num_tokens = min (chunk + max_num_batched_tokens) max_model_len
       in py_cdiv num_tokens (spec_block_size s))"

definition swa_max_admission_blocks :: "layer_spec \<Rightarrow> int \<Rightarrow> int \<Rightarrow> int result" where
  "swa_max_admission_blocks s max_num_batched_tokens max_model_len =
     bindE (an_int (spec_sliding_window s)) (\<lambda>window.
       let num_tokens = min (window - 1 + max_num_batched_tokens) max_model_len
       in bindE (py_cdiv num_tokens (spec_block_size s)) (\<lambda>n. Inr (n + 1)))"

definition times_page :: "(string \<Rightarrow> int) \<Rightarrow> layer_spec \<Rightarrow> int \<Rightarrow> int result" where
  "times_page dsize s n = bindE (page_size_bytes dsize s) (\<lambda>page. Inr (n * page))"

definition full_max_memory :: "(string \<Rightarrow> int) \<Rightarrow> vllm_config \<Rightarrow> layer_spec \<Rightarrow> int result" where
  "full_max_memory dsize cfg s =
     (let cp = cfg_decode_context_parallel_size cfg * cfg_prefill_context_parallel_size cfg;
          max_model_len = (if cp > 1 then cdiv (cfg_max_model_len cfg) cp else cfg_max_model_len cfg)
      in bindE (py_cdiv max_model_len (spec_block_size s)) (times_page dsize s))"

definition chunked_max_memory :: "(string \<Rightarrow> int) \<Rightarrow> vllm_config \<Rightarrow> layer_spec \<Rightarrow> int result" where
  "chunked_max_memory dsize cfg s =
     bindE (chunked_max_admission_blocks s (cfg_max_num_batched_tokens cfg) (cfg_max_model_len cfg))
       (times_page dsize s)"

definition swa_max_memory :: "(string \<Rightarrow> int) \<Rightarrow> vllm_config \<Rightarrow> layer_spec \<Rightarrow> int result" where
  "swa_max_memory dsize cfg s =
     bindE (assertE (cfg_decode_context_parallel_size cfg = 1)) (\<lambda>_.
     bindE (swa_max_admission_blocks s (cfg_max_num_batched_tokens cfg) (cfg_max_model_len cfg))
       (times_page dsize s))"

definition mamba_max_memory :: "(string \<Rightarrow> int) \<Rightarrow> vllm_config \<Rightarrow> layer_spec \<Rightarrow> int result" where
  "mamba_max_memory dsize cfg s =
     (if cfg_mamba_cache_mode cfg = ''all'' then
        bindE (py_cdiv (cfg_max_model_len cfg) (spec_block_size s)) (\<lambda>n.
          times_page dsize s (n + spec_num_speculative_blocks s))
      else if cfg_mamba_cache_mode cfg = ''align'' then
        times_page dsize s (2 + spec_num_speculative_blocks s)
      else times_page dsize s (1 + spec_num_speculative_blocks s))"

definition cross_max_memory :: "(string \<Rightarrow> int) \<Rightarrow> vllm_config \<Rightarrow> layer_spec \<Rightarrow> int result" where
  "cross_max_memory dsize cfg s =
     bindE (py_cdiv (cfg_max_num_encoder_input_tokens cfg) (spec_block_size s)) (times_page dsize s)"

fun max_memory_of :: "spec_class \<Rightarrow> (string \<Rightarrow> int) \<Rightarrow> vllm_config \<Rightarrow> layer_spec \<Rightarrow> int result" where
  "max_memory_of KVCacheSpec = (\<lambda>dsize cfg s. Inl NotImplementedError)"
| "max_memory_of AttentionSpec = (\<lambda>dsize cfg s. Inl NotImplementedError)"
| "max_memory_of ChunkedLocalAttentionSpec = chunked_max_memory"
| "max_memory_of SlidingWindowSpec = swa_max_memory"
| "max_memory_of SlidingWindowMLASpec = swa_max_memory"
| "max_memory_of MambaSpec = mamba_max_memory"
| "max_memory_of EncoderOnlyAttentionSpec = (\<lambda>dsize cfg s. Inr 0)"
| "max_memory_of CrossAttentionSpec = cross_max_memory"
| "max_memory_of _ = full_max_memory"

definition spec_max_memory :: "(string \<Rightarrow> int) \<Rightarrow> vllm_config \<Rightarrow> layer_spec \<Rightarrow> int result" where
  "spec_max_memory dsize cfg s = max_memory_of (spec_class_of s) dsize cfg s"

subsection \<open>Merging\<close>

definition base_merge :: "layer_spec list \<Rightarrow> layer_spec result" where
  "base_merge specs =
     (case specs of
        [] \<Rightarrow> Inl IndexError
      | s0 # rest \<Rightarrow> bindE (assertE (\<forall>s \<in> set rest. s = s0)) (\<lambda>_. Inr s0))"

fun merge_window_sizes :: "int list \<Rightarrow> int option result" where
  "merge_window_sizes [] = Inr None"
| "merge_window_sizes [w] = Inr (Some w)"
| "merge_window_sizes _ = Inl ValueError"

text \<open>The comparison of \<open>fields(AttentionSpec)\<close>.\<close>

definition same_attention_fields :: "layer_spec \<Rightarrow> layer_spec \<Rightarrow> bool" where
  "same_attention_fields s t \<longleftrightarrow>
     spec_block_size s = spec_block_size t \<and> spec_num_kv_heads s = spec_num_kv_heads t \<and>
     spec_head_size s = spec_head_size t \<and> spec_dtype s = spec_dtype t \<and>
     spec_kv_quant_mode s = spec_kv_quant_mode t \<and> spec_page_size_padded s = spec_page_size_padded t"

text \<open>
  \<open>FullAttentionSpec.merge\<close> and \<open>SinkFullAttentionSpec.merge\<close> are the same code but for the
  \<open>sink_len\<close> argument of the constructor; \<open>blank\<close> is the object under construction.
\<close>

definition merge_full_with ::
    "(string \<Rightarrow> int) \<Rightarrow> (layer_spec \<Rightarrow> layer_spec result) \<Rightarrow> layer_spec list \<Rightarrow> layer_spec result" where
  "merge_full_with dsize blank specs =
     bindE (assertE (\<forall>s \<in> set specs. isinstance_spec s FullAttentionSpec)) (\<lambda>_.
     let sliding_window = remdups (List.map_filter spec_sliding_window specs);
         attention_chunk_size = remdups (List.map_filter spec_attention_chunk_size specs)
     in
     bindE (assertE (\<not> (\<exists>s \<in> set specs. isinstance_spec s MLAAttentionSpec))) (\<lambda>_.
     bindE (py_index specs 0) (\<lambda>s0.
     bindE (blank s0) (\<lambda>b.
     bindE (merge_window_sizes sliding_window) (\<lambda>window.
     bindE (merge_window_sizes attention_chunk_size) (\<lambda>chunk.
     bindE (post_init dsize (b
         \<lparr>spec_block_size := spec_block_size s0, spec_num_kv_heads := spec_num_kv_heads s0,
          spec_head_size := spec_head_size s0, spec_head_size_v := spec_head_size_v s0,
          spec_dtype := spec_dtype s0, spec_kv_quant_mode := spec_kv_quant_mode s0,
          spec_page_size_padded := spec_page_size_padded s0,
          spec_sliding_window := window, spec_attention_chunk_size := chunk\<rparr>)) (\<lambda>merged_spec.
     bindE (assertE (\<forall>s \<in> set specs. same_attention_fields s merged_spec)) (\<lambda>_.
     bindE (assertE (\<not> (spec_sliding_window merged_spec \<noteq> None \<and>
                        spec_attention_chunk_size merged_spec \<noteq> None))) (\<lambda>_.
       Inr merged_spec)))))))))"

definition full_merge :: "(string \<Rightarrow> int) \<Rightarrow> spec_class \<Rightarrow> layer_spec list \<Rightarrow> layer_spec result" where
  "full_merge dsize c specs = merge_full_with dsize (\<lambda>s0. Inr (default_spec c)) specs"

definition sink_merge :: "(string \<Rightarrow> int) \<Rightarrow> layer_spec list \<Rightarrow> layer_spec result" where
  "sink_merge dsize specs =
     merge_full_with dsize
       (\<lambda>s0. if isinstance_spec s0 SinkFullAttentionSpec
              then Inr ((default_spec SinkFullAttentionSpec)\<lparr>spec_sink_len := spec_sink_len s0\<rparr>)
              else Inl AttributeError)
       specs"

definition tq_slot_size :: "layer_spec \<Rightarrow> int result" where
  "tq_slot_size s =
     (if isinstance_spec s TQFullAttentionSpec then Inr (spec_tq_slot_size s) else Inl AttributeError)"

definition tq_merge :: "(string \<Rightarrow> int) \<Rightarrow> layer_spec list \<Rightarrow> layer_spec result" where
  "tq_merge dsize specs =
     bindE (full_merge dsize TQFullAttentionSpec specs) (\<lambda>merged.
     bindE (allE (\<lambda>s. bindE (tq_slot_size s) (\<lambda>x.
               bindE (py_index specs 0) (\<lambda>s0. bindE (tq_slot_size s0) (\<lambda>y. Inr (x = y))))) specs) (\<lambda>same.
     bindE (assertE same) (\<lambda>_.
     bindE (py_index specs 0) (\<lambda>s0.
     bindE (tq_slot_size s0) (\<lambda>slot. post_init dsize (merged\<lparr>spec_tq_slot_size := slot\<rparr>))))))"

definition one_value :: "(layer_spec \<Rightarrow> 'a) \<Rightarrow> layer_spec list \<Rightarrow> bool" where
  "one_value f specs \<longleftrightarrow> length (remdups (map f specs)) = 1"

definition mla_merge :: "(string \<Rightarrow> int) \<Rightarrow> spec_class \<Rightarrow> layer_spec list \<Rightarrow> layer_spec result" where
  "mla_merge dsize c specs =
     bindE (assertE (\<forall>s \<in> set specs. isinstance_spec s MLAAttentionSpec)) (\<lambda>_.
     bindE (assertE (one_value spec_cache_dtype_str specs \<and> one_value spec_compress_ratio specs \<and>
                     one_value spec_model_version specs)) (\<lambda>_.
     bindE (py_index specs 0) (\<lambda>s0.
       post_init dsize ((default_spec c)
         \<lparr>spec_block_size := spec_block_size s0, spec_num_kv_heads := spec_num_kv_heads s0,
          spec_head_size := spec_head_size s0, spec_dtype := spec_dtype s0,
          spec_kv_quant_mode := spec_kv_quant_mode s0,
          spec_page_size_padded := spec_page_size_padded s0,
          spec_cache_dtype_str := spec_cache_dtype_str s0,
          spec_compress_ratio := spec_compress_ratio s0,
          spec_model_version := spec_model_version s0\<rparr>))))"

definition swa_mla_merge :: "(string \<Rightarrow> int) \<Rightarrow> layer_spec list \<Rightarrow> layer_spec result" where
  "swa_mla_merge dsize specs =
     bindE (assertE (\<forall>s \<in> set specs. isinstance_spec s SlidingWindowMLASpec)) (\<lambda>_.
     bindE (assertE (one_value spec_cache_dtype_str specs \<and> one_value spec_compress_ratio specs \<and>
                     one_value spec_model_version specs \<and> one_value spec_sliding_window specs)) (\<lambda>_.
     bindE (py_index specs 0) (\<lambda>s0.
       post_init dsize ((default_spec SlidingWindowMLASpec)
         \<lparr>spec_block_size := spec_block_size s0, spec_num_kv_heads := spec_num_kv_heads s0,
          spec_head_size := spec_head_size s0, spec_dtype := spec_dtype s0,
          spec_page_size_padded := spec_page_size_padded s0,
          spec_sliding_window := spec_sliding_window s0,
          spec_cache_dtype_str := spec_cache_dtype_str s0,
          spec_compress_ratio := spec_compress_ratio s0,
          spec_model_version := spec_model_version s0\<rparr>))))"

text \<open>\<open>merge\<close> is a class method; the callers call it on the first specification of the list.\<close>

fun merge_of :: "spec_class \<Rightarrow> (string \<Rightarrow> int) \<Rightarrow> layer_spec list \<Rightarrow> layer_spec result" where
  "merge_of FullAttentionSpec dsize = full_merge dsize FullAttentionSpec"
| "merge_of TQFullAttentionSpec dsize = tq_merge dsize"
| "merge_of SinkFullAttentionSpec dsize = sink_merge dsize"
| "merge_of MLAAttentionSpec dsize = mla_merge dsize MLAAttentionSpec"
| "merge_of HiddenStateCacheSpec dsize = mla_merge dsize HiddenStateCacheSpec"
| "merge_of SlidingWindowMLASpec dsize = swa_mla_merge dsize"
| "merge_of _ dsize = base_merge"

definition merge_specs :: "(string \<Rightarrow> int) \<Rightarrow> layer_spec list \<Rightarrow> layer_spec result" where
  "merge_specs dsize specs =
     bindE (py_index specs 0) (\<lambda>s0. merge_of (spec_class_of s0) dsize specs)"

subsection \<open>Layers of one type\<close>

definition is_uniform_with_collection ::
    "registry \<Rightarrow> layer_spec \<Rightarrow> (string, layer_spec) dict \<Rightarrow> bool result" where
  "is_uniform_with_collection reg self specs =
     (case spec_class_of self of
        ChunkedLocalAttentionSpec \<Rightarrow>
          Inr (\<forall>s \<in> set (dict_values specs). isinstance_spec s ChunkedLocalAttentionSpec \<and>
                 spec_attention_chunk_size s = spec_attention_chunk_size self)
      | SlidingWindowSpec \<Rightarrow>
          Inr (\<forall>s \<in> set (dict_values specs). isinstance_spec s SlidingWindowSpec \<and>
                 spec_sliding_window s = spec_sliding_window self)
      | SlidingWindowMLASpec \<Rightarrow>
          Inr (\<forall>s \<in> set (dict_values specs). isinstance_spec s SlidingWindowMLASpec \<and>
                 spec_sliding_window s = spec_sliding_window self)
      | MambaSpec \<Rightarrow>
          Inr (\<forall>s \<in> set (dict_values specs). isinstance_spec s MambaSpec \<and>
                 spec_num_speculative_blocks s = spec_num_speculative_blocks self)
      | _ \<Rightarrow>
          bindE (get_uniform_type_base_spec reg (LayerSpec self)) (\<lambda>base.
            case base of
              None \<Rightarrow> Inl AssertionError
            | Some base \<Rightarrow> Inr (\<forall>s \<in> set (dict_values specs). isinstance_spec s base)))"

definition is_uniform_type :: "registry \<Rightarrow> (string, layer_spec) dict \<Rightarrow> bool result" where
  "is_uniform_type reg specs =
     (let block_sizes = remdups (map spec_block_size (dict_values specs))
      in if length block_sizes > 1 then Inr False
         else case dict_values specs of
                [] \<Rightarrow> Inl StopIteration
              | first_spec # _ \<Rightarrow> is_uniform_with_collection reg first_spec specs)"

definition from_specs :: "registry \<Rightarrow> (string, layer_spec) dict \<Rightarrow> kv_cache_spec option result" where
  "from_specs reg specs =
     bindE (is_uniform_type reg specs) (\<lambda>b.
       if b then
         (case dict_values specs of
            [] \<Rightarrow> Inl StopIteration
          | first_spec # _ \<Rightarrow> Inr (Some (UniformTypeKVCacheSpecs (spec_block_size first_spec) specs)))
       else Inr None)"

definition page_sizes :: "(string \<Rightarrow> int) \<Rightarrow> (string, layer_spec) dict \<Rightarrow> int list result" where
  "page_sizes dsize specs = mapE (page_size_bytes dsize) (dict_values specs)"

fun kv_page_size_bytes :: "(string \<Rightarrow> int) \<Rightarrow> kv_cache_spec \<Rightarrow> int result" where
  "kv_page_size_bytes dsize (LayerSpec s) = page_size_bytes dsize s"
| "kv_page_size_bytes dsize (UniformTypeKVCacheSpecs b specs) =
     bindE (page_sizes dsize specs) (\<lambda>ps. Inr (sum_list ps))"

text \<open>The order of the elements of a set is left to the interpreter; every use of this list is
  a maximum, a minimum, a sum or a look-up.\<close>

definition get_page_sizes :: "(string \<Rightarrow> int) \<Rightarrow> (string, layer_spec) dict \<Rightarrow> int list result" where
  "get_page_sizes dsize specs = bindE (page_sizes dsize specs) (\<lambda>ps. Inr (remdups ps))"

definition get_num_layer_tuples :: "(string \<Rightarrow> int) \<Rightarrow> (string, layer_spec) dict \<Rightarrow> int result" where
  "get_num_layer_tuples dsize specs =
     bindE (page_sizes dsize specs) (\<lambda>ps.
       if ps = [] then Inl IndexError else py_max (map (\<lambda>p. int (count_list ps p)) ps))"

definition max_memory_usage_pages ::
    "(string \<Rightarrow> int) \<Rightarrow> vllm_config \<Rightarrow> (string, layer_spec) dict \<Rightarrow> int result" where
  "max_memory_usage_pages dsize cfg specs =
     bindE (mapE (\<lambda>s. bindE (spec_max_memory dsize cfg s) (\<lambda>m.
                       bindE (page_size_bytes dsize s) (\<lambda>p. py_cdiv m p)))
                 (dict_values specs))
       py_max"

fun kv_max_memory :: "(string \<Rightarrow> int) \<Rightarrow> vllm_config \<Rightarrow> kv_cache_spec \<Rightarrow> int result" where
  "kv_max_memory dsize cfg (LayerSpec s) = spec_max_memory dsize cfg s"
| "kv_max_memory dsize cfg (UniformTypeKVCacheSpecs b specs) =
     bindE (max_memory_usage_pages dsize cfg specs) (\<lambda>n.
     bindE (page_sizes dsize specs) (\<lambda>ps. Inr (n * sum_list ps)))"

subsection \<open>Kinds\<close>

datatype kv_cache_spec_kind =
    FULL_ATTENTION
  | MLA_ATTENTION
  | SLIDING_WINDOW
  | SLIDING_WINDOW_MLA
  | MAMBA
  | CHUNKED_LOCAL_ATTENTION
  | SINK_FULL_ATTENTION
  | ENCODER_ONLY_ATTENTION
  | CROSS_ATTENTION
  | UNKNOWN

definition layer_spec_kind :: "layer_spec \<Rightarrow> kv_cache_spec_kind" where
  "layer_spec_kind s =
     (if isinstance_spec s SlidingWindowMLASpec then SLIDING_WINDOW_MLA
      else if isinstance_spec s MLAAttentionSpec then MLA_ATTENTION
      else if isinstance_spec s SinkFullAttentionSpec then SINK_FULL_ATTENTION
      else if isinstance_spec s FullAttentionSpec then FULL_ATTENTION
      else if isinstance_spec s ChunkedLocalAttentionSpec then CHUNKED_LOCAL_ATTENTION
      else if isinstance_spec s SlidingWindowSpec then SLIDING_WINDOW
      else if isinstance_spec s MambaSpec then MAMBA
      else if isinstance_spec s EncoderOnlyAttentionSpec then ENCODER_ONLY_ATTENTION
      else if isinstance_spec s CrossAttentionSpec then CROSS_ATTENTION
      else UNKNOWN)"

fun get_kv_cache_spec_kind :: "kv_cache_spec \<Rightarrow> kv_cache_spec_kind" where
  "get_kv_cache_spec_kind (UniformTypeKVCacheSpecs b specs) =
     (case remdups (map layer_spec_kind (dict_values specs)) of [k] \<Rightarrow> k | _ \<Rightarrow> UNKNOWN)"
| "get_kv_cache_spec_kind (LayerSpec s) = layer_spec_kind s"

definition layer_spec_sliding_window :: "layer_spec \<Rightarrow> int option" where
  "layer_spec_sliding_window s =
     (if isinstance_spec s SlidingWindowSpec then spec_sliding_window s else None)"

fun get_kv_cache_spec_sliding_window :: "kv_cache_spec \<Rightarrow> int option" where
  "get_kv_cache_spec_sliding_window (UniformTypeKVCacheSpecs b specs) =
     (case remdups (map layer_spec_sliding_window (dict_values specs)) of [w] \<Rightarrow> w | _ \<Rightarrow> None)"
| "get_kv_cache_spec_sliding_window (LayerSpec s) = layer_spec_sliding_window s"

subsection \<open>Cache configurations\<close>

record kv_cache_tensor =
  tensor_size :: int
  shared_by :: "string list"

record kv_cache_group_spec =
  layer_names :: "string list"
  group_spec :: kv_cache_spec
  is_eagle_group :: bool

record kv_cache_config =
  num_blocks :: int
  kv_cache_tensors :: "kv_cache_tensor list"
  kv_cache_groups :: "kv_cache_group_spec list"

definition has_mamba_layers :: "kv_cache_config \<Rightarrow> bool" where
  "has_mamba_layers c \<longleftrightarrow> (\<exists>g \<in> set (kv_cache_groups c). isinstance (group_spec g) MambaSpec)"

definition needs_kv_cache_zeroing :: "kv_cache_config \<Rightarrow> bool" where
  "needs_kv_cache_zeroing c = has_mamba_layers c"

subsection \<open>Lemmas\<close>

lemma issubclass_refl [simp]: "issubclass c c"
  by (cases c) (simp_all add: issubclass_def)

lemma issubclass_trans: "issubclass c d \<Longrightarrow> issubclass d e \<Longrightarrow> issubclass c e"
  by (cases c; cases d) (auto simp: issubclass_def)

lemma issubclass_iff:
  "issubclass c FullAttentionSpec \<longleftrightarrow>
     c \<in> {FullAttentionSpec, TQFullAttentionSpec, MLAAttentionSpec, HiddenStateCacheSpec, SinkFullAttentionSpec}"
  "issubclass c MLAAttentionSpec \<longleftrightarrow> c \<in> {MLAAttentionSpec, HiddenStateCacheSpec}"
  "issubclass c SlidingWindowSpec \<longleftrightarrow> c \<in> {SlidingWindowSpec, SlidingWindowMLASpec}"
  "issubclass c SlidingWindowMLASpec \<longleftrightarrow> c = SlidingWindowMLASpec"
  "issubclass c ChunkedLocalAttentionSpec \<longleftrightarrow> c = ChunkedLocalAttentionSpec"
  "issubclass c MambaSpec \<longleftrightarrow> c = MambaSpec"
  "issubclass c CrossAttentionSpec \<longleftrightarrow> c = CrossAttentionSpec"
  "issubclass c TQFullAttentionSpec \<longleftrightarrow> c = TQFullAttentionSpec"
  "issubclass c SinkFullAttentionSpec \<longleftrightarrow> c = SinkFullAttentionSpec"
  "issubclass c HiddenStateCacheSpec \<longleftrightarrow> c = HiddenStateCacheSpec"
  "issubclass c EncoderOnlyAttentionSpec \<longleftrightarrow> c = EncoderOnlyAttentionSpec"
  by (cases c; simp add: issubclass_def)+

lemmas isinstance_iff = isinstance_spec_def issubclass_iff

text \<open>The registry with the built-in classes.\<close>

definition builtin_registry :: registry where
  "builtin_registry =
     map (\<lambda>(c, m, b). (c, \<lparr>kvcache_spec_cls = c, manager_class_of = m, uniform_type_base_spec = b\<rparr>))
       [(FullAttentionSpec, FullAttentionManager, FullAttentionSpec),
        (SlidingWindowSpec, SlidingWindowManager, SlidingWindowSpec),
        (SlidingWindowMLASpec, SlidingWindowManager, SlidingWindowMLASpec),
        (MambaSpec, MambaManager, MambaSpec),
        (ChunkedLocalAttentionSpec, ChunkedLocalAttentionManager, ChunkedLocalAttentionSpec),
        (CrossAttentionSpec, CrossAttentionManager, CrossAttentionSpec),
        (TQFullAttentionSpec, FullAttentionManager, FullAttentionSpec),
        (MLAAttentionSpec, FullAttentionManager, FullAttentionSpec),
        (HiddenStateCacheSpec, FullAttentionManager, FullAttentionSpec),
        (SinkFullAttentionSpec, SinkFullAttentionManager, FullAttentionSpec)]"

lemma register_all_builtin: "register_all_kvcache_specs [] = Inr builtin_registry"
  by (simp add: register_all_kvcache_specs_def register_def issubclass_def builtin_registry_def)

lemma ensure_registered_builtin:
  "ensure_registered [] = Inr builtin_registry"
  "ensure_registered builtin_registry = Inr builtin_registry"
  by (simp_all add: ensure_registered_def register_all_builtin builtin_registry_def)

lemma builtin_base_spec:
  "ensure_registered reg = Inr builtin_registry \<Longrightarrow>
   get_uniform_type_base_spec reg (LayerSpec s) =
     Inr (case spec_class_of s of
            KVCacheSpec \<Rightarrow> None
          | AttentionSpec \<Rightarrow> None
          | EncoderOnlyAttentionSpec \<Rightarrow> None
          | TQFullAttentionSpec \<Rightarrow> Some FullAttentionSpec
          | MLAAttentionSpec \<Rightarrow> Some FullAttentionSpec
          | HiddenStateCacheSpec \<Rightarrow> Some FullAttentionSpec
          | SinkFullAttentionSpec \<Rightarrow> Some FullAttentionSpec
          | c \<Rightarrow> Some c)"
  by (cases "spec_class_of s")
    (simp_all add: get_uniform_type_base_spec_def builtin_registry_def)

text \<open>The number of token slots, in blocks, that a layer needs for one request.\<close>

definition slots_needed :: "vllm_config \<Rightarrow> layer_spec \<Rightarrow> int result" where
  "slots_needed cfg s =
     (case layer_spec_kind s of
        CHUNKED_LOCAL_ATTENTION \<Rightarrow>
          chunked_max_admission_blocks s (cfg_max_num_batched_tokens cfg) (cfg_max_model_len cfg)
      | SLIDING_WINDOW \<Rightarrow>
          bindE (assertE (cfg_decode_context_parallel_size cfg = 1)) (\<lambda>_.
            swa_max_admission_blocks s (cfg_max_num_batched_tokens cfg) (cfg_max_model_len cfg))
      | SLIDING_WINDOW_MLA \<Rightarrow>
          bindE (assertE (cfg_decode_context_parallel_size cfg = 1)) (\<lambda>_.
            swa_max_admission_blocks s (cfg_max_num_batched_tokens cfg) (cfg_max_model_len cfg))
      | MAMBA \<Rightarrow>
          if cfg_mamba_cache_mode cfg = ''all''
          then bindE (py_cdiv (cfg_max_model_len cfg) (spec_block_size s)) (\<lambda>n.
                 Inr (n + spec_num_speculative_blocks s))
          else if cfg_mamba_cache_mode cfg = ''align'' then Inr (2 + spec_num_speculative_blocks s)
          else Inr (1 + spec_num_speculative_blocks s)
      | CROSS_ATTENTION \<Rightarrow> py_cdiv (cfg_max_num_encoder_input_tokens cfg) (spec_block_size s)
      | _ \<Rightarrow>
          py_cdiv
            (let cp = cfg_decode_context_parallel_size cfg * cfg_prefill_context_parallel_size cfg
             in if cp > 1 then cdiv (cfg_max_model_len cfg) cp else cfg_max_model_len cfg)
            (spec_block_size s))"

definition has_slots :: "layer_spec \<Rightarrow> bool" where
  "has_slots s \<longleftrightarrow> spec_class_of s \<notin> {KVCacheSpec, AttentionSpec, EncoderOnlyAttentionSpec}"

lemma spec_max_memory_slots:
  assumes "has_slots s"
  shows "spec_max_memory dsize cfg s = bindE (slots_needed cfg s) (times_page dsize s)"
  using assms
  by (cases "spec_class_of s")
    (simp_all add: has_slots_def spec_max_memory_def slots_needed_def layer_spec_kind_def
      isinstance_iff full_max_memory_def chunked_max_memory_def swa_max_memory_def mamba_max_memory_def
      cross_max_memory_def bindE_assoc Let_def)

text \<open>The attributes the number of slots depends on.\<close>

lemma layer_spec_kind_iff:
  "isinstance_spec s FullAttentionSpec \<longleftrightarrow>
     layer_spec_kind s = FULL_ATTENTION \<or> layer_spec_kind s = MLA_ATTENTION \<or>
     layer_spec_kind s = SINK_FULL_ATTENTION"
  "isinstance_spec s SlidingWindowSpec \<longleftrightarrow>
     layer_spec_kind s = SLIDING_WINDOW \<or> layer_spec_kind s = SLIDING_WINDOW_MLA"
  "isinstance_spec s ChunkedLocalAttentionSpec \<longleftrightarrow> layer_spec_kind s = CHUNKED_LOCAL_ATTENTION"
  "isinstance_spec s MambaSpec \<longleftrightarrow> layer_spec_kind s = MAMBA"
  "isinstance_spec s CrossAttentionSpec \<longleftrightarrow> layer_spec_kind s = CROSS_ATTENTION"
  by (cases "spec_class_of s"; simp add: layer_spec_kind_def isinstance_iff)+

lemma slots_needed_full:
  "isinstance_spec s FullAttentionSpec \<Longrightarrow> isinstance_spec t FullAttentionSpec \<Longrightarrow>
   spec_block_size s = spec_block_size t \<Longrightarrow> slots_needed cfg s = slots_needed cfg t"
  unfolding layer_spec_kind_iff by (elim disjE) (simp_all add: slots_needed_def)

lemma slots_needed_window:
  "isinstance_spec s SlidingWindowSpec \<Longrightarrow> isinstance_spec t SlidingWindowSpec \<Longrightarrow>
   spec_block_size s = spec_block_size t \<Longrightarrow> spec_sliding_window s = spec_sliding_window t \<Longrightarrow>
   slots_needed cfg s = slots_needed cfg t"
  unfolding layer_spec_kind_iff
  by (elim disjE) (simp_all add: slots_needed_def swa_max_admission_blocks_def)

lemma slots_needed_chunked:
  "isinstance_spec s ChunkedLocalAttentionSpec \<Longrightarrow> isinstance_spec t ChunkedLocalAttentionSpec \<Longrightarrow>
   spec_block_size s = spec_block_size t \<Longrightarrow> spec_attention_chunk_size s = spec_attention_chunk_size t \<Longrightarrow>
   slots_needed cfg s = slots_needed cfg t"
  unfolding layer_spec_kind_iff by (simp add: slots_needed_def chunked_max_admission_blocks_def)

lemma slots_needed_mamba:
  "isinstance_spec s MambaSpec \<Longrightarrow> isinstance_spec t MambaSpec \<Longrightarrow>
   spec_block_size s = spec_block_size t \<Longrightarrow>
   spec_num_speculative_blocks s = spec_num_speculative_blocks t \<Longrightarrow>
   slots_needed cfg s = slots_needed cfg t"
  unfolding layer_spec_kind_iff by (simp add: slots_needed_def)

lemma slots_needed_cross:
  "isinstance_spec s CrossAttentionSpec \<Longrightarrow> isinstance_spec t CrossAttentionSpec \<Longrightarrow>
   spec_block_size s = spec_block_size t \<Longrightarrow> slots_needed cfg s = slots_needed cfg t"
  unfolding layer_spec_kind_iff by (simp add: slots_needed_def)

lemma remdups_le_one:
  "length (remdups xs) \<le> Suc 0 \<Longrightarrow> x \<in> set xs \<Longrightarrow> y \<in> set xs \<Longrightarrow> x = y"
  by (metis card_le_Suc0_iff_eq length_remdups_card_conv List.finite_set)

lemma is_uniform_typeD:
  assumes "is_uniform_type reg specs = Inr True"
  shows "\<exists>s0 \<in> set (dict_values specs). is_uniform_with_collection reg s0 specs = Inr True \<and>
           (\<forall>s \<in> set (dict_values specs). spec_block_size s = spec_block_size s0)"
proof -
  from assms have len: "length (remdups (map spec_block_size (dict_values specs))) \<le> Suc 0"
    by (auto simp: is_uniform_type_def Let_def split: if_splits)
  with assms obtain s0 where s0: "s0 \<in> set (dict_values specs)"
    and u: "is_uniform_with_collection reg s0 specs = Inr True"
    by (cases "dict_values specs") (auto simp: is_uniform_type_def Let_def)
  have "spec_block_size s = spec_block_size s0" if "s \<in> set (dict_values specs)" for s
    by (rule remdups_le_one[OF len]) (use that s0 in auto)
  with s0 u show ?thesis by blast
qed

text \<open>What the comparison with the first layer establishes, by the class of that layer.\<close>

lemma uniform_with_collection_cases:
  assumes reg: "ensure_registered reg = Inr builtin_registry"
    and u: "is_uniform_with_collection reg s0 specs = Inr True"
  shows "(\<forall>s \<in> set (dict_values specs). isinstance_spec s FullAttentionSpec) \<or>
         (\<forall>s \<in> set (dict_values specs). isinstance_spec s CrossAttentionSpec) \<or>
         (\<forall>s \<in> set (dict_values specs). isinstance_spec s SlidingWindowSpec \<and>
            spec_sliding_window s = spec_sliding_window s0) \<or>
         (\<forall>s \<in> set (dict_values specs). isinstance_spec s ChunkedLocalAttentionSpec \<and>
            spec_attention_chunk_size s = spec_attention_chunk_size s0) \<or>
         (\<forall>s \<in> set (dict_values specs). isinstance_spec s MambaSpec \<and>
            spec_num_speculative_blocks s = spec_num_speculative_blocks s0)"
  using u
  by (cases "spec_class_of s0")
    (simp_all add: is_uniform_with_collection_def builtin_base_spec[OF reg] isinstance_iff)

lemma uniform_with_collection_slots:
  assumes reg: "ensure_registered reg = Inr builtin_registry"
    and u: "is_uniform_with_collection reg s0 specs = Inr True"
    and s0: "s0 \<in> set (dict_values specs)"
    and s: "s \<in> set (dict_values specs)" and b: "spec_block_size s = spec_block_size s0"
  shows "slots_needed cfg s = slots_needed cfg s0 \<and> has_slots s"
  using uniform_with_collection_cases[OF reg u]
proof (elim disjE)
  assume "\<forall>s \<in> set (dict_values specs). isinstance_spec s FullAttentionSpec"
  with s s0 have "isinstance_spec s FullAttentionSpec" "isinstance_spec s0 FullAttentionSpec" by blast+
  with slots_needed_full[OF _ _ b] show ?thesis by (auto simp: has_slots_def isinstance_iff)
next
  assume "\<forall>s \<in> set (dict_values specs). isinstance_spec s CrossAttentionSpec"
  with s s0 have "isinstance_spec s CrossAttentionSpec" "isinstance_spec s0 CrossAttentionSpec" by blast+
  with slots_needed_cross[OF _ _ b] show ?thesis by (auto simp: has_slots_def isinstance_iff)
next
  assume a: "\<forall>s \<in> set (dict_values specs). isinstance_spec s SlidingWindowSpec \<and>
    spec_sliding_window s = spec_sliding_window s0"
  with s s0 have "isinstance_spec s SlidingWindowSpec" "isinstance_spec s0 SlidingWindowSpec"
    "spec_sliding_window s = spec_sliding_window s0" by blast+
  with slots_needed_window[OF _ _ b] show ?thesis by (auto simp: has_slots_def isinstance_iff)
next
  assume "\<forall>s \<in> set (dict_values specs). isinstance_spec s ChunkedLocalAttentionSpec \<and>
    spec_attention_chunk_size s = spec_attention_chunk_size s0"
  with s s0 have "isinstance_spec s ChunkedLocalAttentionSpec" "isinstance_spec s0 ChunkedLocalAttentionSpec"
    "spec_attention_chunk_size s = spec_attention_chunk_size s0" by blast+
  with slots_needed_chunked[OF _ _ b] show ?thesis by (auto simp: has_slots_def isinstance_iff)
next
  assume "\<forall>s \<in> set (dict_values specs). isinstance_spec s MambaSpec \<and>
    spec_num_speculative_blocks s = spec_num_speculative_blocks s0"
  with s s0 have "isinstance_spec s MambaSpec" "isinstance_spec s0 MambaSpec"
    "spec_num_speculative_blocks s = spec_num_speculative_blocks s0" by blast+
  with slots_needed_mamba[OF _ _ b] show ?thesis by (auto simp: has_slots_def isinstance_iff)
qed

lemma uniform_type_slots:
  assumes reg: "ensure_registered reg = Inr builtin_registry"
    and u: "is_uniform_type reg specs = Inr True"
    and s: "s \<in> set (dict_values specs)" and t: "t \<in> set (dict_values specs)"
  shows "slots_needed cfg s = slots_needed cfg t" and "has_slots s"
proof -
  from is_uniform_typeD[OF u] obtain s0 where s0: "s0 \<in> set (dict_values specs)"
    and c: "is_uniform_with_collection reg s0 specs = Inr True"
    and b: "\<forall>s \<in> set (dict_values specs). spec_block_size s = spec_block_size s0" by blast
  note sl = uniform_with_collection_slots[OF reg c s0, where cfg = cfg]
  from sl[OF s b[THEN bspec, OF s]] sl[OF t b[THEN bspec, OF t]]
  show "slots_needed cfg s = slots_needed cfg t" and "has_slots s" by simp_all
qed

lemma from_specs_Some:
  assumes "from_specs reg specs = Inr (Some u)"
  shows "is_uniform_type reg specs = Inr True" and "specs \<noteq> []"
    and "u = UniformTypeKVCacheSpecs (spec_block_size (snd (hd specs))) specs"
  using assms by (cases specs; auto simp: from_specs_def bindE_Inr_iff split: if_splits)+

text \<open>The slots of a group that can be sized at all.\<close>

lemma uniform_type_pages:
  assumes reg: "ensure_registered reg = Inr builtin_registry"
    and u: "is_uniform_type reg specs = Inr True" and ne: "specs \<noteq> []"
    and pages: "max_memory_usage_pages dsize cfg specs = Inr n"
    and s: "s \<in> set (dict_values specs)"
  shows "\<exists>p. page_size_bytes dsize s = Inr p \<and> spec_max_memory dsize cfg s = Inr (n * p)"
proof -
  let ?f = "\<lambda>s. bindE (spec_max_memory dsize cfg s) (\<lambda>m. bindE (page_size_bytes dsize s) (\<lambda>p. py_cdiv m p))"
  from pages obtain ys where ys: "mapE ?f (dict_values specs) = Inr ys" and n: "py_max ys = Inr n"
    by (auto simp: max_memory_usage_pages_def bindE_Inr_iff)
  from s uniform_type_slots(1)[OF reg u] obtain k where k: "\<forall>t \<in> set (dict_values specs). slots_needed cfg t = k"
    by blast
  have *: "\<exists>i p. k = Inr i \<and> ?f t = Inr i \<and> page_size_bytes dsize t = Inr p \<and> spec_max_memory dsize cfg t = Inr (i * p)"
    if t: "t \<in> set (dict_values specs)" for t
  proof -
    from ys t obtain y where y: "?f t = Inr y" by (auto simp: mapE_projr)
    have "spec_max_memory dsize cfg t = bindE k (times_page dsize t)"
      by (simp only: spec_max_memory_slots[OF uniform_type_slots(2)[OF reg u t t]] k[THEN bspec, OF t])
    with y show ?thesis by (auto simp: bindE_Inr_iff times_page_def)
  qed
  then obtain i where i: "k = Inr i" using s by blast
  with * have f: "?f t = Inr i" if "t \<in> set (dict_values specs)" for t using that by blast
  have "mapE ?f (dict_values specs) = Inr (map (\<lambda>_. i) (dict_values specs))"
    by (rule mapE_total) (rule f)
  with ys ne have "set ys = {i}" by (auto simp: image_constant_conv)
  with n have "n = i" by (auto simp: py_max_Inr_iff)
  with *[OF s] i show ?thesis by auto
qed

text \<open>C30. Layers that are treated as one type need the same number of token slots: when the
  specifications of some layers are put into one \<open>UniformTypeKVCacheSpecs\<close> and the group can be
  sized, there is one number of blocks that every layer needs, and the memory budgeted for the
  group is exactly the sum of the memory its layers need.\<close>

theorem uniform_type_memory:
  assumes reg: "ensure_registered reg = ensure_registered []"
    and fs: "from_specs reg specs = Inr (Some u)"
    and mem: "kv_max_memory dsize cfg u = Inr m"
  shows "\<exists>n ms. (\<forall>s \<in> set (dict_values specs). spec_max_memory dsize cfg s = times_page dsize s n) \<and>
     mapE (spec_max_memory dsize cfg) (dict_values specs) = Inr ms \<and> m = sum_list ms \<and>
     uniform_specs u = specs \<and> (\<forall>s \<in> set (dict_values specs). spec_block_size s = block_size_of u)"
proof -
  have reg': "ensure_registered reg = Inr builtin_registry" using reg by (simp add: ensure_registered_builtin)
  note u = from_specs_Some[OF fs]
  from mem u(3) obtain n ps where n: "max_memory_usage_pages dsize cfg specs = Inr n"
    and ps: "page_sizes dsize specs = Inr ps" and m: "m = n * sum_list ps"
    by (auto simp: bindE_Inr_iff)
  have each: "\<exists>p. page_size_bytes dsize s = Inr p \<and> spec_max_memory dsize cfg s = Inr (n * p)"
    if "s \<in> set (dict_values specs)" for s by (rule uniform_type_pages[OF reg' u(1,2) n that])
  define pg where "pg s = projr (page_size_bytes dsize s)" for s
  have e: "page_size_bytes dsize s = Inr (pg s)" "spec_max_memory dsize cfg s = Inr (n * pg s)"
    if "s \<in> set (dict_values specs)" for s using each[OF that] by (auto simp: pg_def)
  have "ps = map pg (dict_values specs)"
    using ps mapE_total[of "dict_values specs" "page_size_bytes dsize" pg, OF e(1)] by (simp add: page_sizes_def)
  moreover have "mapE (spec_max_memory dsize cfg) (dict_values specs) = Inr (map (\<lambda>s. n * pg s) (dict_values specs))"
    by (rule mapE_total) (rule e(2))
  moreover have "\<forall>s \<in> set (dict_values specs). spec_max_memory dsize cfg s = times_page dsize s n"
    using e by (simp add: times_page_def)
  moreover have "\<forall>s \<in> set (dict_values specs). spec_block_size s = block_size_of u"
    using is_uniform_typeD[OF u(1)] u(2,3) by (cases specs) auto
  moreover have "m = sum_list (map (\<lambda>s. n * pg s) (dict_values specs))"
    by (simp only: m calculation(1) sum_list_const_mult)
  ultimately show ?thesis unfolding u(3) by (metis kv_cache_spec.sel(3))
qed

text \<open>Concrete specifications for the witnesses.\<close>

definition example_config :: vllm_config where
  "example_config =
     \<lparr>cfg_max_model_len = 1024, cfg_original_max_model_len = -1, cfg_max_num_batched_tokens = 256,
      cfg_max_num_encoder_input_tokens = 0, cfg_disable_hybrid_kv_cache_manager = False,
      cfg_decode_context_parallel_size = 1, cfg_prefill_context_parallel_size = 1,
      cfg_block_size = 16, cfg_hash_block_size = None, cfg_enable_prefix_caching = True,
      cfg_num_gpu_blocks_override = None, cfg_mamba_cache_mode = ''none'',
      cfg_has_kv_transfer_config = False, cfg_use_eagle = False\<rparr>"

definition full_layer :: "int \<Rightarrow> layer_spec" where
  "full_layer head_size =
     (default_spec FullAttentionSpec)
       \<lparr>spec_block_size := 16, spec_num_kv_heads := 2, spec_head_size := head_size,
        spec_dtype := ''bfloat16'', spec_head_size_v := Some head_size\<rparr>"

definition window_layer :: "int \<Rightarrow> layer_spec" where
  "window_layer head_size =
     (default_spec SlidingWindowSpec)
       \<lparr>spec_block_size := 16, spec_num_kv_heads := 2, spec_head_size := head_size,
        spec_dtype := ''bfloat16'', spec_head_size_v := Some head_size, spec_sliding_window := Some 64\<rparr>"

definition two_bytes :: "string \<Rightarrow> int" where
  "two_bytes dtype = 2"

theorem uniform_type_memory_witness:
  "\<exists>n ms. spec_max_memory two_bytes example_config (full_layer 64) = times_page two_bytes (full_layer 64) n \<and>
     spec_max_memory two_bytes example_config (full_layer 32) = times_page two_bytes (full_layer 32) n \<and>
     mapE (spec_max_memory two_bytes example_config) [full_layer 64, full_layer 32] = Inr ms \<and>
     786432 = sum_list ms"
proof -
  let ?specs = "[(''a'', full_layer 64), (''b'', full_layer 32)]"
  have f: "from_specs [] ?specs = Inr (Some (UniformTypeKVCacheSpecs 16 ?specs))"
    by code_simp
  have m: "kv_max_memory two_bytes example_config (UniformTypeKVCacheSpecs 16 ?specs) = Inr 786432"
    by code_simp
  show ?thesis using uniform_type_memory[OF refl f m] by auto
qed

end
