(* ===== verification/KV_Cache_Config.thy ===== *)
theory KV_Cache_Config
  imports KV_Cache_Spec "HOL-Library.Multiset"
begin

section \<open>Planning the KV cache\<close>

text \<open>
  The second half of vllm/v1/core/kv\_cache\_utils.py: how the specifications of the layers become
  groups of layers with one block table, tensors and a number of blocks, on every worker
  (\<open>get_kv_cache_configs\<close>), and the memory checks on the way.

  Functions that change \<open>vllm_config.model_config.max_model_len\<close> for the time of a computation
  take the changed configuration as an argument. \<open>_get_kv_cache_groups_uniform_groups\<close> pads the
  specifications of the layers in place; each layer has its own specification object.
\<close>

subsection \<open>Block sizes\<close>

definition resolve_kv_cache_block_sizes :: "kv_cache_config \<Rightarrow> vllm_config \<Rightarrow> (int \<times> int) result" where
  "resolve_kv_cache_block_sizes c cfg =
     (let dcp = cfg_decode_context_parallel_size cfg;
          pcp = cfg_prefill_context_parallel_size cfg;
          groups = kv_cache_groups c
      in
      if length groups \<le> 1 then
        let bs = cfg_block_size cfg * dcp * pcp in Inr (bs, bs)
      else if dcp \<noteq> 1 \<or> pcp \<noteq> 1 then Inl ValueError
      else
        let group_block_sizes = map (\<lambda>g. block_size_of (group_spec g)) groups;
            scheduler_block_size = fold lcm group_block_sizes 1
        in
        if \<not> (cfg_enable_prefix_caching cfg \<or> cfg_has_kv_transfer_config cfg)
        then Inr (scheduler_block_size, scheduler_block_size)
        else if \<exists>g \<in> set groups. isinstance (group_spec g) MambaSpec \<and>
                                 block_size_of (group_spec g) \<noteq> cfg_block_size cfg
        then Inr (scheduler_block_size, scheduler_block_size)
        else
          let hash_block_size =
                (case cfg_hash_block_size cfg of
                   Some requested \<Rightarrow> requested
                 | None \<Rightarrow> fold gcd group_block_sizes 0)
          in
          bindE (allE (\<lambda>bs. bindE (py_mod bs hash_block_size) (\<lambda>r. Inr (r = 0))) group_block_sizes)
            (\<lambda>divisible.
               if \<not> divisible then Inl ValueError
               else Inr (scheduler_block_size, hash_block_size)))"

subsection \<open>Memory checks\<close>

definition check_enough_memory ::
    "int \<Rightarrow> int result \<Rightarrow> (int \<Rightarrow> int result) \<Rightarrow> unit result" where
  "check_enough_memory available_memory needed_memory estimate =
     (if available_memory \<le> 0 then Inl ValueError
      else
        bindE needed_memory (\<lambda>needed.
          if needed > available_memory
          then bindE (estimate available_memory) (\<lambda>_. Inl ValueError)
          else Inr ()))"

definition max_memory_usage_bytes ::
    "(string \<Rightarrow> int) \<Rightarrow> vllm_config \<Rightarrow> kv_cache_spec list \<Rightarrow> int result" where
  "max_memory_usage_bytes dsize cfg specs =
     bindE (mapE (kv_max_memory dsize cfg) specs) (\<lambda>ms. Inr (sum_list ms))"

text \<open>The binary search for the longest model length that fits.\<close>

function search_max_len :: "(int \<Rightarrow> bool result) \<Rightarrow> int \<Rightarrow> int \<Rightarrow> int \<Rightarrow> int result" where
  "search_max_len fits left right best =
     (if left \<le> right then
        let mid = (left + right) div 2
        in bindE (fits mid) (\<lambda>b.
             if b then search_max_len fits (mid + 1) right mid
             else search_max_len fits left (mid - 1) best)
      else Inr best)"
  by pat_completeness auto
termination
  by (relation "measure (\<lambda>(fits, left, right, best). nat (right - left + 1))") auto

declare search_max_len.simps [simp del]

definition longest_fitting :: "(int \<Rightarrow> bool result) \<Rightarrow> int \<Rightarrow> int result" where
  "longest_fitting fits original_max_model_len =
     bindE (fits 1) (\<lambda>b. if \<not> b then Inr 0 else search_max_len fits 1 original_max_model_len 1)"

definition estimate_max_model_len ::
    "(string \<Rightarrow> int) \<Rightarrow> vllm_config \<Rightarrow> (string, layer_spec) dict \<Rightarrow> int \<Rightarrow> int result" where
  "estimate_max_model_len dsize cfg specs available_memory =
     longest_fitting
       (\<lambda>model_len.
          bindE (max_memory_usage_bytes dsize (cfg\<lparr>cfg_max_model_len := model_len\<rparr>)
                   (map LayerSpec (dict_values specs)))
            (\<lambda>needed. Inr (needed \<le> available_memory)))
       (cfg_max_model_len cfg)"

definition check_enough_kv_cache_memory ::
    "(string \<Rightarrow> int) \<Rightarrow> vllm_config \<Rightarrow> (string, layer_spec) dict \<Rightarrow> int \<Rightarrow> unit result" where
  "check_enough_kv_cache_memory dsize cfg specs available_memory =
     (if specs \<noteq> [] then
        check_enough_memory available_memory
          (max_memory_usage_bytes dsize cfg (map LayerSpec (dict_values specs)))
          (estimate_max_model_len dsize cfg specs)
      else Inr ())"

subsection \<open>Groups of layers\<close>

definition dict_lookup :: "('k, 'v) dict \<Rightarrow> 'k \<Rightarrow> 'v result" where
  "dict_lookup d k = (case dict_get d k of None \<Rightarrow> Inl KeyError | Some v \<Rightarrow> Inr v)"

definition create_group_spec ::
    "(string \<Rightarrow> int) \<Rightarrow> (string, layer_spec) dict \<Rightarrow> string list \<Rightarrow> kv_cache_group_spec result" where
  "create_group_spec dsize specs names =
     bindE (mapE (dict_lookup specs) names) (\<lambda>layer_specs.
     bindE (merge_specs dsize layer_specs) (\<lambda>merged.
       Inr \<lparr>layer_names = names, group_spec = LayerSpec merged, is_eagle_group = False\<rparr>))"

definition create_kv_cache_group_specs ::
    "(string \<Rightarrow> int) \<Rightarrow> (string, layer_spec) dict \<Rightarrow> string list list \<Rightarrow> kv_cache_group_spec list result"
  where
  "create_kv_cache_group_specs dsize specs grouped_layer_names =
     mapE (create_group_spec dsize specs) grouped_layer_names"

definition is_kv_cache_spec_uniform :: "(string \<Rightarrow> int) \<Rightarrow> (string, layer_spec) dict \<Rightarrow> bool result" where
  "is_kv_cache_spec_uniform dsize specs =
     (if specs = [] then Inr True
      else case merge_specs dsize (dict_values specs) of
             Inl e \<Rightarrow> if e = AssertionError then Inr False else Inl e
           | Inr _ \<Rightarrow> Inr True)"

definition may_override_num_blocks :: "vllm_config \<Rightarrow> int \<Rightarrow> int" where
  "may_override_num_blocks cfg n =
     (case cfg_num_gpu_blocks_override cfg of None \<Rightarrow> n | Some k \<Rightarrow> k)"

definition get_num_blocks :: "vllm_config \<Rightarrow> int \<Rightarrow> int \<Rightarrow> int \<Rightarrow> int result" where
  "get_num_blocks cfg num_layers available_memory page_size =
     bindE (py_div available_memory page_size) (\<lambda>q.
     bindE (py_div q num_layers) (\<lambda>n.
       Inr (may_override_num_blocks cfg (max n 0))))"

definition get_uniform_page_size :: "(string \<Rightarrow> int) \<Rightarrow> kv_cache_spec list \<Rightarrow> int result" where
  "get_uniform_page_size dsize specs =
     bindE (mapE (kv_page_size_bytes dsize) specs) (\<lambda>ps.
       case remdups ps of [p] \<Rightarrow> Inr p | _ \<Rightarrow> Inl AssertionError)"

definition get_kv_cache_groups_uniform_spec ::
    "(string \<Rightarrow> int) \<Rightarrow> (string, layer_spec) dict \<Rightarrow> kv_cache_group_spec list result" where
  "get_kv_cache_groups_uniform_spec dsize specs =
     create_kv_cache_group_specs dsize specs [dict_keys specs]"

definition get_kv_cache_groups_uniform_type :: "kv_cache_spec \<Rightarrow> kv_cache_group_spec list" where
  "get_kv_cache_groups_uniform_type s =
     [\<lparr>layer_names = dict_keys (uniform_specs s), group_spec = s, is_eagle_group = False\<rparr>]"

definition is_kv_cache_page_size_uniform :: "(string \<Rightarrow> int) \<Rightarrow> (string, layer_spec) dict \<Rightarrow> bool result" where
  "is_kv_cache_page_size_uniform dsize specs =
     bindE (page_sizes dsize specs) (\<lambda>ps. Inr (length (remdups ps) = 1))"

definition unify_layer_page_size ::
    "(string \<Rightarrow> int) \<Rightarrow> int \<Rightarrow> layer_spec \<Rightarrow> layer_spec result" where
  "unify_layer_page_size dsize max_page_size s =
     bindE (page_size_bytes dsize s) (\<lambda>layer_page_size.
       if layer_page_size = max_page_size then Inr s
       else
         bindE (py_mod max_page_size layer_page_size) (\<lambda>r.
           if r \<noteq> 0 then Inl NotImplementedError
           else
             let ratio = max_page_size div layer_page_size;
                 new_block_size = spec_block_size s * ratio
             in
             bindE (copy_with_new_block_size dsize s new_block_size) (\<lambda>new_spec.
             bindE (page_size_bytes dsize new_spec) (\<lambda>p.
             bindE (assertE (p = max_page_size)) (\<lambda>_. Inr new_spec)))))"

definition unify_kv_cache_spec_page_size ::
    "(string \<Rightarrow> int) \<Rightarrow> (string, layer_spec) dict \<Rightarrow> (string, layer_spec) dict result" where
  "unify_kv_cache_spec_page_size dsize specs =
     bindE (page_sizes dsize specs) (\<lambda>ps.
       if length (remdups ps) \<le> 1 then Inr specs
       else
         bindE (py_max ps) (\<lambda>max_page_size.
           mapE (\<lambda>(layer_name, s).
                   bindE (unify_layer_page_size dsize max_page_size s) (\<lambda>t. Inr (layer_name, t)))
             specs))"

definition is_kv_cache_type_attention_free :: "(string, layer_spec) dict \<Rightarrow> bool" where
  "is_kv_cache_type_attention_free specs \<longleftrightarrow> specs = []"

text \<open>The extended slice \<open>xs[i::n]\<close>, for a non-negative start and a positive step.\<close>

definition slice_step :: "'a list \<Rightarrow> int \<Rightarrow> int \<Rightarrow> 'a list" where
  "slice_step xs i n =
     map (\<lambda>k. xs ! k) (filter (\<lambda>k. i \<le> int k \<and> (int k - i) mod n = 0) [0..<length xs])"

definition append_to :: "'k \<Rightarrow> 'v \<Rightarrow> ('k, 'v list) dict \<Rightarrow> ('k, 'v list) dict" where
  "append_to k v d = dict_set k (dict_get_default d k [] @ [v]) d"

definition same_type_layers :: "(string, layer_spec) dict \<Rightarrow> (layer_spec, string list) dict" where
  "same_type_layers specs = fold (\<lambda>(layer_name, s). append_to s layer_name) specs []"

definition choose_group_size :: "int list \<Rightarrow> int result" where
  "choose_group_size lens =
     bindE (py_min lens) (\<lambda>min_num_layers.
     bindE (py_max lens) (\<lambda>max_num_layers.
       Inr (if 2 * max_num_layers < 3 * min_num_layers then max_num_layers else min_num_layers)))"

definition split_layers :: "int \<Rightarrow> string list \<Rightarrow> string list list result" where
  "split_layers group_size layers =
     bindE (py_mod (int (length layers)) group_size) (\<lambda>_.
     bindE (py_cdiv (int (length layers)) group_size) (\<lambda>num_groups.
       Inr (map (\<lambda>i. slice_step layers i num_groups) [0..num_groups - 1])))"

definition get_kv_cache_groups_uniform_page_size ::
    "(string \<Rightarrow> int) \<Rightarrow> (string, layer_spec) dict \<Rightarrow> kv_cache_group_spec list result" where
  "get_kv_cache_groups_uniform_page_size dsize specs =
     (let same = same_type_layers specs
      in
      bindE (choose_group_size (map (\<lambda>layers. int (length layers)) (dict_values same))) (\<lambda>group_size.
      bindE (mapE (split_layers group_size) (dict_values same)) (\<lambda>grouped_layers.
        create_kv_cache_group_specs dsize specs (concat grouped_layers))))"

subsection \<open>The binary search\<close>

text \<open>A length-dependent amount that never raises, is not negative and grows with the length.\<close>

definition mono_len :: "(int \<Rightarrow> int result) \<Rightarrow> bool" where
  "mono_len f \<longleftrightarrow>
     (\<exists>g. \<forall>l \<ge> 1. f l = Inr (g l) \<and> 0 \<le> g l \<and> (\<forall>l' \<ge> l. g l \<le> (g l' :: int)))"

lemma mono_lenI:
  "(\<And>l. 1 \<le> l \<Longrightarrow> f l = Inr (g l)) \<Longrightarrow> (\<And>l. 1 \<le> l \<Longrightarrow> 0 \<le> g l) \<Longrightarrow>
   (\<And>l l'. 1 \<le> l \<Longrightarrow> l \<le> l' \<Longrightarrow> g l \<le> g l') \<Longrightarrow> mono_len f"
  unfolding mono_len_def by blast

lemma mono_lenE:
  assumes "mono_len f"
  obtains g where "\<And>l. 1 \<le> l \<Longrightarrow> f l = Inr (g l)" and "\<And>l. 1 \<le> l \<Longrightarrow> 0 \<le> g l"
    and "\<And>l l'. 1 \<le> l \<Longrightarrow> l \<le> l' \<Longrightarrow> g l \<le> g l'"
  using assms unfolding mono_len_def by blast

lemma mono_len_const: "0 \<le> c \<Longrightarrow> mono_len (\<lambda>l. Inr c)"
  by (rule mono_lenI[where g = "\<lambda>l. c"]) auto

lemma mono_len_cdiv: "mono_len f \<Longrightarrow> 0 < b \<Longrightarrow> mono_len (\<lambda>l. bindE (f l) (\<lambda>m. py_cdiv m b))"
  by (erule mono_lenE, rule_tac g = "\<lambda>l. cdiv (g l) b" in mono_lenI)
    (auto intro: cdiv_nonneg cdiv_mono)

lemma mono_len_times: "mono_len f \<Longrightarrow> 0 \<le> b \<Longrightarrow> mono_len (\<lambda>l. bindE (f l) (\<lambda>m. Inr (m * b)))"
  by (erule mono_lenE, rule_tac g = "\<lambda>l. g l * b" in mono_lenI)
    (auto intro: mult_right_mono)

lemma mono_len_mapE:
  assumes "\<And>x. x \<in> set xs \<Longrightarrow> mono_len (\<lambda>l. f l x)"
  shows "\<exists>g. \<forall>l \<ge> 1. mapE (f l) xs = Inr (map (g l) xs) \<and>
           (\<forall>x \<in> set xs. 0 \<le> g l x \<and> (\<forall>l' \<ge> l. g l x \<le> (g l' x :: int)))"
proof -
  from assms have "\<forall>x \<in> set xs. \<exists>g. \<forall>l \<ge> 1. f l x = Inr (g l) \<and> 0 \<le> g l \<and> (\<forall>l' \<ge> l. g l \<le> g l')"
    unfolding mono_len_def by blast
  then obtain h where h: "\<forall>x \<in> set xs. \<forall>l \<ge> 1. f l x = Inr (h x l) \<and> 0 \<le> h x l \<and> (\<forall>l' \<ge> l. h x l \<le> h x l')"
    by metis
  have "mapE (f l) xs = Inr (map (\<lambda>x. h x l) xs)" if "1 \<le> l" for l
    by (rule mapE_total) (use h that in auto)
  with h show ?thesis by (intro exI[of _ "\<lambda>l x. h x l"]) auto
qed

lemma mono_len_sum:
  assumes "\<And>x. x \<in> set xs \<Longrightarrow> mono_len (\<lambda>l. f l x)"
  shows "mono_len (\<lambda>l. bindE (mapE (f l) xs) (\<lambda>ms. Inr (sum_list ms)))"
proof -
  from mono_len_mapE[of xs f, OF assms] obtain g where g: "\<forall>l \<ge> 1. mapE (f l) xs = Inr (map (g l) xs) \<and>
      (\<forall>x \<in> set xs. 0 \<le> g l x \<and> (\<forall>l' \<ge> l. g l x \<le> (g l' x :: int)))" by blast
  show ?thesis
    by (rule mono_lenI[where g = "\<lambda>l. sum_list (map (g l) xs)"])
      (use g in \<open>auto intro!: sum_list_nonneg sum_list_mono\<close>)
qed

lemma mono_len_max:
  assumes "\<And>x. x \<in> set xs \<Longrightarrow> mono_len (\<lambda>l. f l x)" and ne: "xs \<noteq> []"
  shows "mono_len (\<lambda>l. bindE (mapE (f l) xs) py_max)"
proof -
  from mono_len_mapE[of xs f, OF assms(1)] obtain g where g: "\<forall>l \<ge> 1. mapE (f l) xs = Inr (map (g l) xs) \<and>
      (\<forall>x \<in> set xs. 0 \<le> g l x \<and> (\<forall>l' \<ge> l. g l x \<le> (g l' x :: int)))" by blast
  have le: "Max (g l ` set xs) \<le> Max (g l' ` set xs)" if "1 \<le> l" "l \<le> l'" for l l'
  proof (rule Max.boundedI)
    fix a assume "a \<in> g l ` set xs"
    then obtain x where "x \<in> set xs" "a = g l x" by blast
    with g that show "a \<le> Max (g l' ` set xs)"
      by (meson Max_ge finite_imageI List.finite_set image_eqI order_trans)
  qed (use ne in auto)
  have nn: "0 \<le> Max (g l ` set xs)" if "1 \<le> l" for l
    using g that ne by (cases xs) (auto simp: Max_ge_iff)
  show ?thesis
    by (rule mono_lenI[where g = "\<lambda>l. Max (g l ` set xs)"]) (use le nn ne g in \<open>auto simp: py_max_eq\<close>)
qed

lemma mono_len_cong: "mono_len f \<Longrightarrow> (\<And>l. 1 \<le> l \<Longrightarrow> h l = f l) \<Longrightarrow> mono_len h"
  unfolding mono_len_def by metis

text \<open>The search keeps: every length below \<open>left\<close> fits, none above \<open>right\<close> does.\<close>

lemma search_max_len_correct:
  assumes "1 \<le> left" and "right \<le> N" and "left \<le> right + 1" and "best = max 1 (left - 1)" and "P 1" and "1 \<le> N"
    and "\<forall>l. 1 \<le> l \<longrightarrow> l \<le> N \<longrightarrow> fits l = Inr (P l)"
    and "\<forall>l l'. 1 \<le> l \<longrightarrow> l \<le> l' \<longrightarrow> l' \<le> N \<longrightarrow> P l' \<longrightarrow> P l"
    and "\<forall>l. 1 \<le> l \<longrightarrow> l < left \<longrightarrow> P l" and "\<forall>l. right < l \<longrightarrow> l \<le> N \<longrightarrow> \<not> P l"
  shows "\<exists>r. search_max_len fits left right best = Inr r \<and> 0 \<le> r \<and> r \<le> N \<and>
           (\<forall>l. 1 \<le> l \<longrightarrow> l \<le> N \<longrightarrow> (P l \<longleftrightarrow> l \<le> r))"
  using assms
proof (induction fits left right best rule: search_max_len.induct)
  case (1 fits left right best)
  note IH = "1.IH" and a = "1.prems"
  show ?case
  proof (cases "left \<le> right")
    case False
    then have r: "right = left - 1" using a(3) by simp
    have "1 \<le> right" using a(5,6,10) r by force
    then have "best = right" using r a(4) by simp
    with False a(1,2,9,10) r \<open>1 \<le> right\<close> show ?thesis
      by (subst search_max_len.simps) (force simp: not_le)
  next
    case True
    let ?mid = "(left + right) div 2"
    have mid: "left \<le> ?mid" "?mid \<le> right" using True by linarith+
    have f: "fits ?mid = Inr (P ?mid)" using a(1,2,7) mid by simp
    show ?thesis
    proof (cases "P ?mid")
      case True
      have "\<exists>r. search_max_len fits (?mid + 1) right ?mid = Inr r \<and> 0 \<le> r \<and> r \<le> N \<and>
              (\<forall>l. 1 \<le> l \<longrightarrow> l \<le> N \<longrightarrow> (P l \<longleftrightarrow> l \<le> r))"
      proof (rule IH(1)[OF \<open>left \<le> right\<close> refl f True _ a(2) _ _ a(5-8) _ a(10)])
        show "\<forall>l. 1 \<le> l \<longrightarrow> l < ?mid + 1 \<longrightarrow> P l" using a(2,8) mid True by force
      qed (use mid a(1) in auto)
      then show ?thesis using \<open>left \<le> right\<close> f True by (subst search_max_len.simps) (simp add: Let_def)
    next
      case False
      have "\<exists>r. search_max_len fits left (?mid - 1) best = Inr r \<and> 0 \<le> r \<and> r \<le> N \<and>
              (\<forall>l. 1 \<le> l \<longrightarrow> l \<le> N \<longrightarrow> (P l \<longleftrightarrow> l \<le> r))"
      proof (rule IH(2)[OF \<open>left \<le> right\<close> refl f False a(1) _ _ a(4-9)])
        show "\<forall>l. ?mid - 1 < l \<longrightarrow> l \<le> N \<longrightarrow> \<not> P l"
          using a(8)[rule_format, of ?mid] a(1) mid(1) False by force
      qed (use mid a(2) in auto)
      then show ?thesis using \<open>left \<le> right\<close> f False by (subst search_max_len.simps) (simp add: Let_def)
    qed
  qed
qed

lemma longest_fitting_correct:
  assumes mono: "mono_len f" and N: "1 \<le> N"
  shows "\<exists>r. longest_fitting (\<lambda>l. bindE (f l) (\<lambda>needed. Inr (needed \<le> avail))) N = Inr r \<and> 0 \<le> r \<and> r \<le> N \<and>
     (\<forall>l. 1 \<le> l \<longrightarrow> l \<le> N \<longrightarrow> (\<exists>m. f l = Inr m \<and> (m \<le> avail \<longleftrightarrow> l \<le> r)))"
proof -
  from mono obtain g where g: "\<And>l. 1 \<le> l \<Longrightarrow> f l = Inr (g l)"
    "\<And>l l'. 1 \<le> l \<Longrightarrow> l \<le> l' \<Longrightarrow> g l \<le> g l'" by (rule mono_lenE) blast
  let ?fits = "\<lambda>l. bindE (f l) (\<lambda>needed. Inr (needed \<le> avail))"
  show ?thesis
  proof (cases "g 1 \<le> avail")
    case True
    have "\<exists>r. search_max_len ?fits 1 N 1 = Inr r \<and> 0 \<le> r \<and> r \<le> N \<and>
        (\<forall>l. 1 \<le> l \<longrightarrow> l \<le> N \<longrightarrow> (g l \<le> avail \<longleftrightarrow> l \<le> r))"
      by (rule search_max_len_correct) (use N True in \<open>auto simp: g(1) dest: g(2)\<close>)
    with True show ?thesis by (auto simp: longest_fitting_def g(1))
  next
    case False
    then have "\<not> g l \<le> avail" if "1 \<le> l" for l using g(2)[of 1 l] that by simp
    with False N show ?thesis by (auto simp: longest_fitting_def g(1))
  qed
qed

subsection \<open>The memory of a request grows with the model length\<close>

definition sized :: "(string \<Rightarrow> int) \<Rightarrow> vllm_config \<Rightarrow> layer_spec \<Rightarrow> bool" where
  "sized dsize cfg s \<longleftrightarrow>
     (case page_size_bytes dsize s of Inl _ \<Rightarrow> False | Inr p \<Rightarrow> 0 < p) \<and> 0 < spec_block_size s \<and>
     spec_class_of s \<notin> {KVCacheSpec, AttentionSpec} \<and> 0 \<le> cfg_max_num_batched_tokens cfg \<and>
     0 \<le> cfg_max_num_encoder_input_tokens cfg \<and> 0 \<le> spec_num_speculative_blocks s \<and>
     (isinstance_spec s SlidingWindowSpec \<longrightarrow> cfg_decode_context_parallel_size cfg = 1 \<and>
        (case spec_sliding_window s of None \<Rightarrow> False | Some w \<Rightarrow> 1 \<le> w)) \<and>
     (isinstance_spec s ChunkedLocalAttentionSpec \<longrightarrow>
        (case spec_attention_chunk_size s of None \<Rightarrow> False | Some c \<Rightarrow> 0 \<le> c))"

lemma mono_len_min_cdiv: "0 \<le> c \<Longrightarrow> 0 < b \<Longrightarrow> mono_len (\<lambda>l. py_cdiv (min c l) b)"
  by (rule mono_lenI[where g = "\<lambda>l. cdiv (min c l) b"]) (auto intro: cdiv_nonneg cdiv_mono)

lemma mono_len_full_slots:
  "0 < b \<Longrightarrow> mono_len (\<lambda>l. py_cdiv (if cp > 1 then cdiv l cp else l) b)"
  by (rule mono_lenI[where g = "\<lambda>l. cdiv (if cp > 1 then cdiv l cp else l) b"])
    (auto intro!: cdiv_nonneg cdiv_mono)

lemma mono_len_plus: "mono_len f \<Longrightarrow> 0 \<le> c \<Longrightarrow> mono_len (\<lambda>l. bindE (f l) (\<lambda>n. Inr (n + c)))"
  by (erule mono_lenE, rule_tac g = "\<lambda>l. g l + c" in mono_lenI) auto

lemma mono_len_slots:
  assumes "sized dsize cfg s"
  shows "mono_len (\<lambda>l. slots_needed (cfg\<lparr>cfg_max_model_len := l\<rparr>) s)"
proof -
  have b: "0 < spec_block_size s" using assms by (simp add: sized_def)
  have "mono_len (\<lambda>l. swa_max_admission_blocks s (cfg_max_num_batched_tokens cfg) l)"
    if "isinstance_spec s SlidingWindowSpec"
    using assms that b mono_len_plus[OF mono_len_min_cdiv]
    by (auto simp: sized_def swa_max_admission_blocks_def an_int_def split: option.splits)
  moreover have "mono_len (\<lambda>l. chunked_max_admission_blocks s (cfg_max_num_batched_tokens cfg) l)"
    if "isinstance_spec s ChunkedLocalAttentionSpec"
    using assms that b mono_len_min_cdiv
    by (auto simp: sized_def chunked_max_admission_blocks_def an_int_def split: option.splits)
  moreover have "mono_len (\<lambda>l. bindE (py_cdiv l (spec_block_size s)) (\<lambda>n. Inr (n + spec_num_speculative_blocks s)))"
    using assms mono_len_plus[OF mono_len_full_slots[OF b, of 0]] by (simp add: sized_def)
  moreover have "0 \<le> cdiv (cfg_max_num_encoder_input_tokens cfg) (spec_block_size s)"
    using assms b by (auto simp: sized_def intro: cdiv_nonneg)
  ultimately show ?thesis
    using assms b mono_len_full_slots[OF b]
    unfolding slots_needed_def
    by (cases "layer_spec_kind s"; cases "cfg_mamba_cache_mode cfg = ''all''")
      (auto simp: layer_spec_kind_iff sized_def Let_def intro!: mono_len_const cong: if_cong)
qed

lemma mono_len_spec:
  assumes "sized dsize cfg s"
  shows "mono_len (\<lambda>l. spec_max_memory dsize (cfg\<lparr>cfg_max_model_len := l\<rparr>) s)"
proof (cases "has_slots s")
  case True
  obtain p where p: "page_size_bytes dsize s = Inr p" "0 < p"
    using assms by (auto simp: sized_def split: sum.splits)
  show ?thesis
    using mono_len_times[OF mono_len_slots[OF assms], of p] p
    by (simp add: spec_max_memory_slots[OF True] times_page_def[abs_def])
next
  case False
  with assms have "spec_class_of s = EncoderOnlyAttentionSpec" by (simp add: sized_def has_slots_def)
  then show ?thesis by (simp add: spec_max_memory_def mono_len_const)
qed

lemma mono_len_pages:
  assumes "\<And>s. s \<in> set (dict_values specs) \<Longrightarrow> sized dsize cfg s" and "specs \<noteq> []"
  shows "mono_len (\<lambda>l. max_memory_usage_pages dsize (cfg\<lparr>cfg_max_model_len := l\<rparr>) specs)"
  unfolding max_memory_usage_pages_def
proof (rule mono_len_max)
  fix s assume "s \<in> set (dict_values specs)"
  with assms have s: "sized dsize cfg s" by blast
  then obtain p where p: "page_size_bytes dsize s = Inr p" "0 < p"
    by (auto simp: sized_def split: sum.splits)
  show "mono_len (\<lambda>l. bindE (spec_max_memory dsize (cfg\<lparr>cfg_max_model_len := l\<rparr>) s)
      (\<lambda>m. bindE (page_size_bytes dsize s) (\<lambda>p. py_cdiv m p)))"
    using mono_len_cdiv[OF mono_len_spec[OF s] p(2)] p(1) by simp
qed (use assms in auto)

fun kv_sized :: "(string \<Rightarrow> int) \<Rightarrow> vllm_config \<Rightarrow> kv_cache_spec \<Rightarrow> bool" where
  "kv_sized dsize cfg (LayerSpec s) \<longleftrightarrow> sized dsize cfg s"
| "kv_sized dsize cfg (UniformTypeKVCacheSpecs b specs) \<longleftrightarrow>
     specs \<noteq> [] \<and> (\<forall>s \<in> set (dict_values specs). sized dsize cfg s)"

lemma sized_page_sizes:
  assumes "\<And>s. s \<in> set (dict_values specs) \<Longrightarrow> sized dsize cfg s"
  shows "\<exists>ps. page_sizes dsize specs = Inr ps \<and> (\<forall>p \<in> set ps. 0 < p) \<and> length ps = length specs"
proof -
  have e: "page_size_bytes dsize s = Inr (projr (page_size_bytes dsize s)) \<and> 0 < projr (page_size_bytes dsize s)"
    if "s \<in> set (dict_values specs)" for s
    using assms[OF that] by (auto simp: sized_def split: sum.splits)
  show ?thesis
    unfolding page_sizes_def
    by (rule exI[of _ "map (\<lambda>s. projr (page_size_bytes dsize s)) (dict_values specs)"])
      (use e in \<open>auto intro!: mapE_total simp del: map_map\<close>)
qed

lemma mono_len_kv:
  assumes "kv_sized dsize cfg u"
  shows "mono_len (\<lambda>l. kv_max_memory dsize (cfg\<lparr>cfg_max_model_len := l\<rparr>) u)"
proof (cases u)
  case (LayerSpec s)
  with assms mono_len_spec show ?thesis by simp
next
  case (UniformTypeKVCacheSpecs b specs)
  with assms have s: "\<And>s. s \<in> set (dict_values specs) \<Longrightarrow> sized dsize cfg s" and ne: "specs \<noteq> []" by auto
  from sized_page_sizes[OF s] obtain ps where ps: "page_sizes dsize specs = Inr ps" "\<forall>p \<in> set ps. 0 < p"
    by blast
  then have "0 \<le> sum_list ps" by (intro sum_list_nonneg) force
  from mono_len_times[OF mono_len_pages[OF s ne] this] ps(1) UniformTypeKVCacheSpecs
  show ?thesis by simp
qed

lemma mono_len_memory:
  assumes "\<And>u. u \<in> set us \<Longrightarrow> kv_sized dsize cfg u"
  shows "mono_len (\<lambda>l. max_memory_usage_bytes dsize (cfg\<lparr>cfg_max_model_len := l\<rparr>) us)"
  unfolding max_memory_usage_bytes_def by (rule mono_len_sum) (rule mono_len_kv[OF assms])

subsection \<open>Block sizes\<close>

lemma fold_lcm_dvd: "fold lcm xs (a :: int) dvd m \<longleftrightarrow> a dvd m \<and> (\<forall>x \<in> set xs. x dvd m)"
  by (induction xs arbitrary: a) auto

lemma dvd_fold_gcd: "m dvd fold gcd xs (a :: int) \<longleftrightarrow> m dvd a \<and> (\<forall>x \<in> set xs. m dvd x)"
  by (induction xs arbitrary: a) auto

lemma fold_lcm_pos: "0 < (a :: int) \<Longrightarrow> \<forall>x \<in> set xs. 0 < x \<Longrightarrow> 0 < fold lcm xs a"
  by (induction xs arbitrary: a) (auto simp: lcm_pos_int)

lemma hash_block_size_dvd:
  assumes "allE (\<lambda>bs. bindE (py_mod bs h) (\<lambda>r. Inr (r = 0))) xs = Inr True"
  shows "\<forall>x \<in> set xs. h dvd x"
  using assms by (auto simp: allE_True_iff bindE_Inr_iff dvd_eq_mod_eq_0)

lemma dvd_fold_lcm: "x \<in> set xs \<Longrightarrow> x dvd fold lcm xs (a :: int)"
  using fold_lcm_dvd[of xs a "fold lcm xs a"] by simp


definition example_groups :: "int list \<Rightarrow> kv_cache_config" where
  "example_groups block_sizes =
     \<lparr>num_blocks = 10, kv_cache_tensors = [],
      kv_cache_groups =
        map (\<lambda>b. \<lparr>layer_names = [], group_spec = LayerSpec ((full_layer 64)\<lparr>spec_block_size := b\<rparr>),
                 is_eagle_group = False\<rparr>) block_sizes\<rparr>"


subsection \<open>Unifying page sizes\<close>

lemma page_sizes_Inr:
  "page_sizes dsize specs = Inr ps \<longleftrightarrow>
     (\<forall>s \<in> set (dict_values specs). \<exists>p. page_size_bytes dsize s = Inr p) \<and>
     ps = map (\<lambda>s. projr (page_size_bytes dsize s)) (dict_values specs)"
  unfolding page_sizes_def mapE_projr ..

lemma unify_layer_page_size_Inr:
  assumes "unify_layer_page_size dsize P s = Inr t"
  shows "\<exists>p k. page_size_bytes dsize s = Inr p \<and> P = p * k \<and> spec_block_size t = spec_block_size s * k \<and>
     page_size_bytes dsize t = Inr P"
proof -
  from assms obtain p where p: "page_size_bytes dsize s = Inr p"
    by (auto simp: unify_layer_page_size_def bindE_Inr_iff)
  have block: "spec_block_size t' = b" if "copy_with_new_block_size dsize s b = Inr t'" for t' b
    using that
    by (auto simp: copy_with_new_block_size_def post_init_def apply_alignment_padding_def
        default_head_size_v_def bindE_Inr_iff split: if_splits option.splits)
  show ?thesis
  proof (cases "p = P")
    case True
    with assms p show ?thesis by (intro exI[of _ p] exI[of _ 1]) (auto simp: unify_layer_page_size_def)
  next
    case False
    with assms p have "P = p * (P div p)" "copy_with_new_block_size dsize s (spec_block_size s * (P div p)) = Inr t"
      "page_size_bytes dsize t = Inr P"
      by (auto simp: unify_layer_page_size_def bindE_Inr_iff Let_def split: if_splits)
    with p block show ?thesis by blast
  qed
qed

text \<open>Specifications whose page size is proportional to the block size.\<close>

definition scalable :: "layer_spec \<Rightarrow> bool" where
  "scalable s \<longleftrightarrow>
     spec_class_of s \<notin> {KVCacheSpec, MambaSpec} \<and> spec_page_size_padded s = None \<and> spec_alignment s = None \<and>
     spec_compress_ratio s = 1 \<and> spec_head_size_v s \<noteq> None"

lemma scalable_page:
  assumes "scalable s" and "page_size_bytes dsize s = Inr p"
  shows "\<exists>t. copy_with_new_block_size dsize s (spec_block_size s * k) = Inr t \<and>
     page_size_bytes dsize t = Inr (p * k)"
  using assms
  by (cases "spec_class_of s")
    (auto simp: scalable_def copy_with_new_block_size_def post_init_def apply_alignment_padding_def
      default_head_size_v_def isinstance_iff page_size_bytes_def attention_page_size_bytes_def
      real_page_size_bytes_def attention_real_page_size_def full_real_page_size_def tq_real_page_size_def
      mla_real_page_size_def swa_mla_real_page_size_def storage_block_size_def padded_page_size_def
      Let_def bindE_Inr_iff algebra_simps split: if_splits)

lemma unify_layer_scalable:
  assumes "scalable s" and "page_size_bytes dsize s = Inr p" and "0 < p"
  shows "if p dvd P then \<exists>t. unify_layer_page_size dsize P s = Inr t
         else unify_layer_page_size dsize P s = Inl NotImplementedError"
proof (cases "p dvd P")
  case True
  then obtain k where k: "P = p * k" ..
  with scalable_page[OF assms(1,2), of k] assms(2,3) True show ?thesis
    by (auto simp: unify_layer_page_size_def Let_def)
qed (use assms in \<open>auto simp: unify_layer_page_size_def dvd_eq_mod_eq_0\<close>)

text \<open>The pages of the result, layer by layer.\<close>

definition unified_to :: "(string \<Rightarrow> int) \<Rightarrow> int \<Rightarrow> layer_spec \<Rightarrow> layer_spec \<Rightarrow> bool" where
  "unified_to dsize P s t \<longleftrightarrow>
     page_size_bytes dsize t = Inr P \<and>
     (\<exists>p k. page_size_bytes dsize s = Inr p \<and> P = p * k \<and> spec_block_size t = spec_block_size s * k)"

lemma single_page_size:
  assumes "length (remdups ps) \<le> 1" and "p \<in> set ps"
  shows "p = Max (set ps)"
proof (rule remdups_le_one)
  show "length (remdups ps) \<le> Suc 0" using assms(1) by simp
  show "Max (set ps) \<in> set ps" using assms(2) by (intro Max_in) auto
qed (rule assms(2))

lemma page_in_page_sizes:
  assumes "page_sizes dsize specs = Inr ps" and "(n, s) \<in> set specs"
  shows "\<exists>p \<in> set ps. page_size_bytes dsize s = Inr p"
proof -
  have "s \<in> set (dict_values specs)" using assms(2) by force
  with assms(1) show ?thesis unfolding page_sizes_Inr by force
qed

lemma unify_page_size_Inr:
  assumes ps: "page_sizes dsize specs = Inr ps" and ne: "specs \<noteq> []"
    and u: "unify_kv_cache_spec_page_size dsize specs = Inr specs'"
  shows "list_all2 (\<lambda>(n, s) (n', t). n' = n \<and> unified_to dsize (Max (set ps)) s t) specs specs'"
proof (cases "length (remdups ps) \<le> 1")
  case True
  then have "specs' = specs" using u ps by (simp add: unify_kv_cache_spec_page_size_def)
  moreover have "unified_to dsize (Max (set ps)) s s" if "(n, s) \<in> set specs" for n s
  proof -
    from page_in_page_sizes[OF ps that] single_page_size[OF True]
    have "page_size_bytes dsize s = Inr (Max (set ps))" by auto
    then show ?thesis unfolding unified_to_def by (auto intro: exI[of _ 1])
  qed
  ultimately show ?thesis by (auto simp: list_all2_same)
next
  case False
  with ne have "ps \<noteq> []" by auto
  let ?f = "\<lambda>(layer_name, s). bindE (unify_layer_page_size dsize (Max (set ps)) s) (\<lambda>t. Inr (layer_name, t))"
  have "mapE ?f specs = Inr specs'"
    using False u ps \<open>ps \<noteq> []\<close> by (simp add: unify_kv_cache_spec_page_size_def py_max_eq)
  then have "list_all2 (\<lambda>x y. ?f x = Inr y) specs specs'" by (simp only: mapE_Inr_iff)
  then show ?thesis
  proof (rule list_all2_mono)
    fix x y assume "?f x = Inr y"
    then show "(\<lambda>(n, s) (n', t). n' = n \<and> unified_to dsize (Max (set ps)) s t) x y"
      by (cases x) (auto simp: bindE_Inr_iff unified_to_def dest!: unify_layer_page_size_Inr)
  qed
qed

lemma unify_page_size_scalable:
  assumes ps: "page_sizes dsize specs = Inr ps" and pos: "\<forall>p \<in> set ps. 0 < p"
    and sc: "\<forall>s \<in> set (dict_values specs). scalable s"
  shows "if \<forall>p \<in> set ps. p dvd Max (set ps) then \<exists>specs'. unify_kv_cache_spec_page_size dsize specs = Inr specs'
         else unify_kv_cache_spec_page_size dsize specs = Inl NotImplementedError"
proof (cases "length (remdups ps) \<le> 1")
  case True
  from single_page_size[OF True] have "\<forall>p \<in> set ps. p dvd Max (set ps)" by simp
  with True ps show ?thesis by (simp add: unify_kv_cache_spec_page_size_def)
next
  case False
  then have "ps \<noteq> []" by auto
  let ?f = "\<lambda>(layer_name, s). bindE (unify_layer_page_size dsize (Max (set ps)) s) (\<lambda>t. Inr (layer_name, t))"
  have eq: "unify_kv_cache_spec_page_size dsize specs = mapE ?f specs"
    using False ps \<open>ps \<noteq> []\<close> by (simp add: unify_kv_cache_spec_page_size_def py_max_eq)
  have layer: "\<exists>p \<in> set ps. page_size_bytes dsize (snd x) = Inr p \<and>
      (if p dvd Max (set ps) then \<exists>y. ?f x = Inr y else ?f x = Inl NotImplementedError)"
    if "x \<in> set specs" for x
  proof -
    obtain n s where x: "x = (n, s)" by fastforce
    from page_in_page_sizes[OF ps] that x obtain p where p: "p \<in> set ps" "page_size_bytes dsize s = Inr p"
      by blast
    moreover have "scalable s" using sc that x by force
    ultimately show ?thesis
      using unify_layer_scalable[of s dsize p "Max (set ps)"] pos x by (auto split: if_splits)
  qed
  show ?thesis
  proof (cases "\<forall>p \<in> set ps. p dvd Max (set ps)")
    case True
    then have "\<forall>x \<in> set specs. \<exists>y. ?f x = Inr y" using layer by (metis (no_types, lifting))
    then have "\<exists>specs'. mapE ?f specs = Inr specs'" unfolding mapE_projr by blast
    with True eq show ?thesis by simp
  next
    case no: False
    then obtain x where x: "x \<in> set specs" "\<not> projr (page_size_bytes dsize (snd x)) dvd Max (set ps)"
      using ps unfolding page_sizes_Inr by force
    with layer[OF x(1)] have "?f x = Inl NotImplementedError" by (auto split: if_splits)
    with x(1) have "\<nexists>ys. mapE ?f specs = Inr ys" unfolding mapE_projr by force
    then obtain e where e: "mapE ?f specs = Inl e" by (cases "mapE ?f specs") auto
    from mapE_Inl[OF this] obtain y where y: "y \<in> set specs" "?f y = Inl e" by blast
    with layer[OF y(1)] have "e = NotImplementedError" by (auto split: if_splits)
    with e eq no show ?thesis by simp
  qed
qed

text \<open>C31. Unifying the page sizes of a hybrid model keeps the layers and gives every layer the largest
  page size, by multiplying its block size with the factor its page size lacks. It succeeds for
  layers whose page size is proportional to their block size exactly when every page size
  divides the largest one, and raises \<open>NotImplementedError\<close> otherwise.\<close>

theorem unify_page_size_correct:
  assumes ps: "page_sizes dsize specs = Inr ps" and ne: "specs \<noteq> []" and pos: "\<forall>p \<in> set ps. 0 < p"
  shows "(\<forall>specs'. unify_kv_cache_spec_page_size dsize specs = Inr specs' \<longrightarrow>
       list_all2 (\<lambda>(n, s) (n', t). n' = n \<and> unified_to dsize (Max (set ps)) s t) specs specs') \<and>
     ((\<forall>s \<in> set (dict_values specs). scalable s) \<longrightarrow>
       (if \<forall>p \<in> set ps. p dvd Max (set ps) then \<exists>specs'. unify_kv_cache_spec_page_size dsize specs = Inr specs'
        else unify_kv_cache_spec_page_size dsize specs = Inl NotImplementedError))"
  using unify_page_size_Inr[OF ps ne] unify_page_size_scalable[OF ps pos] by blast

theorem unify_page_size_correct_witness:
  "unify_kv_cache_spec_page_size two_bytes [(''a'', full_layer 64), (''b'', window_layer 32)] =
     Inr [(''a'', full_layer 64), (''b'', (window_layer 32)\<lparr>spec_block_size := 32\<rparr>)] \<and>
   unified_to two_bytes 8192 (window_layer 32) ((window_layer 32)\<lparr>spec_block_size := 32\<rparr>) \<and>
   unify_kv_cache_spec_page_size two_bytes [(''a'', full_layer 64), (''b'', window_layer 48)] =
     Inl NotImplementedError"
proof -
  have p: "page_sizes two_bytes [(''a'', full_layer 64), (''b'', window_layer 32)] = Inr [8192, 4096]"
    "page_sizes two_bytes [(''a'', full_layer 64), (''b'', window_layer 48)] = Inr [8192, 6144]"
    by code_simp+
  have u: "unify_kv_cache_spec_page_size two_bytes [(''a'', full_layer 64), (''b'', window_layer 32)] =
     Inr [(''a'', full_layer 64), (''b'', (window_layer 32)\<lparr>spec_block_size := 32\<rparr>)]"
    by code_simp
  have sc: "\<forall>s \<in> set (dict_values [(''a'', full_layer 64), (''b'', window_layer 48)]). scalable s" by code_simp
  show ?thesis
    using unify_page_size_correct[OF p(1)] unify_page_size_correct[OF p(2)] u sc by simp
qed

subsection \<open>The groups of a hybrid model\<close>

lemma dict_set_sum:
  fixes h :: "'v \<Rightarrow> 'b :: cancel_comm_monoid_add"
  assumes "h e = 0"
  shows "sum_list (map h (dict_values (dict_set k v d))) + h (dict_get_default d k e) =
         sum_list (map h (dict_values d)) + h v"
  using assms by (induction d) (auto simp: dict_get_default_def ac_simps)

lemma dict_set_elem: "x \<in> set (dict_set k v d) \<Longrightarrow> x \<in> set d \<or> x = (k, v)"
  by (induction d) (auto split: if_splits)

lemma dict_get_default_elem: "dict_get_default d k e \<noteq> e \<Longrightarrow> (k, dict_get_default d k e) \<in> set d"
  by (auto simp: dict_get_default_def dest: map_of_SomeD split: option.splits)

lemma mset_concat_sum: "mset (concat xss) = sum_list (map mset xss)"
  by (induction xss) auto

lemma mset_append_to:
  "mset (concat (dict_values (append_to k v d))) = add_mset v (mset (concat (dict_values d)))"
  using dict_set_sum[of mset "[]" k "dict_get_default d k [] @ [v]" d]
  by (simp add: append_to_def mset_concat_sum del: mset_concat)

lemma append_to_elem:
  assumes "(s, names) \<in> set (append_to k v d)"
  shows "(s, names) \<in> set d \<or> s = k \<and> v \<in> set names \<and>
     (\<forall>n \<in> set names. n = v \<or> (\<exists>old. (k, old) \<in> set d \<and> n \<in> set old))"
  using dict_set_elem[OF assms[unfolded append_to_def]] dict_get_default_elem[of d k "[]"]
  by (cases "dict_get_default d k [] = []") auto

lemma same_type_layers_snoc:
  "same_type_layers (specs @ [(n, s)]) = append_to s n (same_type_layers specs)"
  by (simp add: same_type_layers_def)

lemma same_type_layers_mset: "mset (concat (dict_values (same_type_layers specs))) = mset (dict_keys specs)"
proof (induction specs rule: rev_induct)
  case (snoc x specs)
  then show ?case by (cases x) (simp add: same_type_layers_snoc mset_append_to)
qed (simp add: same_type_layers_def)

lemma same_type_layers_elem:
  "(s, names) \<in> set (same_type_layers specs) \<Longrightarrow> names \<noteq> [] \<and> (\<forall>n \<in> set names. (n, s) \<in> set specs)"
proof (induction specs arbitrary: s names rule: rev_induct)
  case Nil
  then show ?case by (simp add: same_type_layers_def)
next
  case (snoc x specs)
  obtain n t where x: "x = (n, t)" by fastforce
  from append_to_elem[OF snoc.prems[unfolded x same_type_layers_snoc]]
  show ?case using snoc.IH x by (elim disjE) (fastforce)+
qed

lemma slice_step_cond:
  "0 \<le> i \<Longrightarrow> i < n \<Longrightarrow> (i \<le> int k \<and> (int k - i) mod n = 0) \<longleftrightarrow> int k mod n = i"
  by (metis (no_types, opaque_lifting) diff_ge_0_iff_ge dvd_eq_mod_eq_0 mod_eq_dvd_iff mod_pos_pos_trivial
      of_nat_0_le_iff order_le_less_trans zmod_le_nonneg_dividend)

lemma slice_step_eq:
  "0 \<le> i \<Longrightarrow> i < n \<Longrightarrow> slice_step xs i n = map (\<lambda>k. xs ! k) (filter (\<lambda>k. int k mod n = i) [0..<length xs])"
  unfolding slice_step_def by (rule arg_cong[where f = "map _"], rule filter_cong) (simp_all add: slice_step_cond)

lemma sum_filter_mset:
  "distinct is \<Longrightarrow> sum_list (map (\<lambda>i. filter_mset (\<lambda>k. g k = i) M) is) = filter_mset (\<lambda>k. g k \<in> set is) M"
  by (induction "is") (auto intro!: multiset_eqI)

lemma image_mset_sum_list: "sum_list (map (\<lambda>i. image_mset f (F i)) is) = image_mset f (sum_list (map F is))"
  by (induction "is") simp_all

text \<open>The slices \<open>xs[i::n]\<close> for the starts below \<open>n\<close> partition the list, and no slice is longer than
  the list's length divided by \<open>n\<close>, rounded up.\<close>

lemma slice_step_partition:
  assumes "0 < n"
  shows "mset (concat (map (\<lambda>i. slice_step xs i n) [0..n - 1])) = mset xs"
proof -
  have "mset (concat (map (\<lambda>i. slice_step xs i n) [0..n - 1])) =
        sum_list (map (\<lambda>i. image_mset ((!) xs) (filter_mset (\<lambda>k. int k mod n = i) (mset [0..<length xs]))) [0..n - 1])"
    unfolding mset_concat_sum map_map comp_def
    by (rule arg_cong[where f = sum_list], rule map_cong) (auto simp: slice_step_eq)
  also have "\<dots> = image_mset ((!) xs)
      (sum_list (map (\<lambda>i. filter_mset (\<lambda>k. int k mod n = i) (mset [0..<length xs])) [0..n - 1]))"
    by (rule image_mset_sum_list)
  also have "\<dots> = image_mset ((!) xs) (mset [0..<length xs])"
    by (subst sum_filter_mset) (use assms in simp_all)
  also have "\<dots> = mset (map ((!) xs) [0..<length xs])" by (simp only: mset_map)
  finally show ?thesis by (simp only: map_nth)
qed

lemma length_slice_step:
  assumes "0 \<le> i" and "i < n" and "int (length xs) \<le> n * g"
  shows "int (length (slice_step xs i n)) \<le> g"
proof -
  let ?K = "{k. k < length xs \<and> int k mod n = i}"
  have "length (slice_step xs i n) = card ?K"
    using assms(1,2) by (simp add: slice_step_eq length_filter_conv_card cong: conj_cong)
  also have "\<dots> \<le> card {0..<g}"
  proof (rule card_inj_on_le[where f = "\<lambda>k. int k div n"])
    show "inj_on (\<lambda>k. int k div n) ?K"
      by (rule inj_onI) (metis (mono_tags, lifting) div_mult_mod_eq mem_Collect_eq of_nat_eq_iff)
    show "(\<lambda>k. int k div n) ` ?K \<subseteq> {0..<g}"
    proof
      fix y assume "y \<in> (\<lambda>k. int k div n) ` ?K"
      then obtain k where k: "k < length xs" "y = int k div n" by blast
      have "int k < g * n" using k(1) assms(3) by (simp add: mult.commute)
      moreover have "int k div n * n \<le> int k" using assms(1,2) by (simp add: minus_mod_eq_div_mult[symmetric])
      ultimately have "y * n < g * n" unfolding k(2) by (rule order_le_less_trans[rotated])
      then have "y < g" using assms(1,2) by (simp add: mult_less_cancel_right)
      moreover have "0 \<le> y" using k(2) assms(1,2) by (simp add: pos_imp_zdiv_nonneg_iff)
      ultimately show "y \<in> {0..<g}" by simp
    qed
  qed simp
  finally have "length (slice_step xs i n) \<le> nat g" by simp
  moreover have "0 \<le> n * g" using assms(3) by linarith
  then have "0 \<le> g" using assms(1,2) by (auto simp: zero_le_mult_iff)
  ultimately show ?thesis by simp
qed

lemma slice_step_nonempty:
  assumes "0 \<le> i" and "i < n" and "i < int (length xs)"
  shows "slice_step xs i n \<noteq> []"
proof -
  have "int (nat i) mod n = i" using assms by simp
  then have "nat i \<in> set (filter (\<lambda>k. int k mod n = i) [0..<length xs])" using assms by simp
  then show ?thesis unfolding slice_step_eq[OF assms(1,2)] by (metis Nil_is_map_conv empty_iff list.set(1))
qed

lemma split_layers_correct:
  assumes sp: "split_layers gs layers = Inr gss" and gs: "0 < gs" and ne: "layers \<noteq> []"
  shows "mset (concat gss) = mset layers" and "int (length gss) = cdiv (int (length layers)) gs"
    and "\<And>g. g \<in> set gss \<Longrightarrow> g \<noteq> [] \<and> int (length g) \<le> gs \<and> set g \<subseteq> set layers"
proof -
  let ?n = "cdiv (int (length layers)) gs"
  have gss: "gss = map (\<lambda>i. slice_step layers i ?n) [0..?n - 1]"
    using sp gs by (simp add: split_layers_def)
  have len: "int (length layers) \<le> ?n * gs" using cdiv_bounds(1)[OF gs] .
  have "0 < int (length layers)" using ne by simp
  with len have "0 < ?n * gs" by linarith
  then have pos: "0 < ?n" using gs by (simp add: zero_less_mult_iff)
  have "int (length layers) \<le> int (length layers) * gs" using gs by (simp add: mult_le_cancel_left1)
  then have le: "?n \<le> int (length layers)" using gs by (simp add: cdiv_le_iff)
  show m: "mset (concat gss) = mset layers" unfolding gss by (rule slice_step_partition[OF pos])
  show "int (length gss) = ?n" using pos by (simp add: gss)
  show "g \<noteq> [] \<and> int (length g) \<le> gs \<and> set g \<subseteq> set layers" if g: "g \<in> set gss" for g
  proof -
    obtain i where i: "0 \<le> i" "i < ?n" "g = slice_step layers i ?n" using g by (auto simp: gss)
    moreover have "set g \<subseteq> set layers" using g mset_eq_setD[OF m] by auto
    ultimately show ?thesis using slice_step_nonempty[of i ?n layers] length_slice_step[of i ?n layers gs] len le
      by auto
  qed
qed

lemma choose_group_size_mem:
  assumes "choose_group_size lens = Inr gs"
  shows "gs \<in> set lens"
proof -
  from assms have "lens \<noteq> []" by (auto simp: choose_group_size_def bindE_Inr_iff py_min_Inr_iff)
  with assms show ?thesis
    by (auto simp: choose_group_size_def bindE_Inr_iff py_min_Inr_iff py_max_Inr_iff split: if_splits)
qed

lemma mapE_lookup_same:
  assumes "\<forall>n \<in> set names. dict_get specs n = Some s"
  shows "mapE (dict_lookup specs) names = Inr (replicate (length names) s)"
  using assms by (induction names) (auto simp: dict_lookup_def)

definition group_of_one_spec ::
    "(string \<Rightarrow> int) \<Rightarrow> (string, layer_spec) dict \<Rightarrow> kv_cache_group_spec \<Rightarrow> bool" where
  "group_of_one_spec dsize specs g \<longleftrightarrow>
     (\<exists>s m. (\<forall>n \<in> set (layer_names g). dict_get specs n = Some s) \<and>
            merge_specs dsize (replicate (length (layer_names g)) s) = Inr m \<and> group_spec g = LayerSpec m)"

lemma mapE_inverse:
  assumes "mapE f xs = Inr ys" and "\<And>x y. f x = Inr y \<Longrightarrow> h y = x"
  shows "map h ys = xs"
  using assms by (induction xs arbitrary: ys) (auto simp: bindE_Inr_iff)

lemma mapE_elem: "mapE f xs = Inr ys \<Longrightarrow> y \<in> set ys \<Longrightarrow> \<exists>x \<in> set xs. f x = Inr y"
  by (induction xs arbitrary: ys) (auto simp: bindE_Inr_iff)

lemma mapE_concat_lengths:
  assumes "mapE f xs = Inr yss" and "\<And>x ys. x \<in> set xs \<Longrightarrow> f x = Inr ys \<Longrightarrow> int (length ys) = h x"
  shows "int (length (concat yss)) = sum_list (map h xs)"
  using assms by (induction xs arbitrary: yss) (auto simp: bindE_Inr_iff)

lemma mapE_concat_mset:
  assumes "mapE f xs = Inr yss" and "\<And>x ys. x \<in> set xs \<Longrightarrow> f x = Inr ys \<Longrightarrow> mset (concat ys) = mset x"
  shows "mset (concat (concat yss)) = mset (concat xs)"
  using assms by (induction xs arbitrary: yss) (auto simp: bindE_Inr_iff)

text \<open>C28. The groups of a hybrid model partition its layers: every layer is in exactly one group, the
  layers of a group have one specification (which is the group's, merged), no group is empty or
  larger than the chosen group size, and every type of layer is split in as few groups as this
  size allows.\<close>

theorem hybrid_groups_partition:
  assumes dist: "distinct (dict_keys specs)"
    and groups: "get_kv_cache_groups_uniform_page_size dsize specs = Inr groups"
  shows "\<exists>size. choose_group_size (map (\<lambda>names. int (length names)) (dict_values (same_type_layers specs))) = Inr size \<and>
     0 < size \<and> mset (concat (map layer_names groups)) = mset (dict_keys specs) \<and>
     (\<forall>g \<in> set groups. layer_names g \<noteq> [] \<and> int (length (layer_names g)) \<le> size \<and> group_of_one_spec dsize specs g) \<and>
     int (length groups) =
       sum_list (map (\<lambda>names. cdiv (int (length names)) size) (dict_values (same_type_layers specs)))"
proof -
  let ?same = "same_type_layers specs"
  from groups obtain size gss where
    size: "choose_group_size (map (\<lambda>names. int (length names)) (dict_values ?same)) = Inr size"
    and gss: "mapE (split_layers size) (dict_values ?same) = Inr gss"
    and created: "mapE (create_group_spec dsize specs) (concat gss) = Inr groups"
    by (auto simp: get_kv_cache_groups_uniform_page_size_def create_kv_cache_group_specs_def Let_def bindE_Inr_iff)
  have ne: "names \<noteq> []" if "names \<in> set (dict_values ?same)" for names
    using that same_type_layers_elem by auto
  from choose_group_size_mem[OF size] obtain names where "names \<in> set (dict_values ?same)" "size = int (length names)"
    by auto
  with ne have pos: "0 < size" by auto
  note split = split_layers_correct[OF _ pos ne]
  have names: "map layer_names groups = concat gss"
    by (rule mapE_inverse[OF created]) (auto simp: create_group_spec_def bindE_Inr_iff)
  have "mset (concat (concat gss)) = mset (concat (dict_values ?same))"
    by (rule mapE_concat_mset[OF gss]) (rule split(1))
  then have "mset (concat (map layer_names groups)) = mset (dict_keys specs)"
    unfolding names same_type_layers_mset .
  moreover have "int (length groups) = sum_list (map (\<lambda>names. cdiv (int (length names)) size) (dict_values ?same))"
    unfolding names[symmetric, THEN arg_cong[where f = length], unfolded length_map, symmetric]
    by (rule mapE_concat_lengths[OF gss]) (rule split(2))
  moreover have "layer_names g \<noteq> [] \<and> int (length (layer_names g)) \<le> size \<and> group_of_one_spec dsize specs g"
    if g: "g \<in> set groups" for g
  proof -
    from mapE_elem[OF created g] obtain ns where "ns \<in> set (concat gss)" "create_group_spec dsize specs ns = Inr g" ..
    then have ns: "layer_names g \<in> set (concat gss)" "create_group_spec dsize specs (layer_names g) = Inr g"
      by (auto simp: create_group_spec_def bindE_Inr_iff)
    from ns(1) obtain gs where gs': "gs \<in> set gss" "layer_names g \<in> set gs" by auto
    with mapE_elem[OF gss gs'(1)] obtain s names where same: "(s, names) \<in> set ?same"
      and gs: "split_layers size names = Inr gs" "layer_names g \<in> set gs" by auto
    have sub: "layer_names g \<noteq> [] \<and> int (length (layer_names g)) \<le> size \<and> set (layer_names g) \<subseteq> set names"
      by (rule split(3)[OF gs(1) _ gs(2)]) (use same in force)
    have all: "\<forall>n \<in> set (layer_names g). dict_get specs n = Some s"
      using sub same_type_layers_elem[OF same] dist by auto
    from ns(2) obtain m where "merge_specs dsize (replicate (length (layer_names g)) s) = Inr m"
      "group_spec g = LayerSpec m"
      unfolding create_group_spec_def mapE_lookup_same[OF all] by (cases g) (auto simp: bindE_Inr_iff)
    with all have "group_of_one_spec dsize specs g" unfolding group_of_one_spec_def by blast
    with sub show ?thesis by simp
  qed
  ultimately show ?thesis using size pos by blast
qed

definition example_hybrid :: "(string, layer_spec) dict" where
  "example_hybrid =
     [(''full.0'', full_layer 64), (''sw.0'', window_layer 64), (''sw.1'', window_layer 64),
      (''full.1'', full_layer 64), (''sw.2'', window_layer 64)]"

definition layer_group :: "string list \<Rightarrow> layer_spec \<Rightarrow> kv_cache_group_spec" where
  "layer_group names s = \<lparr>layer_names = names, group_spec = LayerSpec s, is_eagle_group = False\<rparr>"

theorem hybrid_groups_partition_witness:
  "get_kv_cache_groups_uniform_page_size two_bytes example_hybrid =
     Inr [layer_group [''full.0'', ''full.1''] (full_layer 64),
          layer_group [''sw.0'', ''sw.2''] (window_layer 64), layer_group [''sw.1''] (window_layer 64)] \<and>
   mset [''full.0'', ''full.1'', ''sw.0'', ''sw.2'', ''sw.1''] = mset (dict_keys example_hybrid)"
proof -
  have g: "get_kv_cache_groups_uniform_page_size two_bytes example_hybrid =
     Inr [layer_group [''full.0'', ''full.1''] (full_layer 64),
          layer_group [''sw.0'', ''sw.2''] (window_layer 64), layer_group [''sw.1''] (window_layer 64)]"
    by code_simp
  have d: "distinct (dict_keys example_hybrid)" by code_simp
  from hybrid_groups_partition[OF d g] g show ?thesis by (auto simp: layer_group_def)
qed

end
