(* ===== verification/KV_Cache_Tensors.thy ===== *)
theory KV_Cache_Tensors
  imports KV_Cache_Config
begin

section \<open>The tensors of the KV cache\<close>

text \<open>
  vllm/v1/core/kv\_cache\_utils.py, \<open>_pool_bytes_per_block\<close>, \<open>_bucket_layers_by_page_size\<close>,
  \<open>_get_kv_cache_config_deepseek_v4\<close> and \<open>get_kv_cache_config_from_groups\<close>: the number of blocks
  that fit in the memory of a worker, and the tensors its layers share.
\<close>

subsection \<open>Definitions\<close>

text \<open>One layer is put in the next free slot of its page size.\<close>

definition bucket_layer ::
    "(string \<Rightarrow> int) \<Rightarrow> kv_cache_spec \<Rightarrow> string
     \<Rightarrow> (int, int) dict \<times> (int, string list list) dict
     \<Rightarrow> ((int, int) dict \<times> (int, string list list) dict) result" where
  "bucket_layer dsize s layer_name = (\<lambda>(slot_count, buckets).
     bindE (if is_UniformTypeKVCacheSpecs s
            then bindE (dict_lookup (uniform_specs s) layer_name) (page_size_bytes dsize)
            else kv_page_size_bytes dsize s) (\<lambda>ps.
       let slot_idx = dict_get_default slot_count ps 0;
           slot_count = dict_set ps (slot_idx + 1) slot_count;
           slots = dict_get_default buckets ps [];
           slots = (if slot_idx = int (length slots) then slots @ [[]] else slots)
       in
       bindE (py_index slots slot_idx) (\<lambda>slot.
         Inr (slot_count, dict_set ps (slots[nat slot_idx := slot @ [layer_name]]) buckets))))"

definition bucket_group ::
    "(string \<Rightarrow> int) \<Rightarrow> kv_cache_group_spec \<Rightarrow> (int, string list list) dict
     \<Rightarrow> (int, string list list) dict result" where
  "bucket_group dsize g buckets =
     bindE (foldE (bucket_layer dsize (group_spec g)) (layer_names g) ([], buckets)) (\<lambda>(_, buckets).
       Inr buckets)"

definition bucket_layers_by_page_size ::
    "(string \<Rightarrow> int) \<Rightarrow> kv_cache_group_spec list \<Rightarrow> (int, string list list) dict result" where
  "bucket_layers_by_page_size dsize groups = foldE (bucket_group dsize) groups []"

definition bytes_of_buckets :: "(int, string list list) dict \<Rightarrow> int" where
  "bytes_of_buckets buckets = sum_list (map (\<lambda>(ps, slots). ps * int (length slots)) buckets)"

definition is_single_uniform :: "kv_cache_group_spec list \<Rightarrow> bool" where
  "is_single_uniform groups \<longleftrightarrow>
     length groups = 1 \<and> is_UniformTypeKVCacheSpecs (group_spec (hd groups))"

definition all_uniform :: "kv_cache_group_spec list \<Rightarrow> bool" where
  "all_uniform groups \<longleftrightarrow> (\<forall>g \<in> set groups. is_UniformTypeKVCacheSpecs (group_spec g))"

definition max_group_size :: "kv_cache_group_spec list \<Rightarrow> int result" where
  "max_group_size groups = py_max (map (\<lambda>g. int (length (layer_names g))) groups)"

definition pool_bytes_per_block :: "(string \<Rightarrow> int) \<Rightarrow> kv_cache_group_spec list \<Rightarrow> int result" where
  "pool_bytes_per_block dsize groups =
     (if is_single_uniform groups then kv_page_size_bytes dsize (group_spec (hd groups))
      else if all_uniform groups then
        bindE (bucket_layers_by_page_size dsize groups) (\<lambda>buckets. Inr (bytes_of_buckets buckets))
      else
        bindE (max_group_size groups) (\<lambda>group_size.
        bindE (get_uniform_page_size dsize (map group_spec groups)) (\<lambda>page_size.
          Inr (page_size * group_size))))"

definition get_kv_cache_config_deepseek_v4 ::
    "(string \<Rightarrow> int) \<Rightarrow> vllm_config \<Rightarrow> kv_cache_group_spec list \<Rightarrow> int
     \<Rightarrow> (int \<times> kv_cache_tensor list) result" where
  "get_kv_cache_config_deepseek_v4 dsize cfg groups available_memory =
     bindE (bucket_layers_by_page_size dsize groups) (\<lambda>buckets.
     bindE (py_div available_memory (bytes_of_buckets buckets)) (\<lambda>n.
       let n = may_override_num_blocks cfg n
       in Inr (n, concat (map (\<lambda>(ps, slots).
                    map (\<lambda>slot. \<lparr>tensor_size = ps * n, shared_by = slot\<rparr>) slots) buckets))))"

definition shared_at :: "kv_cache_group_spec list \<Rightarrow> nat \<Rightarrow> string list" where
  "shared_at groups i =
     concat (map (\<lambda>g. if i < length (layer_names g) then [layer_names g ! i] else []) groups)"

definition uniform_type_tensors ::
    "(string \<Rightarrow> int) \<Rightarrow> vllm_config \<Rightarrow> kv_cache_group_spec \<Rightarrow> int
     \<Rightarrow> (int \<times> kv_cache_tensor list) result" where
  "uniform_type_tensors dsize cfg g available_memory =
     bindE (kv_page_size_bytes dsize (group_spec g)) (\<lambda>page.
     bindE (py_div available_memory page) (\<lambda>n.
       let n = may_override_num_blocks cfg n in
       bindE (mapE (\<lambda>layer_name.
                 bindE (dict_lookup (uniform_specs (group_spec g)) layer_name) (\<lambda>s.
                 bindE (page_size_bytes dsize s) (\<lambda>p.
                   Inr \<lparr>tensor_size = p * n, shared_by = [layer_name]\<rparr>))) (layer_names g)) (\<lambda>tensors.
         Inr (n, tensors))))"

definition general_tensors ::
    "(string \<Rightarrow> int) \<Rightarrow> vllm_config \<Rightarrow> kv_cache_group_spec list \<Rightarrow> int
     \<Rightarrow> (int \<times> kv_cache_tensor list) result" where
  "general_tensors dsize cfg groups available_memory =
     bindE (max_group_size groups) (\<lambda>group_size.
     bindE (get_uniform_page_size dsize (map group_spec groups)) (\<lambda>page_size.
     bindE (assertE (group_size > 0)) (\<lambda>_.
     bindE (get_num_blocks cfg group_size available_memory page_size) (\<lambda>n.
       Inr (n, map (\<lambda>i. \<lparr>tensor_size = page_size * n, shared_by = shared_at groups i\<rparr>)
                   [0..<nat group_size])))))"

definition get_kv_cache_config_from_groups ::
    "(string \<Rightarrow> int) \<Rightarrow> vllm_config \<Rightarrow> kv_cache_group_spec list \<Rightarrow> int \<Rightarrow> kv_cache_config result" where
  "get_kv_cache_config_from_groups dsize cfg groups available_memory =
     (if groups = [] then Inr \<lparr>num_blocks = 1, kv_cache_tensors = [], kv_cache_groups = groups\<rparr>
      else
        bindE (if is_single_uniform groups then uniform_type_tensors dsize cfg (hd groups) available_memory
               else if all_uniform groups then
                 get_kv_cache_config_deepseek_v4 dsize cfg groups available_memory
               else general_tensors dsize cfg groups available_memory) (\<lambda>(n, tensors).
          Inr \<lparr>num_blocks = n, kv_cache_tensors = tensors, kv_cache_groups = groups\<rparr>))"

subsection \<open>Every layer has a tensor of its own size\<close>

text \<open>The page size of a layer of a group.\<close>

definition layer_page :: "(string \<Rightarrow> int) \<Rightarrow> kv_cache_group_spec \<Rightarrow> string \<Rightarrow> int result" where
  "layer_page dsize g n =
     (if is_UniformTypeKVCacheSpecs (group_spec g)
      then bindE (dict_lookup (uniform_specs (group_spec g)) n) (page_size_bytes dsize)
      else kv_page_size_bytes dsize (group_spec g))"

text \<open>The names are the layers of the groups, and a tensor has \<open>num_blocks\<close> pages of each of its layers.\<close>

definition serves :: "(string \<Rightarrow> int) \<Rightarrow> kv_cache_group_spec list \<Rightarrow> int \<Rightarrow> kv_cache_tensor list \<Rightarrow> bool" where
  "serves dsize groups n tensors \<longleftrightarrow>
     mset (concat (map shared_by tensors)) = mset (concat (map layer_names groups)) \<and>
     (\<forall>t \<in> set tensors. \<forall>layer \<in> set (shared_by t).
        \<exists>g \<in> set groups. layer \<in> set (layer_names g) \<and>
          (\<exists>p. layer_page dsize g layer = Inr p \<and> tensor_size t = p * n))"

paragraph \<open>Buckets\<close>

definition bucket_names :: "(int, string list list) dict \<Rightarrow> string multiset" where
  "bucket_names buckets = sum_list (map (\<lambda>slots. mset (concat slots)) (dict_values buckets))"

definition in_bucket :: "(int, string list list) dict \<Rightarrow> int \<Rightarrow> string \<Rightarrow> bool" where
  "in_bucket buckets ps n \<longleftrightarrow> (\<exists>slots. (ps, slots) \<in> set buckets \<and> n \<in> set (concat slots))"

lemma mset_concat_update:
  "i < length xss \<Longrightarrow> mset (concat (xss[i := xss ! i @ [a]])) = add_mset a (mset (concat xss))"
proof (induction xss arbitrary: i)
  case (Cons xs xss)
  then show ?case by (cases i) auto
qed simp

definition nonneg :: "(int, int) dict \<Rightarrow> bool" where
  "nonneg cnt \<longleftrightarrow> (\<forall>k. 0 \<le> dict_get_default cnt k 0)"

lemma bucket_names_set:
  "bucket_names (dict_set ps slots buckets) + mset (concat (dict_get_default buckets ps [])) =
   bucket_names buckets + mset (concat slots)"
  unfolding bucket_names_def by (rule dict_set_sum) simp

lemma bucket_layer_step:
  assumes step: "bucket_layer dsize (group_spec g) n (cnt, buckets) = Inr (cnt', buckets')" and nn: "nonneg cnt"
  shows "nonneg cnt' \<and> bucket_names buckets' = add_mset n (bucket_names buckets) \<and>
     (\<exists>ps. layer_page dsize g n = Inr ps \<and>
        (\<forall>p m. in_bucket buckets' p m \<longrightarrow> in_bucket buckets p m \<or> p = ps \<and> m = n))"
proof -
  from step obtain ps where ps: "layer_page dsize g n = Inr ps"
    by (auto simp: bucket_layer_def layer_page_def bindE_Inr_iff)
  define i where "i = dict_get_default cnt ps 0"
  define old where "old = dict_get_default buckets ps []"
  define slots where "slots = (if i = int (length old) then old @ [[]] else old)"
  from step ps obtain slot where slot: "py_index slots i = Inr slot" "cnt' = dict_set ps (i + 1) cnt"
    "buckets' = dict_set ps (slots[nat i := slot @ [n]]) buckets"
    unfolding i_def old_def slots_def by (auto simp: bucket_layer_def layer_page_def Let_def bindE_Inr_iff)
  have i: "0 \<le> i" using nn by (simp add: nonneg_def i_def)
  with slot(1) have len: "nat i < length slots" "slot = slots ! nat i"
    by (auto simp: py_index_def Let_def split: if_splits)
  have same: "mset (concat slots) = mset (concat old)" by (simp add: slots_def)
  have upd: "mset (concat (slots[nat i := slot @ [n]])) = add_mset n (mset (concat old))"
    unfolding len(2) mset_concat_update[OF len(1)] same ..
  have "nonneg cnt'" using nn i by (simp add: slot(2) nonneg_def)
  moreover have "bucket_names buckets' = add_mset n (bucket_names buckets)"
    using bucket_names_set[of ps "slots[nat i := slot @ [n]]" buckets] upd by (simp add: slot(3) old_def)
  moreover have "in_bucket buckets p m \<or> p = ps \<and> m = n" if "in_bucket buckets' p m" for p m
  proof -
    from that obtain ss where ss: "(p, ss) \<in> set buckets'" "m \<in># mset (concat ss)"
      by (auto simp: in_bucket_def)
    from dict_set_elem[OF ss(1)[unfolded slot(3)]] show ?thesis
    proof
      assume "(p, ss) = (ps, slots[nat i := slot @ [n]])"
      then have "p = ps" and "ss = slots[nat i := slot @ [n]]" by simp_all
      moreover from this(2) ss(2) have "m \<in># add_mset n (mset (concat old))" by (simp only: upd)
      then have "m = n \<or> m \<in># mset (concat old)" by auto
      moreover have "(ps, old) \<in> set buckets" if "old \<noteq> []"
        using dict_get_default_elem[of buckets ps "[]"] that by (simp add: old_def)
      ultimately show ?thesis unfolding in_bucket_def by (cases "old = []") auto
    qed (use ss(2) in \<open>auto simp: in_bucket_def\<close>)
  qed
  ultimately show ?thesis using ps by blast
qed

lemma bucket_group_step:
  assumes "bucket_group dsize g buckets = Inr buckets'"
  shows "bucket_names buckets' = bucket_names buckets + mset (layer_names g) \<and>
     (\<forall>p m. in_bucket buckets' p m \<longrightarrow>
        in_bucket buckets p m \<or> m \<in> set (layer_names g) \<and> layer_page dsize g m = Inr p)"
proof -
  have "bucket_names buckets' = bucket_names buckets + mset names \<and>
     (\<forall>p m. in_bucket buckets' p m \<longrightarrow> in_bucket buckets p m \<or> m \<in> set names \<and> layer_page dsize g m = Inr p)"
    if "foldE (bucket_layer dsize (group_spec g)) names (cnt, buckets) = Inr (cnt', buckets')" "nonneg cnt"
    for names cnt cnt' buckets
    using that
  proof (induction names arbitrary: cnt buckets)
    case (Cons n names)
    from Cons.prems obtain c b where s: "bucket_layer dsize (group_spec g) n (cnt, buckets) = Inr (c, b)"
      and r: "foldE (bucket_layer dsize (group_spec g)) names (c, b) = Inr (cnt', buckets')"
      by (auto simp: bindE_Inr_iff)
    from bucket_layer_step[OF s Cons.prems(2)] Cons.IH[OF r] show ?case by fastforce
  qed simp
  from this[of "layer_names g" "[]"] assms show ?thesis
    by (auto simp: bucket_group_def bindE_Inr_iff nonneg_def dict_get_default_def)
qed

lemma bucket_layers_correct:
  assumes "bucket_layers_by_page_size dsize groups = Inr buckets"
  shows "bucket_names buckets = mset (concat (map layer_names groups)) \<and>
     (\<forall>p m. in_bucket buckets p m \<longrightarrow>
        (\<exists>g \<in> set groups. m \<in> set (layer_names g) \<and> layer_page dsize g m = Inr p))"
proof -
  have "bucket_names buckets = bucket_names b + mset (concat (map layer_names groups)) \<and>
     (\<forall>p m. in_bucket buckets p m \<longrightarrow>
        in_bucket b p m \<or> (\<exists>g \<in> set groups. m \<in> set (layer_names g) \<and> layer_page dsize g m = Inr p))"
    if "foldE (bucket_group dsize) groups b = Inr buckets" for b
    using that
  proof (induction groups arbitrary: b)
    case (Cons g groups)
    from Cons.prems obtain b' where s: "bucket_group dsize g b = Inr b'"
      and r: "foldE (bucket_group dsize) groups b' = Inr buckets" by (auto simp: bindE_Inr_iff)
    from bucket_group_step[OF s] Cons.IH[OF r] show ?case by fastforce
  qed simp
  from this[of "[]"] assms show ?thesis
    by (auto simp: bucket_layers_by_page_size_def bucket_names_def in_bucket_def)
qed

paragraph \<open>The three layouts\<close>

lemma tensors_of_buckets:
  fixes n :: int
  defines "tensors b \<equiv> concat (map (\<lambda>(ps, slots). map (\<lambda>slot. \<lparr>tensor_size = ps * n, shared_by = slot\<rparr>) slots) b)"
  shows "mset (concat (map shared_by (tensors b))) = bucket_names b"
    and "sum_list (map tensor_size (tensors b)) = bytes_of_buckets b * n"
    and "t \<in> set (tensors b) \<Longrightarrow> layer \<in> set (shared_by t) \<Longrightarrow> \<exists>ps. in_bucket b ps layer \<and> tensor_size t = ps * n"
proof -
  show "mset (concat (map shared_by (tensors b))) = bucket_names b"
    by (induction b) (auto simp: tensors_def bucket_names_def comp_def mset_concat_sum)
  show "sum_list (map tensor_size (tensors b)) = bytes_of_buckets b * n"
    by (induction b) (auto simp: tensors_def bytes_of_buckets_def comp_def sum_list_triv algebra_simps)
  show "\<exists>ps. in_bucket b ps layer \<and> tensor_size t = ps * n"
    if "t \<in> set (tensors b)" "layer \<in> set (shared_by t)"
    using that by (fastforce simp: tensors_def in_bucket_def)
qed

lemma deepseek_v4_serves:
  assumes "get_kv_cache_config_deepseek_v4 dsize cfg groups avail = Inr (n, tensors)"
  shows "\<exists>bytes. serves dsize groups n tensors \<and>
     bindE (bucket_layers_by_page_size dsize groups) (\<lambda>buckets. Inr (bytes_of_buckets buckets)) = Inr bytes \<and>
     bytes \<noteq> 0 \<and> sum_list (map tensor_size tensors) = bytes * n \<and> n = may_override_num_blocks cfg (avail div bytes)"
proof -
  from assms obtain b where b: "bucket_layers_by_page_size dsize groups = Inr b" and nz: "bytes_of_buckets b \<noteq> 0"
    and n: "n = may_override_num_blocks cfg (avail div bytes_of_buckets b)"
    and t: "tensors = concat (map (\<lambda>(ps, slots). map (\<lambda>slot. \<lparr>tensor_size = ps * n, shared_by = slot\<rparr>) slots) b)"
    by (auto simp: get_kv_cache_config_deepseek_v4_def Let_def bindE_Inr_iff)
  note tb = tensors_of_buckets[where n = n and b = b, folded t] and bl = bucket_layers_correct[OF b]
  have "serves dsize groups n tensors"
    unfolding serves_def
  proof (intro conjI ballI)
    show "mset (concat (map shared_by tensors)) = mset (concat (map layer_names groups))" using tb(1) bl by simp
    fix t layer assume "t \<in> set tensors" "layer \<in> set (shared_by t)"
    with tb(3) bl show "\<exists>g \<in> set groups. layer \<in> set (layer_names g) \<and>
        (\<exists>p. layer_page dsize g layer = Inr p \<and> tensor_size t = p * n)" by blast
  qed
  with tb(2) b nz n show ?thesis by auto
qed

lemma concat_singles:
  assumes "length xs \<le> k"
  shows "concat (map (\<lambda>i. if i < length xs then [xs ! i] else []) [0..<k]) = xs"
proof -
  have "concat (map (\<lambda>i. if i < length xs then [xs ! i] else []) [0..<length xs]) = map ((!) xs) [0..<length xs]"
    by (subst concat_map_singleton[symmetric], rule arg_cong[where f = concat]) simp
  moreover have "concat (map (\<lambda>i. if i < length xs then [xs ! i] else []) [length xs..<k]) = []"
    by simp
  moreover have "[0..<k] = [0..<length xs] @ [length xs..<k]"
    using upt_add_eq_append[of 0 "length xs" "k - length xs"] assms by simp
  ultimately show ?thesis by (simp add: map_nth)
qed

lemma shared_at_mset:
  assumes "\<And>g. g \<in> set groups \<Longrightarrow> length (layer_names g) \<le> k"
  shows "mset (concat (map (shared_at groups) [0..<k])) = mset (concat (map layer_names groups))"
  using assms
proof (induction groups)
  case (Cons g groups)
  have "mset (concat (map (shared_at (g # groups)) is)) =
      mset (concat (map (\<lambda>i. if i < length (layer_names g) then [layer_names g ! i] else []) is)) +
      mset (concat (map (shared_at groups) is))" for "is"
    by (induction "is") (auto simp: shared_at_def)
  with Cons show ?case by (simp add: concat_singles)
qed (simp add: shared_at_def)

lemma single_case_Inr: "(case xs of [q] \<Rightarrow> Inr q | _ \<Rightarrow> Inl e) = Inr p \<longleftrightarrow> xs = [p]"
  by (cases xs; cases "tl xs") auto

lemma uniform_page_of:
  assumes "get_uniform_page_size dsize us = Inr p" and "u \<in> set us"
  shows "kv_page_size_bytes dsize u = Inr p"
proof -
  from assms(1) obtain ps where ps: "mapE (kv_page_size_bytes dsize) us = Inr ps" "remdups ps = [p]"
    by (auto simp: get_uniform_page_size_def bindE_Inr_iff single_case_Inr)
  from ps(2) have set: "set ps = {p}" by (metis list.set(1) list.simps(15) set_remdups)
  from ps(1) assms(2) obtain q where q: "kv_page_size_bytes dsize u = Inr q"
    and "q \<in> set ps" by (force simp: mapE_projr)
  with set show ?thesis by simp
qed

lemma general_tensors_serve:
  assumes t: "general_tensors dsize cfg groups avail = Inr (n, tensors)"
    and layers: "\<forall>g \<in> set groups. is_LayerSpec (group_spec g)"
  shows "\<exists>page size. serves dsize groups n tensors \<and> max_group_size groups = Inr size \<and>
     get_uniform_page_size dsize (map group_spec groups) = Inr page \<and> 0 < size \<and> page \<noteq> 0 \<and>
     sum_list (map tensor_size tensors) = page * size * n \<and>
     n = may_override_num_blocks cfg (max (avail div page div size) 0)"
proof -
  from t obtain size page where size: "max_group_size groups = Inr size"
    and page: "get_uniform_page_size dsize (map group_spec groups) = Inr page" and pos: "0 < size" "page \<noteq> 0"
    and n: "n = may_override_num_blocks cfg (max (avail div page div size) 0)"
    and ts: "tensors = map (\<lambda>i. \<lparr>tensor_size = page * n, shared_by = shared_at groups i\<rparr>) [0..<nat size]"
    by (auto simp: general_tensors_def get_num_blocks_def bindE_Inr_iff)
  have len: "length (layer_names g) \<le> nat size" if "g \<in> set groups" for g
  proof -
    have "int (length (layer_names g)) \<le> size"
      using size that by (auto simp: max_group_size_def py_max_Inr_iff)
    then show ?thesis by simp
  qed
  have "mset (concat (map shared_by tensors)) = mset (concat (map layer_names groups))"
    using shared_at_mset[OF len] by (simp add: ts comp_def)
  moreover have "\<exists>g \<in> set groups. layer \<in> set (layer_names g) \<and>
      (\<exists>p. layer_page dsize g layer = Inr p \<and> tensor_size t = p * n)"
    if "t \<in> set tensors" "layer \<in> set (shared_by t)" for t layer
  proof -
    from that obtain g where g: "g \<in> set groups" "layer \<in> set (layer_names g)" and sz: "tensor_size t = page * n"
      by (auto simp: ts shared_at_def split: if_splits)
    have "kv_page_size_bytes dsize (group_spec g) = Inr page"
      by (rule uniform_page_of[OF page]) (use g in simp)
    with layers g sz show ?thesis by (cases "group_spec g") (auto simp: layer_page_def)
  qed
  moreover have "sum_list (map tensor_size tensors) = page * size * n"
    using pos by (simp add: ts comp_def sum_list_triv)
  ultimately show ?thesis using size page pos n unfolding serves_def by blast
qed

lemma uniform_tensors_serve:
  assumes t: "uniform_type_tensors dsize cfg g avail = Inr (n, tensors)"
    and u: "is_UniformTypeKVCacheSpecs (group_spec g)"
    and keys: "layer_names g = dict_keys (uniform_specs (group_spec g))" "distinct (layer_names g)"
  shows "\<exists>page. serves dsize [g] n tensors \<and> kv_page_size_bytes dsize (group_spec g) = Inr page \<and> page \<noteq> 0 \<and>
     sum_list (map tensor_size tensors) = page * n \<and> n = may_override_num_blocks cfg (avail div page)"
proof -
  let ?f = "\<lambda>layer. bindE (dict_lookup (uniform_specs (group_spec g)) layer) (\<lambda>s.
                 bindE (page_size_bytes dsize s) (\<lambda>p. Inr \<lparr>tensor_size = p * n, shared_by = [layer]\<rparr>))"
  from t obtain page where page: "kv_page_size_bytes dsize (group_spec g) = Inr page" "page \<noteq> 0"
    and n: "n = may_override_num_blocks cfg (avail div page)"
    and ts: "mapE ?f (layer_names g) = Inr tensors"
    by (auto simp: uniform_type_tensors_def Let_def bindE_Inr_iff)
  have names: "map (\<lambda>t. hd (shared_by t)) tensors = layer_names g"
    by (rule mapE_inverse[OF ts]) (auto simp: bindE_Inr_iff)
  have tensor: "\<exists>layer \<in> set (layer_names g). shared_by t = [layer] \<and>
      (\<exists>p. layer_page dsize g layer = Inr p \<and> tensor_size t = p * n)" if "t \<in> set tensors" for t
    using mapE_elem[OF ts that] u by (auto simp: bindE_Inr_iff layer_page_def)
  then have "concat (map shared_by tensors) = map (\<lambda>t. hd (shared_by t)) tensors"
    by (subst concat_map_singleton[symmetric], intro arg_cong[where f = concat] map_cong) fastforce+
  then have serves: "serves dsize [g] n tensors"
    unfolding serves_def
  proof (intro conjI ballI)
    fix t layer assume "t \<in> set tensors" "layer \<in> set (shared_by t)"
    with tensor show "\<exists>g' \<in> set [g]. layer \<in> set (layer_names g') \<and>
        (\<exists>p. layer_page dsize g' layer = Inr p \<and> tensor_size t = p * n)" by fastforce
  qed (simp add: names)
  obtain b specs where gs: "group_spec g = UniformTypeKVCacheSpecs b specs" using u by (cases "group_spec g") auto
  from page(1) gs obtain ps where ps: "page_sizes dsize specs = Inr ps" "page = sum_list ps"
    by (auto simp: bindE_Inr_iff)
  have sizes: "map tensor_size tensors = map (\<lambda>p. p * n) ps"
  proof (rule nth_equalityI)
    have l: "length tensors = length specs" "length ps = length specs"
      using mapE_length[OF ts] keys(1) gs mapE_length[OF ps(1)[unfolded page_sizes_def]] by simp_all
    then show "length (map tensor_size tensors) = length (map (\<lambda>p. p * n) ps)" by simp
    fix i assume "i < length (map tensor_size tensors)"
    with l have i: "i < length specs" "i < length ps" "i < length tensors" by simp_all
    have lookup: "dict_lookup specs (fst (specs ! i)) = Inr (snd (specs ! i))"
    proof -
      have "dict_get specs (fst (specs ! i)) = Some (snd (specs ! i))"
        by (rule map_of_is_SomeI) (use i keys gs in simp_all)
      then show ?thesis by (simp add: dict_lookup_def)
    qed
    have "page_size_bytes dsize (snd (specs ! i)) = Inr (ps ! i)"
      using mapE_nth[OF ps(1)[unfolded page_sizes_def], of i] i by simp
    with mapE_nth[OF ts, of i] lookup i keys(1) gs
    have "tensors ! i = \<lparr>tensor_size = ps ! i * n, shared_by = [fst (specs ! i)]\<rparr>" by simp
    with i show "map tensor_size tensors ! i = map (\<lambda>p. p * n) ps ! i" by simp
  qed
  have "sum_list (map tensor_size tensors) = page * n" unfolding sizes ps(2) by (simp add: sum_list_mult_const)
  with serves page n show ?thesis by blast
qed

text \<open>Blocks of a given size that fit in the memory.\<close>

lemma blocks_fit:
  assumes "0 < (bytes :: int)" shows "bytes * (avail div bytes) \<le> avail" "avail < bytes * (avail div bytes + 1)"
proof -
  have eq: "bytes * (avail div bytes) = avail - avail mod bytes" by (simp add: minus_mod_eq_mult_div)
  show "bytes * (avail div bytes) \<le> avail" unfolding eq using assms by simp
  show "avail < bytes * (avail div bytes + 1)" unfolding distrib_left eq using assms by simp
qed

definition one_kind :: "kv_cache_group_spec list \<Rightarrow> bool" where
  "one_kind groups \<longleftrightarrow>
     (all_uniform groups \<and> (\<forall>g \<in> set groups. layer_names g = dict_keys (uniform_specs (group_spec g)) \<and>
                                             distinct (layer_names g))) \<or>
     (\<forall>g \<in> set groups. is_LayerSpec (group_spec g))"

text \<open>C27. A worker's KV-cache configuration gives every layer of its groups exactly one tensor, which has
  room for \<open>num_blocks\<close> pages of that layer; the tensors take \<open>num_blocks\<close> times the bytes of a
  block of the pool; and unless the number of blocks is overridden, this is within the available
  memory and one more block would not be.\<close>

theorem cache_config_correct:
  assumes c: "get_kv_cache_config_from_groups dsize cfg groups avail = Inr c" and ne: "groups \<noteq> []"
    and kind: "one_kind groups" and pool: "pool_bytes_per_block dsize groups = Inr bytes" and pos: "0 < bytes"
    and avail: "0 \<le> avail"
  shows "serves dsize groups (num_blocks c) (kv_cache_tensors c) \<and> kv_cache_groups c = groups \<and>
     sum_list (map tensor_size (kv_cache_tensors c)) = bytes * num_blocks c \<and>
     (case cfg_num_gpu_blocks_override cfg of
        Some k \<Rightarrow> num_blocks c = k
      | None \<Rightarrow> bytes * num_blocks c \<le> avail \<and> avail < bytes * (num_blocks c + 1))"
proof -
  have n: "case cfg_num_gpu_blocks_override cfg of Some k \<Rightarrow> n = k
      | None \<Rightarrow> bytes * n \<le> avail \<and> avail < bytes * (n + 1)"
    if "n = may_override_num_blocks cfg (avail div bytes)" for n
    using that blocks_fit[OF pos, of avail] by (auto simp: may_override_num_blocks_def split: option.splits)
  consider "is_single_uniform groups" | "\<not> is_single_uniform groups" "all_uniform groups"
    | "\<not> is_single_uniform groups" "\<not> all_uniform groups" by blast
  then show ?thesis
  proof cases
    case 1
    then obtain g where g: "groups = [g]" "is_UniformTypeKVCacheSpecs (group_spec g)"
      by (cases groups) (auto simp: is_single_uniform_def)
    from c 1 g obtain n ts where t: "uniform_type_tensors dsize cfg g avail = Inr (n, ts)"
      and ceq: "c = \<lparr>num_blocks = n, kv_cache_tensors = ts, kv_cache_groups = groups\<rparr>"
      by (auto simp: get_kv_cache_config_from_groups_def bindE_Inr_iff)
    have keys: "layer_names g = dict_keys (uniform_specs (group_spec g))" "distinct (layer_names g)"
      using kind g by (auto simp: one_kind_def)
    have sel: "num_blocks c = n" "kv_cache_tensors c = ts" "kv_cache_groups c = groups" by (simp_all add: ceq)
    from uniform_tensors_serve[OF t g(2) keys] pool g(1) 1 n show ?thesis
      unfolding sel by (auto simp: pool_bytes_per_block_def)
  next
    case 2
    from c ne 2 obtain n ts where t: "get_kv_cache_config_deepseek_v4 dsize cfg groups avail = Inr (n, ts)"
      and ceq: "c = \<lparr>num_blocks = n, kv_cache_tensors = ts, kv_cache_groups = groups\<rparr>"
      by (auto simp: get_kv_cache_config_from_groups_def bindE_Inr_iff)
    have sel: "num_blocks c = n" "kv_cache_tensors c = ts" "kv_cache_groups c = groups" by (simp_all add: ceq)
    from deepseek_v4_serves[OF t] pool 2 n show ?thesis
      unfolding sel by (auto simp: pool_bytes_per_block_def)
  next
    case 3
    from c ne 3 obtain n ts where t: "general_tensors dsize cfg groups avail = Inr (n, ts)"
      and ceq: "c = \<lparr>num_blocks = n, kv_cache_tensors = ts, kv_cache_groups = groups\<rparr>"
      by (auto simp: get_kv_cache_config_from_groups_def bindE_Inr_iff)
    have layers: "\<forall>g \<in> set groups. is_LayerSpec (group_spec g)" using kind 3 by (auto simp: one_kind_def)
    from general_tensors_serve[OF t layers] obtain page size where *: "serves dsize groups n ts"
      "max_group_size groups = Inr size" "get_uniform_page_size dsize (map group_spec groups) = Inr page"
      "0 < size" "page \<noteq> 0" "sum_list (map tensor_size ts) = page * size * n"
      "n = may_override_num_blocks cfg (max (avail div page div size) 0)" by blast
    have bytes: "bytes = page * size" using pool 3 * by (simp add: pool_bytes_per_block_def)
    have page: "0 < page" using pos * bytes by (simp add: zero_less_mult_iff)
    have "avail div page div size = avail div bytes" using * page by (simp add: bytes zdiv_zmult2_eq)
    moreover have "0 \<le> avail div bytes" using pos avail by (simp add: pos_imp_zdiv_nonneg_iff)
    ultimately have nb: "n = may_override_num_blocks cfg (avail div bytes)" using *(7) by simp
    have sel: "num_blocks c = n" "kv_cache_tensors c = ts" "kv_cache_groups c = groups" by (simp_all add: ceq)
    from n[OF nb] *(1,6) show ?thesis unfolding sel bytes[symmetric] by blast
  qed
qed

theorem cache_config_correct_witness:
  "\<exists>c. get_kv_cache_config_from_groups two_bytes example_config
        [layer_group [''full.0'', ''full.1''] (full_layer 64), layer_group [''sw.0'', ''sw.2''] (window_layer 64),
         layer_group [''sw.1''] (window_layer 64)] 100000 = Inr c \<and>
     num_blocks c = 6 \<and> sum_list (map tensor_size (kv_cache_tensors c)) = 16384 * num_blocks c \<and>
     map shared_by (kv_cache_tensors c) = [[''full.0'', ''sw.0'', ''sw.1''], [''full.1'', ''sw.2'']]"
proof -
  let ?g = "[layer_group [''full.0'', ''full.1''] (full_layer 64), layer_group [''sw.0'', ''sw.2''] (window_layer 64),
         layer_group [''sw.1''] (window_layer 64)]"
  let ?c = "\<lparr>num_blocks = 6, kv_cache_tensors =
       [\<lparr>tensor_size = 49152, shared_by = [''full.0'', ''sw.0'', ''sw.1'']\<rparr>,
        \<lparr>tensor_size = 49152, shared_by = [''full.1'', ''sw.2'']\<rparr>], kv_cache_groups = ?g\<rparr>"
  have c: "get_kv_cache_config_from_groups two_bytes example_config ?g 100000 = Inr ?c" by code_simp
  have k: "one_kind ?g" by code_simp
  have b: "pool_bytes_per_block two_bytes ?g = Inr 16384" by code_simp
  have "sum_list (map tensor_size (kv_cache_tensors ?c)) = 16384 * num_blocks ?c"
    using cache_config_correct[OF c _ k b] by simp
  with c show ?thesis by auto
qed

end
