(* ===== verification/KV_Cache_Plan.thy ===== *)
theory KV_Cache_Plan
  imports KV_Cache_Tensors
begin

section \<open>From the layers of all workers to their cache configurations\<close>

text \<open>
  vllm/v1/core/kv\_cache\_utils.py, from \<open>unify_hybrid_kv_cache_specs\<close> to \<open>get_kv_cache_configs\<close>:
  conversion of hybrid models to one type, grouping of sliding-window MLA models in layer
  tuples, the choice of the groups, the fitting of the model length and the configuration of
  every worker.
\<close>

subsection \<open>Models without the hybrid manager\<close>

definition convert_hybrid_spec ::
    "(string \<Rightarrow> int) \<Rightarrow> int option \<Rightarrow> layer_spec \<Rightarrow> layer_spec result" where
  "convert_hybrid_spec dsize uniform_block_size s =
     (if isinstance_spec s SlidingWindowMLASpec then
        post_init dsize ((default_spec MLAAttentionSpec)
          \<lparr>spec_block_size := (case uniform_block_size of Some b \<Rightarrow> b | None \<Rightarrow> spec_block_size s),
           spec_num_kv_heads := spec_num_kv_heads s, spec_head_size := spec_head_size s,
           spec_dtype := spec_dtype s, spec_page_size_padded := spec_page_size_padded s,
           spec_cache_dtype_str := spec_cache_dtype_str s, spec_alignment := spec_alignment s,
           spec_compress_ratio := spec_compress_ratio s, spec_model_version := spec_model_version s\<rparr>)
      else if isinstance_spec s SlidingWindowSpec then
        post_init dsize ((default_spec FullAttentionSpec)
          \<lparr>spec_block_size := spec_block_size s, spec_num_kv_heads := spec_num_kv_heads s,
           spec_head_size := spec_head_size s, spec_head_size_v := spec_head_size_v s,
           spec_dtype := spec_dtype s, spec_kv_quant_mode := spec_kv_quant_mode s,
           spec_sliding_window := spec_sliding_window s,
           spec_page_size_padded := spec_page_size_padded s\<rparr>)
      else if isinstance_spec s ChunkedLocalAttentionSpec then
        post_init dsize ((default_spec FullAttentionSpec)
          \<lparr>spec_block_size := spec_block_size s, spec_num_kv_heads := spec_num_kv_heads s,
           spec_head_size := spec_head_size s, spec_dtype := spec_dtype s,
           spec_attention_chunk_size := spec_attention_chunk_size s,
           spec_page_size_padded := spec_page_size_padded s\<rparr>)
      else Inr s)"

definition is_one_type :: "(string \<Rightarrow> int) \<Rightarrow> registry \<Rightarrow> (string, layer_spec) dict \<Rightarrow> bool result" where
  "is_one_type dsize reg specs =
     bindE (is_kv_cache_spec_uniform dsize specs) (\<lambda>b.
       if b then Inr True else is_uniform_type reg specs)"

definition has_instance :: "spec_class \<Rightarrow> (string, layer_spec) dict \<Rightarrow> bool" where
  "has_instance c specs \<longleftrightarrow> (\<exists>s \<in> set (dict_values specs). isinstance_spec s c)"

definition unify_hybrid_kv_cache_specs ::
    "(string \<Rightarrow> int) \<Rightarrow> registry \<Rightarrow> (string, layer_spec) dict \<Rightarrow> (string, layer_spec) dict result" where
  "unify_hybrid_kv_cache_specs dsize reg specs =
     bindE (is_one_type dsize reg specs) (\<lambda>b.
       if b then Inr specs
       else
         let has_full_attention = has_instance FullAttentionSpec specs;
             has_sliding_window = has_instance SlidingWindowSpec specs;
             has_chunked_local_attention = has_instance ChunkedLocalAttentionSpec specs;
             has_swa_mla = has_instance SlidingWindowMLASpec specs
         in
         bindE (assertE (has_swa_mla \<longrightarrow> has_full_attention)) (\<lambda>_.
           let uniform_block_size =
                 (if has_swa_mla
                  then map_option spec_block_size
                         (find (\<lambda>s. isinstance_spec s FullAttentionSpec) (dict_values specs))
                  else None)
           in
           bindE (if has_full_attention \<and> (has_sliding_window \<or> has_chunked_local_attention)
                  then mapE (\<lambda>(layer_name, s).
                         bindE (convert_hybrid_spec dsize uniform_block_size s) (\<lambda>t.
                           Inr (layer_name, t))) specs
                  else Inr specs) (\<lambda>specs.
           bindE (is_one_type dsize reg specs) (\<lambda>b.
             if \<not> b then Inl ValueError else Inr specs))))"

subsection \<open>Layer tuples\<close>

definition approximate_gcd_step ::
    "int list \<Rightarrow> int \<Rightarrow> int \<times> int option \<Rightarrow> int \<times> int option" where
  "approximate_gcd_step values d = (\<lambda>(best_d, best_pad).
     let pad = sum_list (map (\<lambda>x. (d - (x mod d)) mod d) values)
     in case best_pad of
          None \<Rightarrow> (d, Some pad)
        | Some p \<Rightarrow> if pad < p \<or> (pad = p \<and> d > best_d) then (d, Some pad) else (best_d, best_pad))"

definition approximate_gcd :: "int list \<Rightarrow> int option \<Rightarrow> int result" where
  "approximate_gcd values lower_bound =
     (if values = [] then Inl ValueError
      else if \<exists>x \<in> set values. x \<le> 0 then Inl ValueError
      else
        let min_d = max 1 (case lower_bound of Some b \<Rightarrow> b | None \<Rightarrow> 1)
        in
        bindE (py_max values) (\<lambda>max_d.
          if min_d > max_d then Inr min_d
          else Inr (fst (fold (approximate_gcd_step values) [min_d..max_d] (min_d, None)))))"

definition dict_insert :: "'k \<Rightarrow> 'n \<Rightarrow> 'v \<Rightarrow> ('k, ('n, 'v) dict) dict \<Rightarrow> ('k, ('n, 'v) dict) dict" where
  "dict_insert k n v d = dict_set k (dict_set n v (dict_get_default d k [])) d"

definition some_or_assert :: "'a option \<Rightarrow> 'a result" where
  "some_or_assert x = (case x of None \<Rightarrow> Inl AssertionError | Some y \<Rightarrow> Inr y)"

definition group_and_unify_kv_cache_specs ::
    "registry \<Rightarrow> (string, layer_spec) dict \<Rightarrow> kv_cache_spec list option result" where
  "group_and_unify_kv_cache_specs reg specs =
     (if \<not> has_instance SlidingWindowMLASpec specs then Inr None
      else
        let mla_specs = filter (\<lambda>(name, s). \<not> isinstance_spec s SlidingWindowMLASpec \<and>
                                            isinstance_spec s MLAAttentionSpec) specs;
            grouped_swa_mla_specs =
              fold (\<lambda>(name, s) d. if isinstance_spec s SlidingWindowMLASpec
                                  then dict_insert (spec_block_size s, spec_sliding_window s) name s d
                                  else d) specs []
        in
        bindE (assertE (length mla_specs > 0)) (\<lambda>_.
        bindE (from_specs reg mla_specs) (\<lambda>mla.
        bindE (some_or_assert mla) (\<lambda>mla_uniform_spec.
        bindE (mapE (\<lambda>spec_dict. bindE (from_specs reg spec_dict) some_or_assert)
                 (dict_values grouped_swa_mla_specs)) (\<lambda>swa_uniform_specs.
          Inr (Some (mla_uniform_spec # swa_uniform_specs)))))))"

text \<open>The padding of one layer of a sliding-window group to a page size of the full group.\<close>

definition pad_swa_layer ::
    "(string \<Rightarrow> int) \<Rightarrow> (int, int) dict \<Rightarrow> string \<times> layer_spec
     \<Rightarrow> (string, layer_spec) dict \<times> (int, string list) dict
     \<Rightarrow> ((string, layer_spec) dict \<times> (int, string list) dict) result" where
  "pad_swa_layer dsize size_to_candidate = (\<lambda>(layer_name, s) (specs, layers_per_size).
     bindE (page_size_bytes dsize s) (\<lambda>current_size.
     bindE (dict_lookup size_to_candidate current_size) (\<lambda>candidate.
       Inr (if current_size < candidate
            then dict_set layer_name (s\<lparr>spec_page_size_padded := Some candidate\<rparr>) specs else specs,
            append_to candidate layer_name layers_per_size))))"

definition split_layer_tuples ::
    "registry \<Rightarrow> (string, layer_spec) dict \<Rightarrow> string list list \<Rightarrow> int
     \<Rightarrow> kv_cache_group_spec list result" where
  "split_layer_tuples reg specs layer_tuples num_tuple_groups =
     mapE (\<lambda>i.
         let group_layer_names = concat (slice_step layer_tuples i num_tuple_groups)
         in
         bindE (mapE (\<lambda>name. bindE (dict_lookup specs name) (\<lambda>s. Inr (name, s))) group_layer_names)
           (\<lambda>items.
              let group_layer_specs = fold (\<lambda>(n, s). dict_set n s) items []
              in
              bindE (from_specs reg group_layer_specs) (\<lambda>sub.
              bindE (some_or_assert sub) (\<lambda>sub_sm_spec.
                Inr \<lparr>layer_names = group_layer_names, group_spec = sub_sm_spec,
                     is_eagle_group = False\<rparr>))))
       [0..num_tuple_groups - 1]"

definition swa_mla_groups ::
    "(string \<Rightarrow> int) \<Rightarrow> registry \<Rightarrow> int list \<Rightarrow> int \<Rightarrow> (string, layer_spec) dict
     \<Rightarrow> kv_cache_group_spec list result" where
  "swa_mla_groups dsize reg all_page_sizes num_layer_tuples sm_specs =
     bindE (get_page_sizes dsize sm_specs) (\<lambda>sm_page_sizes.
     bindE (py_max sm_page_sizes) (\<lambda>sm_max.
     bindE (py_max all_page_sizes) (\<lambda>all_max.
     bindE (assertE (sm_max \<le> all_max)) (\<lambda>_.
     bindE (foldE (\<lambda>ps d. bindE (py_min (filter (\<lambda>x. x \<ge> ps) all_page_sizes)) (\<lambda>c.
                            Inr (dict_set ps c d))) sm_page_sizes []) (\<lambda>size_to_candidate.
     bindE (foldE (pad_swa_layer dsize size_to_candidate) sm_specs (sm_specs, []))
       (\<lambda>(specs, layers_per_size).
     bindE (assertE (length (remdups (map length (dict_values layers_per_size))) = 1)) (\<lambda>_.
       let num_layers_per_size = int (length (hd (dict_values layers_per_size)))
       in
       bindE (py_cdiv num_layers_per_size num_layer_tuples) (\<lambda>num_tuple_groups.
         split_layer_tuples reg specs (transpose (dict_values layers_per_size)) num_tuple_groups))))))))"

definition get_kv_cache_groups_uniform_groups ::
    "(string \<Rightarrow> int) \<Rightarrow> registry \<Rightarrow> kv_cache_spec list \<Rightarrow> kv_cache_group_spec list result" where
  "get_kv_cache_groups_uniform_groups dsize reg grouped_specs =
     bindE (assertE (length grouped_specs > 0 \<and>
                     (\<forall>s \<in> set grouped_specs. is_UniformTypeKVCacheSpecs s))) (\<lambda>_.
       let full_mla_spec = hd grouped_specs;
           swa_mla_specs = tl grouped_specs
       in
       bindE (assertE (\<forall>s \<in> set (dict_values (uniform_specs full_mla_spec)).
                         isinstance_spec s MLAAttentionSpec)) (\<lambda>_.
       let full_mla_group = \<lparr>layer_names = dict_keys (uniform_specs full_mla_spec),
                             group_spec = full_mla_spec, is_eagle_group = False\<rparr>
       in
       bindE (mapE (\<lambda>g. get_num_layer_tuples dsize (uniform_specs g)) grouped_specs) (\<lambda>tuples.
       bindE (approximate_gcd tuples (Some (hd tuples))) (\<lambda>num_layer_tuples.
       bindE (assertE (\<forall>g \<in> set swa_mla_specs. \<forall>s \<in> set (dict_values (uniform_specs g)).
                         isinstance_spec s SlidingWindowMLASpec)) (\<lambda>_.
       bindE (get_page_sizes dsize (uniform_specs full_mla_spec)) (\<lambda>all_page_sizes.
       bindE (mapE (\<lambda>g. swa_mla_groups dsize reg all_page_sizes num_layer_tuples (uniform_specs g))
                swa_mla_specs) (\<lambda>groups.
         Inr (full_mla_group # concat groups))))))))"

fun mark_first_with :: "string \<Rightarrow> kv_cache_group_spec list \<Rightarrow> kv_cache_group_spec list" where
  "mark_first_with layer [] = []"
| "mark_first_with layer (g # gs) =
     (if layer \<in> set (layer_names g) then g\<lparr>is_eagle_group := True\<rparr> # gs
      else g # mark_first_with layer gs)"

definition annotate_eagle_groups_deepseek_v4 ::
    "vllm_config \<Rightarrow> (string, layer_spec) dict \<Rightarrow> kv_cache_group_spec list
     \<Rightarrow> kv_cache_group_spec list" where
  "annotate_eagle_groups_deepseek_v4 cfg specs groups =
     (if \<not> cfg_use_eagle cfg then groups
      else if \<not> (\<exists>s \<in> set (dict_values specs). spec_model_version s = Some ''deepseek_v4'') then groups
      else mark_first_with (last (dict_keys specs)) groups)"

subsection \<open>The groups of a model\<close>

definition align_hidden_spec ::
    "(string \<Rightarrow> int) \<Rightarrow> int \<Rightarrow> string \<times> layer_spec \<Rightarrow> kv_cache_group_spec result" where
  "align_hidden_spec dsize common_page = (\<lambda>(name, s).
     let per_token = spec_num_kv_heads s * spec_head_size s * dsize (spec_dtype s)
     in
     bindE (py_div common_page per_token) (\<lambda>q.
       let new_bs = max q 1
       in
       bindE (post_init dsize (s\<lparr>spec_block_size := new_bs, spec_page_size_padded := Some common_page\<rparr>))
         (\<lambda>aligned. Inr \<lparr>layer_names = [name], group_spec = LayerSpec aligned, is_eagle_group = False\<rparr>)))"

definition general_groups ::
    "(string \<Rightarrow> int) \<Rightarrow> (string, layer_spec) dict \<Rightarrow> kv_cache_group_spec list result" where
  "general_groups dsize specs =
     (let hidden_specs = filter (\<lambda>(k, s). isinstance_spec s HiddenStateCacheSpec) specs;
          filtered_spec = filter (\<lambda>(k, s). \<not> isinstance_spec s HiddenStateCacheSpec) specs
      in
      bindE (unify_kv_cache_spec_page_size dsize filtered_spec) (\<lambda>filtered_spec.
      bindE (get_kv_cache_groups_uniform_page_size dsize filtered_spec) (\<lambda>groups.
        if hidden_specs \<noteq> [] then
          bindE (get_uniform_page_size dsize (map group_spec groups)) (\<lambda>common_page.
          bindE (mapE (align_hidden_spec dsize common_page) hidden_specs) (\<lambda>hidden_groups.
            Inr (groups @ hidden_groups)))
        else Inr groups)))"

definition get_kv_cache_groups ::
    "(string \<Rightarrow> int) \<Rightarrow> registry \<Rightarrow> vllm_config \<Rightarrow> (string, layer_spec) dict
     \<Rightarrow> kv_cache_group_spec list result" where
  "get_kv_cache_groups dsize reg cfg specs =
     bindE (if cfg_disable_hybrid_kv_cache_manager cfg then unify_hybrid_kv_cache_specs dsize reg specs
            else Inr specs) (\<lambda>specs.
       if is_kv_cache_type_attention_free specs then Inr []
       else
         bindE (is_kv_cache_spec_uniform dsize specs) (\<lambda>uniform.
           if uniform then get_kv_cache_groups_uniform_spec dsize specs
           else
             bindE (from_specs reg specs) (\<lambda>uniform_spec.
               case uniform_spec of
                 Some u \<Rightarrow> Inr (get_kv_cache_groups_uniform_type u)
               | None \<Rightarrow>
                   bindE (group_and_unify_kv_cache_specs reg specs) (\<lambda>grouped_specs.
                     case grouped_specs of
                       Some gs \<Rightarrow>
                         bindE (get_kv_cache_groups_uniform_groups dsize reg gs) (\<lambda>groups.
                           Inr (annotate_eagle_groups_deepseek_v4 cfg specs groups))
                     | None \<Rightarrow> general_groups dsize specs))))"

definition scheduler_group :: "kv_cache_group_spec \<Rightarrow> kv_cache_group_spec result" where
  "scheduler_group g =
     (case group_spec g of
        UniformTypeKVCacheSpecs b specs \<Rightarrow>
          (case dict_values specs of
             [] \<Rightarrow> Inl StopIteration
           | s # _ \<Rightarrow> Inr (g\<lparr>group_spec := LayerSpec s\<rparr>))
      | LayerSpec s \<Rightarrow> Inr g)"

definition generate_scheduler_kv_cache_config :: "kv_cache_config list \<Rightarrow> kv_cache_config result" where
  "generate_scheduler_kv_cache_config configs =
     (case configs of
        [] \<Rightarrow> Inl IndexError
      | c # _ \<Rightarrow>
          bindE (assertE (\<forall>d \<in> set configs. num_blocks d = num_blocks c)) (\<lambda>_.
          bindE (mapE scheduler_group (kv_cache_groups c)) (\<lambda>groups.
            Inr (c\<lparr>kv_cache_groups := groups\<rparr>))))"

subsection \<open>Fitting the model length\<close>

text \<open>The concurrency is a quotient of integers; it is only logged.\<close>

definition get_max_concurrency_for_kv_cache_config ::
    "(string \<Rightarrow> int) \<Rightarrow> vllm_config \<Rightarrow> kv_cache_config \<Rightarrow> rat result" where
  "get_max_concurrency_for_kv_cache_config dsize cfg c =
     bindE (max_group_size (kv_cache_groups c)) (\<lambda>num_layer_per_group.
     bindE (max_memory_usage_bytes dsize cfg (map group_spec (kv_cache_groups c))) (\<lambda>m.
     bindE (py_index (kv_cache_groups c) 0) (\<lambda>g.
     bindE (kv_page_size_bytes dsize (group_spec g)) (\<lambda>page.
     bindE (py_cdiv (num_layer_per_group * m) (page * num_layer_per_group)) (\<lambda>num_block_per_request.
       if num_block_per_request = 0 then Inl ZeroDivisionError
       else Inr (of_int (num_blocks c) / of_int num_block_per_request))))))"

definition max_memory_usage_bytes_from_groups ::
    "(string \<Rightarrow> int) \<Rightarrow> vllm_config \<Rightarrow> kv_cache_group_spec list \<Rightarrow> int result" where
  "max_memory_usage_bytes_from_groups dsize cfg groups =
     (if groups = [] then Inr 0
      else if is_single_uniform groups then
        bindE (mapE (spec_max_memory dsize cfg) (dict_values (uniform_specs (group_spec (hd groups)))))
          (\<lambda>ms. Inr (sum_list ms))
      else if all_uniform groups then
        bindE (get_page_sizes dsize (uniform_specs (group_spec (hd groups)))) (\<lambda>sizes.
        bindE (mapE (\<lambda>g. get_num_layer_tuples dsize (uniform_specs (group_spec g))) groups) (\<lambda>tuples.
        bindE (py_max tuples) (\<lambda>num_layer_tuples.
        bindE (mapE (\<lambda>g. max_memory_usage_pages dsize cfg (uniform_specs (group_spec g))) groups) (\<lambda>pages.
          Inr (sum_list (map (\<lambda>p. num_layer_tuples * p * sum_list sizes) pages))))))
      else
        bindE (max_group_size groups) (\<lambda>group_size.
        bindE (get_uniform_page_size dsize (map group_spec groups)) (\<lambda>page_size.
        bindE (mapE (\<lambda>g. bindE (kv_max_memory dsize cfg (group_spec g)) (\<lambda>m. py_cdiv m page_size)) groups)
          (\<lambda>blocks. Inr (group_size * page_size * sum_list blocks)))))"

definition estimate_max_model_len_from_groups ::
    "(string \<Rightarrow> int) \<Rightarrow> vllm_config \<Rightarrow> kv_cache_group_spec list \<Rightarrow> int \<Rightarrow> int result" where
  "estimate_max_model_len_from_groups dsize cfg groups available_memory =
     longest_fitting
       (\<lambda>model_len.
          bindE (max_memory_usage_bytes_from_groups dsize (cfg\<lparr>cfg_max_model_len := model_len\<rparr>) groups)
            (\<lambda>needed. Inr (needed \<le> available_memory)))
       (cfg_max_model_len cfg)"

definition auto_fit_worker ::
    "(string \<Rightarrow> int) \<Rightarrow> vllm_config \<Rightarrow> kv_cache_group_spec list \<times> int \<Rightarrow> int \<Rightarrow> int result" where
  "auto_fit_worker dsize cfg = (\<lambda>(groups, avail_mem) auto_fit_max.
     if groups = [] then Inr auto_fit_max
     else
       bindE (estimate_max_model_len_from_groups dsize cfg groups avail_mem) (\<lambda>worker_max.
         Inr (if worker_max < auto_fit_max then worker_max else auto_fit_max)))"

definition auto_fit_max_model_len ::
    "(string \<Rightarrow> int) \<Rightarrow> vllm_config \<Rightarrow> kv_cache_group_spec list list \<Rightarrow> int list \<Rightarrow> vllm_config result" where
  "auto_fit_max_model_len dsize cfg projected_groups_per_worker available_memory =
     (let original_max = cfg_max_model_len cfg
      in
      if \<forall>groups \<in> set projected_groups_per_worker. groups = [] then Inr cfg
      else
        bindE (py_index available_memory 0) (\<lambda>_.
        bindE (foldE (auto_fit_worker dsize cfg) (zip projected_groups_per_worker available_memory)
                 original_max) (\<lambda>auto_fit_max.
          if auto_fit_max \<le> 0 then Inl ValueError
          else if auto_fit_max \<ge> original_max then Inr cfg
          else Inr (cfg\<lparr>cfg_max_model_len := auto_fit_max\<rparr>))))"

subsection \<open>The configurations of the workers\<close>

definition project_group ::
    "(string, layer_spec) dict \<Rightarrow> kv_cache_group_spec \<Rightarrow> kv_cache_group_spec result" where
  "project_group worker_spec g =
     (let worker_layer_names = filter (\<lambda>n. n \<in> set (dict_keys worker_spec)) (layer_names g)
      in
      bindE (if worker_layer_names \<noteq> [] \<and> is_UniformTypeKVCacheSpecs (group_spec g)
             then bindE (mapE (\<lambda>n. bindE (dict_lookup (uniform_specs (group_spec g)) n) (\<lambda>s. Inr (n, s)))
                           worker_layer_names) (\<lambda>items.
                    Inr (UniformTypeKVCacheSpecs (block_size_of (group_spec g))
                           (fold (\<lambda>(n, s). dict_set n s) items [])))
             else Inr (group_spec g)) (\<lambda>gs.
        Inr \<lparr>layer_names = worker_layer_names, group_spec = gs,
             is_eagle_group = (is_eagle_group g \<and> worker_layer_names \<noteq> [])\<rparr>))"

definition project_kv_cache_groups_to_worker ::
    "kv_cache_group_spec list \<Rightarrow> (string, layer_spec) dict \<Rightarrow> kv_cache_group_spec list result" where
  "project_kv_cache_groups_to_worker groups worker_spec = mapE (project_group worker_spec) groups"

definition merge_worker_layer ::
    "string \<times> layer_spec \<Rightarrow> (string, layer_spec) dict \<Rightarrow> (string, layer_spec) dict result" where
  "merge_worker_layer = (\<lambda>(layer_name, s) merged.
     case dict_get merged layer_name of
       None \<Rightarrow> Inr (dict_set layer_name s merged)
     | Some t \<Rightarrow> bindE (assertE (t = s)) (\<lambda>_. Inr merged))"

definition adjusted_memory ::
    "(string \<Rightarrow> int) \<Rightarrow> vllm_config \<Rightarrow> kv_cache_group_spec list list \<Rightarrow> int list \<Rightarrow> int list result" where
  "adjusted_memory dsize cfg projected available_memory =
     (case cfg_num_gpu_blocks_override cfg of
        None \<Rightarrow> Inr available_memory
      | Some k \<Rightarrow>
          mapE (\<lambda>(groups, avail_mem).
              if groups = [] then Inr avail_mem
              else
                bindE (pool_bytes_per_block dsize groups) (\<lambda>bytes_per_block.
                bindE (py_div avail_mem bytes_per_block) (\<lambda>_. Inr (k * bytes_per_block))))
            (zip projected available_memory))"

definition check_worker_memory ::
    "(string \<Rightarrow> int) \<Rightarrow> vllm_config \<Rightarrow> kv_cache_group_spec list \<times> int \<Rightarrow> unit \<Rightarrow> unit result" where
  "check_worker_memory dsize cfg = (\<lambda>(groups, avail_mem) _.
     if groups = [] then Inr ()
     else check_enough_memory avail_mem (max_memory_usage_bytes_from_groups dsize cfg groups)
            (estimate_max_model_len_from_groups dsize cfg groups))"

definition worker_config ::
    "(string \<Rightarrow> int) \<Rightarrow> vllm_config
     \<Rightarrow> kv_cache_group_spec list \<times> (string, layer_spec) dict \<times> int \<Rightarrow> kv_cache_config result" where
  "worker_config dsize cfg = (\<lambda>(projected_groups, worker_spec, avail_mem).
     bindE (assertE (sum_list (map (\<lambda>g. length (layer_names g)) projected_groups) = length worker_spec)) (\<lambda>_.
       get_kv_cache_config_from_groups dsize cfg projected_groups avail_mem))"

definition shrink_tensor :: "int \<Rightarrow> int \<Rightarrow> kv_cache_tensor \<Rightarrow> kv_cache_tensor result" where
  "shrink_tensor num_blocks_old min_num_blocks t =
     bindE (py_mod (tensor_size t) num_blocks_old) (\<lambda>r.
     bindE (assertE (r = 0)) (\<lambda>_.
       Inr (t\<lparr>tensor_size := tensor_size t div num_blocks_old * min_num_blocks\<rparr>)))"

definition shrink_config ::
    "(string \<Rightarrow> int) \<Rightarrow> vllm_config \<Rightarrow> int \<Rightarrow> kv_cache_config \<Rightarrow> kv_cache_config result" where
  "shrink_config dsize cfg min_num_blocks c =
     bindE (mapE (shrink_tensor (num_blocks c) min_num_blocks) (kv_cache_tensors c)) (\<lambda>tensors.
       let c = c\<lparr>num_blocks := min_num_blocks, kv_cache_tensors := tensors\<rparr>
       in
       bindE (if length (kv_cache_groups c) > 0
              then bindE (get_max_concurrency_for_kv_cache_config dsize cfg c) (\<lambda>_. Inr ())
              else Inr ()) (\<lambda>_. Inr c))"

definition get_kv_cache_configs ::
    "(string \<Rightarrow> int) \<Rightarrow> registry \<Rightarrow> vllm_config \<Rightarrow> (string, layer_spec) dict list \<Rightarrow> int list
     \<Rightarrow> (vllm_config \<times> kv_cache_config list) result" where
  "get_kv_cache_configs dsize reg cfg kv_cache_specs available_memory =
     bindE (foldE merge_worker_layer (concat kv_cache_specs) []) (\<lambda>merged_kv_cache_specs.
     bindE (check_kv_cache_spec_registry reg merged_kv_cache_specs) (\<lambda>_.
     bindE (get_kv_cache_groups dsize reg cfg merged_kv_cache_specs) (\<lambda>global_kv_cache_groups.
     bindE (mapE (project_kv_cache_groups_to_worker global_kv_cache_groups) kv_cache_specs) (\<lambda>projected.
     bindE (adjusted_memory dsize cfg projected available_memory) (\<lambda>available_memory.
     bindE (if cfg_original_max_model_len cfg = -1
            then auto_fit_max_model_len dsize cfg projected available_memory else Inr cfg) (\<lambda>cfg.
     bindE (foldE (check_worker_memory dsize cfg) (zip projected available_memory) ()) (\<lambda>_.
     bindE (mapE (worker_config dsize cfg) (zip projected (zip kv_cache_specs available_memory))) (\<lambda>configs.
     bindE (py_min (map num_blocks configs)) (\<lambda>min_num_blocks.
     bindE (mapE (shrink_config dsize cfg min_num_blocks) configs) (\<lambda>configs.
       Inr (cfg, configs)))))))))))"

subsection \<open>The estimates are maximal\<close>

lemma mono_len_sum_scaled:
  assumes "\<And>x. x \<in> set xs \<Longrightarrow> mono_len (\<lambda>l. f l x)" and "0 \<le> T" and "0 \<le> S"
  shows "mono_len (\<lambda>l. bindE (mapE (f l) xs) (\<lambda>ps. Inr (sum_list (map (\<lambda>p. T * p * S) ps))))"
proof -
  from mono_len_mapE[of xs f, OF assms(1)] obtain g where g: "\<forall>l \<ge> 1. mapE (f l) xs = Inr (map (g l) xs) \<and>
      (\<forall>x \<in> set xs. 0 \<le> g l x \<and> (\<forall>l' \<ge> l. g l x \<le> (g l' x :: int)))" by blast
  show ?thesis
    by (rule mono_lenI[where g = "\<lambda>l. sum_list (map (\<lambda>x. T * g l x * S) xs)"])
      (use g assms(2,3) in \<open>auto simp: comp_def intro!: sum_list_nonneg sum_list_mono mult_mono mult_nonneg_nonneg\<close>)
qed

lemma sized_page_sum:
  assumes "\<And>s. s \<in> set (dict_values specs) \<Longrightarrow> sized dsize cfg s" and "get_page_sizes dsize specs = Inr sizes"
  shows "0 \<le> sum_list sizes"
proof -
  from sized_page_sizes[OF assms(1)] obtain ps where "page_sizes dsize specs = Inr ps" "\<forall>p \<in> set ps. 0 < p" by blast
  with assms(2) have "\<forall>p \<in> set sizes. 0 < p" by (auto simp: get_page_sizes_def)
  then show ?thesis by (intro sum_list_nonneg) force
qed

lemma py_max_nonneg: "py_max xs = Inr m \<Longrightarrow> \<forall>x \<in> set xs. 0 \<le> x \<Longrightarrow> 0 \<le> m"
  by (auto simp: py_max_Inr_iff Max_ge_iff) (meson List.finite_set Max_in set_empty)

lemma layer_tuples_nonneg: "get_num_layer_tuples dsize specs = Inr k \<Longrightarrow> 0 \<le> k"
  by (auto simp: get_num_layer_tuples_def bindE_Inr_iff split: if_splits elim!: py_max_nonneg)

lemma kv_sized_page:
  assumes "kv_sized dsize cfg u"
  shows "\<exists>p. kv_page_size_bytes dsize u = Inr p \<and> 0 < p"
proof (cases u)
  case (LayerSpec s)
  with assms show ?thesis by (auto simp: sized_def split: sum.splits)
next
  case (UniformTypeKVCacheSpecs b specs)
  with assms sized_page_sizes[of specs dsize cfg] obtain ps where ps: "page_sizes dsize specs = Inr ps"
    "\<forall>p \<in> set ps. 0 < p" "length ps = length specs" and ne: "specs \<noteq> []" by auto
  then have "0 < sum_list ps" by (cases ps) (auto intro!: add_pos_nonneg sum_list_nonneg simp: less_imp_le)
  with ps(1) UniformTypeKVCacheSpecs show ?thesis by simp
qed

lemma mono_len_from_groups:
  assumes sized: "\<And>g. g \<in> set groups \<Longrightarrow> kv_sized dsize cfg (group_spec g)"
    and runs: "max_memory_usage_bytes_from_groups dsize cfg groups = Inr m"
  shows "mono_len (\<lambda>l. max_memory_usage_bytes_from_groups dsize (cfg\<lparr>cfg_max_model_len := l\<rparr>) groups)"
proof -
  have uspecs: "(\<forall>s \<in> set (dict_values (uniform_specs (group_spec g))). sized dsize cfg s) \<and>
      uniform_specs (group_spec g) \<noteq> []"
    if "g \<in> set groups" "is_UniformTypeKVCacheSpecs (group_spec g)" for g
    using sized[OF that(1)] that(2) by (cases "group_spec g") auto
  consider "groups = []" | "groups \<noteq> []" "is_single_uniform groups"
    | "groups \<noteq> []" "\<not> is_single_uniform groups" "all_uniform groups"
    | "groups \<noteq> []" "\<not> is_single_uniform groups" "\<not> all_uniform groups" by blast
  then show ?thesis
  proof cases
    case 1
    then show ?thesis by (simp add: max_memory_usage_bytes_from_groups_def mono_len_const)
  next
    case 2
    let ?specs = "dict_values (uniform_specs (group_spec (hd groups)))"
    have s: "\<forall>s \<in> set ?specs. sized dsize cfg s"
      using 2 uspecs[of "hd groups"] by (simp add: is_single_uniform_def)
    have "mono_len (\<lambda>l. bindE (mapE (spec_max_memory dsize (cfg\<lparr>cfg_max_model_len := l\<rparr>)) ?specs) (\<lambda>ms. Inr (sum_list ms)))"
      by (rule mono_len_sum, rule mono_len_spec, rule s[THEN bspec])
    then show ?thesis using 2 by (simp add: max_memory_usage_bytes_from_groups_def)
  next
    case 3
    with runs obtain sizes tuples k where a: "get_page_sizes dsize (uniform_specs (group_spec (hd groups))) = Inr sizes"
      "mapE (\<lambda>g. get_num_layer_tuples dsize (uniform_specs (group_spec g))) groups = Inr tuples" "py_max tuples = Inr k"
      by (auto simp: max_memory_usage_bytes_from_groups_def bindE_Inr_iff)
    have u: "is_UniformTypeKVCacheSpecs (group_spec g)" if "g \<in> set groups" for g
      using 3 that by (simp add: all_uniform_def)
    have "0 \<le> sum_list sizes"
      by (rule sized_page_sum[OF _ a(1), of cfg]) (use uspecs[of "hd groups"] u 3 in auto)
    moreover have "0 \<le> k"
      by (rule py_max_nonneg[OF a(3)]) (use mapE_elem[OF a(2)] layer_tuples_nonneg in blast)
    moreover have "mono_len (\<lambda>l. max_memory_usage_pages dsize (cfg\<lparr>cfg_max_model_len := l\<rparr>) (uniform_specs (group_spec g)))"
      if "g \<in> set groups" for g
      by (rule mono_len_pages) (use uspecs[OF that u[OF that]] in auto)
    ultimately show ?thesis
      using 3 a mono_len_sum_scaled[where xs = groups and T = k and S = "sum_list sizes"]
      by (simp add: max_memory_usage_bytes_from_groups_def)
  next
    case 4
    with runs obtain size page where a: "max_group_size groups = Inr size"
      "get_uniform_page_size dsize (map group_spec groups) = Inr page"
      by (auto simp: max_memory_usage_bytes_from_groups_def bindE_Inr_iff)
    have "0 < page"
      using uniform_page_of[OF a(2), of "group_spec (hd groups)"] kv_sized_page[OF sized, of "hd groups"] 4 by auto
    moreover have "0 \<le> size"
      by (rule py_max_nonneg[OF a(1)[unfolded max_group_size_def]]) auto
    moreover have "mono_len (\<lambda>l. bindE (kv_max_memory dsize (cfg\<lparr>cfg_max_model_len := l\<rparr>) (group_spec g)) (\<lambda>m. py_cdiv m page))"
      if "g \<in> set groups" for g
      by (rule mono_len_cdiv[OF mono_len_kv[OF sized[OF that]] \<open>0 < page\<close>])
    ultimately show ?thesis
      using 4 a mono_len_times[OF mono_len_sum, of groups _ "size * page"]
      by (simp add: max_memory_usage_bytes_from_groups_def bindE_assoc ac_simps)
  qed
qed

text \<open>C29. The two binary searches for the model length return, and their result is the largest length up
  to the configured one whose memory fits: every length up to the result fits in the available
  memory, no longer one does, and the result is 0 when not even one token fits. This holds for
  the search over the layers and for the search over the KV-cache groups.\<close>

theorem estimated_length_maximal:
  assumes len: "1 \<le> cfg_max_model_len cfg"
    and layers: "\<forall>s \<in> set (dict_values specs). sized dsize cfg s"
    and groups: "\<forall>g \<in> set groups. kv_sized dsize cfg (group_spec g)"
    and runs: "max_memory_usage_bytes_from_groups dsize cfg groups = Inr m0"
  shows "(\<exists>r. estimate_max_model_len dsize cfg specs avail = Inr r \<and> 0 \<le> r \<and> r \<le> cfg_max_model_len cfg \<and>
       (\<forall>l. 1 \<le> l \<longrightarrow> l \<le> cfg_max_model_len cfg \<longrightarrow>
          (\<exists>m. max_memory_usage_bytes dsize (cfg\<lparr>cfg_max_model_len := l\<rparr>) (map LayerSpec (dict_values specs)) = Inr m \<and>
               (m \<le> avail \<longleftrightarrow> l \<le> r)))) \<and>
     (\<exists>r. estimate_max_model_len_from_groups dsize cfg groups avail = Inr r \<and> 0 \<le> r \<and> r \<le> cfg_max_model_len cfg \<and>
       (\<forall>l. 1 \<le> l \<longrightarrow> l \<le> cfg_max_model_len cfg \<longrightarrow>
          (\<exists>m. max_memory_usage_bytes_from_groups dsize (cfg\<lparr>cfg_max_model_len := l\<rparr>) groups = Inr m \<and>
               (m \<le> avail \<longleftrightarrow> l \<le> r))))"
proof
  have "mono_len (\<lambda>l. max_memory_usage_bytes dsize (cfg\<lparr>cfg_max_model_len := l\<rparr>) (map LayerSpec (dict_values specs)))"
    by (rule mono_len_memory) (use layers in auto)
  from longest_fitting_correct[OF this len, of avail]
  show "\<exists>r. estimate_max_model_len dsize cfg specs avail = Inr r \<and> 0 \<le> r \<and> r \<le> cfg_max_model_len cfg \<and>
       (\<forall>l. 1 \<le> l \<longrightarrow> l \<le> cfg_max_model_len cfg \<longrightarrow>
          (\<exists>m. max_memory_usage_bytes dsize (cfg\<lparr>cfg_max_model_len := l\<rparr>) (map LayerSpec (dict_values specs)) = Inr m \<and>
               (m \<le> avail \<longleftrightarrow> l \<le> r)))"
    unfolding estimate_max_model_len_def .
  from longest_fitting_correct[OF mono_len_from_groups[OF _ runs] len, of avail] groups
  show "\<exists>r. estimate_max_model_len_from_groups dsize cfg groups avail = Inr r \<and> 0 \<le> r \<and> r \<le> cfg_max_model_len cfg \<and>
       (\<forall>l. 1 \<le> l \<longrightarrow> l \<le> cfg_max_model_len cfg \<longrightarrow>
          (\<exists>m. max_memory_usage_bytes_from_groups dsize (cfg\<lparr>cfg_max_model_len := l\<rparr>) groups = Inr m \<and>
               (m \<le> avail \<longleftrightarrow> l \<le> r)))"
    unfolding estimate_max_model_len_from_groups_def by simp
qed

definition example_plan :: "kv_cache_group_spec list" where
  "example_plan = [layer_group [''full.0''] (full_layer 64), layer_group [''sw.0''] (window_layer 64)]"

theorem estimated_length_maximal_witness:
  "estimate_max_model_len_from_groups two_bytes example_config example_plan 400000 = Inr 432 \<and>
   (\<exists>m. max_memory_usage_bytes_from_groups two_bytes (example_config\<lparr>cfg_max_model_len := 432\<rparr>) example_plan = Inr m \<and>
        m \<le> 400000) \<and>
   (\<exists>m. max_memory_usage_bytes_from_groups two_bytes (example_config\<lparr>cfg_max_model_len := 433\<rparr>) example_plan = Inr m \<and>
        \<not> m \<le> 400000)"
proof -
  have r: "estimate_max_model_len_from_groups two_bytes example_config example_plan 400000 = Inr 432" by code_simp
  have s: "\<forall>s \<in> set (dict_values [(''full.0'', full_layer 64)]). sized two_bytes example_config s" by code_simp
  have g: "\<forall>g \<in> set example_plan. kv_sized two_bytes example_config (group_spec g)" by code_simp
  have m: "max_memory_usage_bytes_from_groups two_bytes example_config example_plan = Inr 696320" by code_simp
  have N: "cfg_max_model_len example_config = 1024" by code_simp
  have fits: "\<exists>m. max_memory_usage_bytes_from_groups two_bytes (example_config\<lparr>cfg_max_model_len := l\<rparr>) example_plan = Inr m \<and>
      (m \<le> 400000 \<longleftrightarrow> l \<le> 432)" if "1 \<le> l" "l \<le> 1024" for l
    using estimated_length_maximal[OF _ s g m, of 400000] that unfolding r N by auto
  from fits[of 432] fits[of 433] r show ?thesis by simp
qed

subsection \<open>The size of a layer tuple\<close>

text \<open>The padding of the documentation: every value is rounded up to a multiple.\<close>

definition total_padding :: "int list \<Rightarrow> int \<Rightarrow> int" where
  "total_padding values d = sum_list (map (\<lambda>x. cdiv x d * d - x) values)"

lemma pad_eq_cdiv:
  assumes "0 < d"
  shows "(d - (x mod d)) mod d = cdiv x d * d - x"
proof -
  have b: "x \<le> cdiv x d * d" "cdiv x d * d < x + d" using cdiv_bounds[OF assms] by auto
  have "(d - (x mod d)) mod d = (d - x) mod d" by (rule mod_diff_right_eq)
  also have "\<dots> = (- x) mod d" using mod_add_self1[of d "- x"] by simp
  also have "\<dots> = (cdiv x d * d - x) mod d" using mod_mult_self3[of "cdiv x d" d "- x"] by simp
  also have "\<dots> = cdiv x d * d - x" using b by (intro mod_pos_pos_trivial) auto
  finally show ?thesis .
qed

lemma pad_sum: "0 < d \<Longrightarrow> sum_list (map (\<lambda>x. (d - (x mod d)) mod d) values) = total_padding values d"
  unfolding total_padding_def by (simp only: pad_eq_cdiv)

text \<open>Better: less padding, or the same padding with a larger size.\<close>

definition no_better :: "int list \<Rightarrow> int \<Rightarrow> int \<Rightarrow> bool" where
  "no_better values d e \<longleftrightarrow>
     total_padding values d < total_padding values e \<or>
     total_padding values d = total_padding values e \<and> e \<le> d"

lemma approximate_gcd_step_eq:
  assumes "0 < d"
  shows "approximate_gcd_step values d (b, None) = (d, Some (total_padding values d))"
    and "approximate_gcd_step values d (b, Some (total_padding values b)) =
      (if no_better values b d then (b, Some (total_padding values b)) else (d, Some (total_padding values d)))"
  unfolding approximate_gcd_step_def pad_sum[OF assms] by (auto simp: no_better_def Let_def)

lemma approximate_gcd_fold:
  assumes "\<forall>d \<in> set ds. 0 < d"
  shows "\<exists>r. fold (approximate_gcd_step values) ds (b, Some (total_padding values b)) = (r, Some (total_padding values r)) \<and>
     r \<in> insert b (set ds) \<and> (\<forall>e \<in> insert b (set ds). no_better values r e)"
  using assms
proof (induction ds arbitrary: b)
  case Nil
  then show ?case by (simp add: no_better_def)
next
  case (Cons d ds)
  have "\<exists>c \<in> {b, d}. approximate_gcd_step values d (b, Some (total_padding values b)) = (c, Some (total_padding values c)) \<and>
      no_better values c b \<and> no_better values c d"
    using Cons.prems by (auto simp: approximate_gcd_step_eq no_better_def)
  then obtain c where c: "c \<in> {b, d}" "no_better values c b" "no_better values c d"
    "approximate_gcd_step values d (b, Some (total_padding values b)) = (c, Some (total_padding values c))" by blast
  moreover have "no_better values r e" if "no_better values r c" "no_better values c e" for r e
    using that by (auto simp: no_better_def)
  ultimately show ?case using Cons.IH[of c] Cons.prems by auto
qed

lemma upto_Cons: "a \<le> b \<Longrightarrow> [a..b] = a # [a + 1..b]" for a b :: int
  by (rule upto_rec1)

definition lower_limit :: "int option \<Rightarrow> int" where
  "lower_limit lower_bound = max 1 (case lower_bound of Some b \<Rightarrow> b | None \<Rightarrow> 1)"

text \<open>C33. The size of the layer tuples minimises the padding: for positive values the search returns, and
  its result is within the bounds, needs no more padding than any size between the lower bound and
  the largest value, and is the largest of those with the least padding. With a lower bound above
  all values it is the lower bound, and for an empty or non-positive input it raises \<open>ValueError\<close>.\<close>

theorem approximate_gcd_correct:
  "if values = [] \<or> (\<exists>x \<in> set values. x \<le> 0) then approximate_gcd values lower_bound = Inl ValueError
     else if lower_limit lower_bound > Max (set values) then approximate_gcd values lower_bound = Inr (lower_limit lower_bound)
     else \<exists>d. approximate_gcd values lower_bound = Inr d \<and> lower_limit lower_bound \<le> d \<and> d \<le> Max (set values) \<and>
            (\<forall>e. lower_limit lower_bound \<le> e \<longrightarrow> e \<le> Max (set values) \<longrightarrow> no_better values d e)"
proof -
  let ?lo = "lower_limit lower_bound" and ?hi = "Max (set values)"
  have pos: "0 < ?lo" by (simp add: lower_limit_def)
  show ?thesis
  proof (cases "values = [] \<or> (\<exists>x \<in> set values. x \<le> 0)")
    case True
    then show ?thesis by (auto simp: approximate_gcd_def)
  next
    case ok: False
    then have eq: "approximate_gcd values lower_bound =
        (if ?lo > ?hi then Inr ?lo
         else Inr (fst (fold (approximate_gcd_step values) [?lo..?hi] (?lo, None))))"
      by (simp add: approximate_gcd_def py_max_eq lower_limit_def Let_def)
    show ?thesis
    proof (cases "?lo > ?hi")
      case True
      with ok eq show ?thesis by simp
    next
      case False
      from approximate_gcd_fold[of "[?lo + 1..?hi]" "values" ?lo] pos obtain r where
        r: "fold (approximate_gcd_step values) [?lo + 1..?hi] (?lo, Some (total_padding values ?lo)) =
              (r, Some (total_padding values r))"
        "r \<in> insert ?lo {?lo + 1..?hi}" "\<forall>e \<in> insert ?lo {?lo + 1..?hi}. no_better values r e" by auto
      have "approximate_gcd values lower_bound = Inr r"
        using eq False r(1) pos by (simp add: upto_Cons approximate_gcd_step_eq)
      moreover have "insert ?lo {?lo + 1..?hi} = {?lo..?hi}" using False by auto
      ultimately show ?thesis using ok False r(2,3) by auto
    qed
  qed
qed

theorem approximate_gcd_correct_witness:
  "approximate_gcd [11, 21] (Some 11) = Inr 11 \<and> no_better [11, 21] 11 21 \<and> no_better [11, 21] 11 16"
proof -
  have g: "approximate_gcd [11, 21] (Some 11) = Inr 11" by code_simp
  with approximate_gcd_correct[of "[11, 21]" "Some 11"] show ?thesis by (auto simp: lower_limit_def)
qed

subsection \<open>The workers agree\<close>

lemma shrink_tensor_Inr:
  assumes "shrink_tensor old n t = Inr t'"
  shows "shared_by t' = shared_by t \<and> tensor_size t' * old = tensor_size t * n"
proof -
  from assms have "old dvd tensor_size t" and t': "t' = t\<lparr>tensor_size := tensor_size t div old * n\<rparr>"
    by (simp_all add: shrink_tensor_def bindE_Inr_iff dvd_eq_mod_eq_0 py_mod_def assertE_def split: if_splits)
  then show ?thesis by (auto simp: algebra_simps dest: dvd_div_mult_self)
qed

text \<open>The configuration of one worker: its own plan, cut down to the common number of blocks.\<close>

definition worker_plan ::
    "(string \<Rightarrow> int) \<Rightarrow> vllm_config \<Rightarrow> int \<Rightarrow> kv_cache_group_spec list \<Rightarrow> int \<Rightarrow> kv_cache_config \<Rightarrow> bool" where
  "worker_plan dsize cfg n groups avail c \<longleftrightarrow>
     (\<exists>own. get_kv_cache_config_from_groups dsize cfg groups avail = Inr own \<and> n \<le> num_blocks own \<and>
        kv_cache_groups c = groups \<and> num_blocks c = n \<and>
        list_all2 (\<lambda>t t'. shared_by t' = shared_by t \<and> tensor_size t' * num_blocks own = tensor_size t * n)
          (kv_cache_tensors own) (kv_cache_tensors c)) \<and>
     (groups \<noteq> [] \<longrightarrow> 0 < avail \<and>
        (\<exists>m. max_memory_usage_bytes_from_groups dsize cfg groups = Inr m \<and> m \<le> avail))"

lemma config_groups: "get_kv_cache_config_from_groups dsize cfg groups avail = Inr c \<Longrightarrow> kv_cache_groups c = groups"
  by (auto simp: get_kv_cache_config_from_groups_def bindE_Inr_iff split: if_splits)

lemma shrink_config_Inr:
  assumes "shrink_config dsize cfg n own = Inr c"
  shows "kv_cache_groups c = kv_cache_groups own \<and> num_blocks c = n \<and>
     list_all2 (\<lambda>t t'. shared_by t' = shared_by t \<and> tensor_size t' * num_blocks own = tensor_size t * n)
       (kv_cache_tensors own) (kv_cache_tensors c)"
proof -
  from assms obtain ts where ts: "mapE (shrink_tensor (num_blocks own) n) (kv_cache_tensors own) = Inr ts"
    and c: "c = own\<lparr>num_blocks := n, kv_cache_tensors := ts\<rparr>"
    by (auto simp: shrink_config_def Let_def bindE_Inr_iff)
  from ts have "list_all2 (\<lambda>t t'. shrink_tensor (num_blocks own) n t = Inr t') (kv_cache_tensors own) ts"
    by (simp add: mapE_Inr_iff)
  then have "list_all2 (\<lambda>t t'. shared_by t' = shared_by t \<and> tensor_size t' * num_blocks own = tensor_size t * n)
      (kv_cache_tensors own) ts"
    by (rule list_all2_mono) (rule shrink_tensor_Inr)
  with c show ?thesis by simp
qed

lemma check_enough_memory_Inr:
  "check_enough_memory avail needed est = Inr u \<longleftrightarrow> 0 < avail \<and> (\<exists>m. needed = Inr m \<and> m \<le> avail)"
  by (cases needed) (auto simp: check_enough_memory_def bindE_Inr_iff)

lemma check_workers:
  assumes "foldE (check_worker_memory dsize cfg) xs u = Inr v" and "(groups, avail) \<in> set xs" and "groups \<noteq> []"
  shows "0 < avail \<and> (\<exists>m. max_memory_usage_bytes_from_groups dsize cfg groups = Inr m \<and> m \<le> avail)"
  using assms
  by (induction xs arbitrary: u)
    (auto simp: bindE_Inr_iff check_worker_memory_def check_enough_memory_Inr split: if_splits prod.splits)

lemma auto_fit_bounds:
  assumes "auto_fit_max_model_len dsize cfg projected avail = Inr cfg'"
  shows "\<exists>l. cfg' = cfg\<lparr>cfg_max_model_len := l\<rparr> \<and> l \<le> cfg_max_model_len cfg"
  using assms
  by (auto simp: auto_fit_max_model_len_def Let_def bindE_Inr_iff split: if_splits
      intro: exI[of _ "cfg_max_model_len cfg"])

lemma scheduler_config_no_assertion:
  assumes "\<forall>c \<in> set configs. num_blocks c = n"
  shows "generate_scheduler_kv_cache_config configs \<noteq> Inl AssertionError"
proof (cases configs)
  case (Cons c cs)
  have "mapE scheduler_group (kv_cache_groups c) \<noteq> Inl AssertionError"
    by (auto dest!: mapE_Inl simp: scheduler_group_def split: kv_cache_spec.splits list.splits)
  with Cons assms show ?thesis by (auto simp: generate_scheduler_kv_cache_config_def bindE_Inl_iff)
qed (simp add: generate_scheduler_kv_cache_config_def)


definition example_workers :: "(string, layer_spec) dict list" where
  "example_workers =
     [[(''full.0'', full_layer 64), (''sw.0'', window_layer 64), (''sw.1'', window_layer 64)],
      [(''full.1'', full_layer 64), (''sw.2'', window_layer 64)]]"


subsection \<open>Where the unification goes wrong\<close>

definition mla_layer :: "int \<Rightarrow> layer_spec" where
  "mla_layer head_size =
     (default_spec MLAAttentionSpec)
       \<lparr>spec_block_size := 16, spec_num_kv_heads := 1, spec_head_size := head_size,
        spec_dtype := ''bfloat16'', spec_head_size_v := Some head_size\<rparr>"

definition chunked_layer :: "kv_quant_mode \<Rightarrow> layer_spec" where
  "chunked_layer q =
     (default_spec ChunkedLocalAttentionSpec)
       \<lparr>spec_block_size := 16, spec_num_kv_heads := 2, spec_head_size := 64, spec_dtype := ''bfloat16'',
        spec_kv_quant_mode := q, spec_attention_chunk_size := Some 128\<rparr>"



end
