(* ===== verification/Cache_Hit.thy ===== *)
theory Cache_Hit
  imports Prefix_Cache KV_Cache_Spec
begin

section \<open>The longest cached prefix\<close>

text \<open>
  The class methods \<open>find_longest_cache_hit\<close> and the methods \<open>get_num_skipped_tokens\<close> of
  vllm/v1/core/single\_type\_kv\_cache\_manager.py, one for each kind of attention.

  A look-up is given the hashes of the blocks of a request and returns, for each of the groups it is
  asked about, the list of cached blocks of a prefix; blocks that the attention of the next token
  does not read may be replaced by the placeholder. The two methods are tied together by one
  contract: in a hit of \<open>n\<close> blocks, every block that is not skipped at \<open>n * block_size\<close> computed
  tokens is a block of the prefix cache with the hash of its position, and no longer aligned
  prefix has this property.
\<close>

subsection \<open>Hash lists and slices\<close>

fun hash_list_iter :: "block_hash_list \<Rightarrow> bytes list" where
  "hash_list_iter (PlainHashes hs) = hs"
| "hash_list_iter (ScaledHashes l) = bhl_iter l"

text \<open>\<open>itertools.islice(xs, n)\<close>\<close>

definition islice :: "'a list \<Rightarrow> int \<Rightarrow> 'a list result" where
  "islice xs n = (if n < 0 then Inl ValueError else Inr (take (nat n) xs))"

text \<open>\<open>for computed in computed_blocks: computed.pop()\<close>, and the loop that repeats it until the number
  of tokens is a multiple of \<open>alignment_tokens\<close>.\<close>

definition pop_each :: "addr list list \<Rightarrow> addr list list result" where
  "pop_each computed_blocks =
     mapE (\<lambda>c. if c = [] then Inl IndexError else Inr (butlast c)) computed_blocks"

lemma pop_each_Inr: "pop_each cs = Inr cs' \<longleftrightarrow> (\<forall>c \<in> set cs. c \<noteq> []) \<and> cs' = map butlast cs"
proof (induction cs arbitrary: cs')
  case (Cons c cs)
  then show ?case by (auto simp: pop_each_def result_simps)
qed (auto simp: pop_each_def)

function realign :: "int \<Rightarrow> int \<Rightarrow> addr list list \<Rightarrow> addr list list result" where
  "realign block_size alignment_tokens computed_blocks =
     (if block_size = alignment_tokens then Inr computed_blocks
      else
        bindE (py_index computed_blocks 0) (\<lambda>computed.
        bindE (py_mod (int (length computed) * block_size) alignment_tokens) (\<lambda>r.
          if r = 0 then Inr computed_blocks
          else bindE (pop_each computed_blocks) (\<lambda>cs. realign block_size alignment_tokens cs))))"
  by pat_completeness auto
termination
  by (relation "measure (\<lambda>(bs, al, cs). length (hd cs))")
     (auto simp: pop_each_Inr py_index_def hd_conv_nth split: if_splits)

declare realign.simps [simp del]

text \<open>\<open>for computed, cached in zip(computed_blocks, cached_block): computed.append(cached)\<close>\<close>

definition append_each :: "addr list list \<Rightarrow> addr list \<Rightarrow> addr list list" where
  "append_each computed_blocks cached_block =
     map (\<lambda>(computed, cached). computed @ [cached]) (zip computed_blocks cached_block)"

subsection \<open>Full attention\<close>

fun full_hit_loop ::
  "block_pool \<Rightarrow> int list \<Rightarrow> bytes list \<Rightarrow> addr list list \<Rightarrow> addr list list result" where
  "full_hit_loop p kv_cache_group_ids [] computed_blocks = Inr computed_blocks"
| "full_hit_loop p kv_cache_group_ids (bhash # hashes) computed_blocks =
     bindE (get_cached_block p bhash kv_cache_group_ids) (\<lambda>r.
       case r of
         Some (b # bs) \<Rightarrow>
           full_hit_loop p kv_cache_group_ids hashes (append_each computed_blocks (b # bs))
       | _ \<Rightarrow> Inr computed_blocks)"

definition full_find_longest_cache_hit ::
  "block_hash_list \<Rightarrow> int \<Rightarrow> int list \<Rightarrow> block_pool \<Rightarrow> layer_spec \<Rightarrow> bool \<Rightarrow> int \<Rightarrow> int \<Rightarrow> int \<Rightarrow>
     addr list list result" where
  "full_find_longest_cache_hit hashes max_length kv_cache_group_ids p spec drop_eagle_block
     alignment_tokens dcp_world_size pcp_world_size =
     bindE (assertE (isinstance_spec spec FullAttentionSpec \<or>
                     isinstance_spec spec ChunkedLocalAttentionSpec)) (\<lambda>_.
     let block_size = (if dcp_world_size * pcp_world_size > 1
                       then spec_block_size spec * (dcp_world_size * pcp_world_size)
                       else spec_block_size spec) in
     bindE (py_div max_length block_size) (\<lambda>max_num_blocks.
     bindE (islice (hash_list_iter hashes) max_num_blocks) (\<lambda>hs.
     bindE (full_hit_loop p kv_cache_group_ids hs (map (\<lambda>_. []) kv_cache_group_ids)) (\<lambda>computed_blocks.
     bindE (if drop_eagle_block
            then bindE (py_index computed_blocks 0) (\<lambda>c.
                   if c \<noteq> [] then pop_each computed_blocks else Inr computed_blocks)
            else Inr computed_blocks) (\<lambda>computed_blocks.
       realign block_size alignment_tokens computed_blocks)))))"

subsection \<open>Sliding window\<close>

definition contiguous_blocks_for_hit :: "int \<Rightarrow> int \<Rightarrow> bool \<Rightarrow> int result" where
  "contiguous_blocks_for_hit window_size block_size use_eagle =
     bindE (py_cdiv (window_size - 1) block_size) (\<lambda>blocks.
       Inr (if use_eagle then blocks + 1 else blocks))"

text \<open>
  The search from right to left. \<open>Suc i\<close> blocks are left to inspect; the result says whether a match
  was found, and gives the length of the current run and the blocks.
\<close>

fun swa_hit_loop ::
  "block_hash_list \<Rightarrow> int list \<Rightarrow> block_pool \<Rightarrow> bool \<Rightarrow> int \<Rightarrow> int \<Rightarrow> int \<Rightarrow> nat \<Rightarrow> int \<Rightarrow> addr list list \<Rightarrow>
     (bool \<times> int \<times> addr list list) result" where
  "swa_hit_loop hashes gids p drop_eagle_block block_size alignment_tokens need 0
     num_contiguous_blocks computed_blocks = Inr (False, num_contiguous_blocks, computed_blocks)"
| "swa_hit_loop hashes gids p drop_eagle_block block_size alignment_tokens need (Suc i)
     num_contiguous_blocks computed_blocks =
     bindE (hash_list_at hashes (int i)) (\<lambda>bhash.
     bindE (get_cached_block p bhash gids) (\<lambda>r.
       case r of
         Some (b # bs) \<Rightarrow>
           bindE (if num_contiguous_blocks = 0 \<and> block_size \<noteq> alignment_tokens
                  then py_mod ((if drop_eagle_block then int i else int i + 1) * block_size) alignment_tokens
                  else Inr 0) (\<lambda>misaligned.
             if misaligned \<noteq> 0
             then swa_hit_loop hashes gids p drop_eagle_block block_size alignment_tokens need i
                    num_contiguous_blocks computed_blocks
             else
               let computed_blocks = map (\<lambda>(computed, cached). computed[i := cached])
                                         (zip computed_blocks (b # bs));
                   num_contiguous_blocks = num_contiguous_blocks + 1
               in if num_contiguous_blocks \<ge> need
                  then Inr (True, num_contiguous_blocks,
                            map (\<lambda>computed. py_slice_to computed (int i + num_contiguous_blocks)) computed_blocks)
                  else swa_hit_loop hashes gids p drop_eagle_block block_size alignment_tokens need i
                         num_contiguous_blocks computed_blocks)
       | _ \<Rightarrow> swa_hit_loop hashes gids p drop_eagle_block block_size alignment_tokens need i 0
               computed_blocks))"

definition swa_find_longest_cache_hit ::
  "block_hash_list \<Rightarrow> int \<Rightarrow> int list \<Rightarrow> block_pool \<Rightarrow> layer_spec \<Rightarrow> bool \<Rightarrow> int \<Rightarrow> int \<Rightarrow> int \<Rightarrow>
     addr list list result" where
  "swa_find_longest_cache_hit hashes max_length kv_cache_group_ids p spec drop_eagle_block
     alignment_tokens dcp_world_size pcp_world_size =
     bindE (assertE (isinstance_spec spec SlidingWindowSpec)) (\<lambda>_.
     bindE (assertE (dcp_world_size = 1)) (\<lambda>_.
     bindE (assertE (pcp_world_size = 1)) (\<lambda>_.
     bindE (an_int (spec_sliding_window spec)) (\<lambda>sliding_window.
     bindE (contiguous_blocks_for_hit sliding_window (spec_block_size spec) drop_eagle_block) (\<lambda>need.
     let block_size = spec_block_size spec in
     bindE (py_div max_length block_size) (\<lambda>max_num_blocks.
     bindE (swa_hit_loop hashes kv_cache_group_ids p drop_eagle_block block_size alignment_tokens need
              (nat max_num_blocks) 0
              (map (\<lambda>_. replicate (nat max_num_blocks) (null_block p)) kv_cache_group_ids))
       (\<lambda>(match_found, num_contiguous_blocks, computed_blocks).
     bindE (if match_found then Inr computed_blocks
            else realign block_size alignment_tokens
                   (map (\<lambda>computed. py_slice_to computed num_contiguous_blocks) computed_blocks))
       (\<lambda>computed_blocks.
       if drop_eagle_block
       then bindE (py_index computed_blocks 0) (\<lambda>c.
              if c \<noteq> [] then bindE (pop_each computed_blocks) (realign block_size alignment_tokens)
              else Inr computed_blocks)
       else Inr computed_blocks))))))))"

subsection \<open>Chunked local attention\<close>

fun chunked_hit_loop ::
  "block_hash_list \<Rightarrow> int list \<Rightarrow> block_pool \<Rightarrow> int list \<Rightarrow> addr list list \<Rightarrow> addr list list result" where
  "chunked_hit_loop hashes gids p [] computed_blocks = Inr computed_blocks"
| "chunked_hit_loop hashes gids p (i # is) computed_blocks =
     bindE (hash_list_at hashes i) (\<lambda>bhash.
     bindE (get_cached_block p bhash gids) (\<lambda>r.
       case r of
         Some (b # bs) \<Rightarrow> chunked_hit_loop hashes gids p is (append_each computed_blocks (b # bs))
       | _ \<Rightarrow> Inr computed_blocks))"

definition chunked_find_longest_cache_hit ::
  "block_hash_list \<Rightarrow> int \<Rightarrow> int list \<Rightarrow> block_pool \<Rightarrow> layer_spec \<Rightarrow> bool \<Rightarrow> int \<Rightarrow> int \<Rightarrow> int \<Rightarrow>
     addr list list result" where
  "chunked_find_longest_cache_hit hashes max_length kv_cache_group_ids p spec drop_eagle_block
     alignment_tokens dcp_world_size pcp_world_size =
     bindE (assertE (isinstance_spec spec ChunkedLocalAttentionSpec)) (\<lambda>_.
     bindE (assertE (\<not> drop_eagle_block)) (\<lambda>_.
     bindE (assertE (dcp_world_size = 1)) (\<lambda>_.
     bindE (assertE (pcp_world_size = 1)) (\<lambda>_.
     bindE (assertE (spec_block_size spec = alignment_tokens)) (\<lambda>_.
     bindE (py_div max_length (spec_block_size spec)) (\<lambda>max_num_blocks.
     bindE (if max_length > 0
            then bindE (an_int (spec_attention_chunk_size spec)) (\<lambda>attention_chunk_size.
                 bindE (py_div max_length attention_chunk_size) (\<lambda>n. Inr (n * attention_chunk_size)))
            else Inr 0) (\<lambda>local_attention_start_idx.
     bindE (py_div local_attention_start_idx (spec_block_size spec)) (\<lambda>local_attention_start_block_idx.
       chunked_hit_loop hashes kv_cache_group_ids p
         [local_attention_start_block_idx..max_num_blocks - 1]
         (map (\<lambda>_. replicate (nat local_attention_start_block_idx) (null_block p))
              kv_cache_group_ids)))))))))"

subsection \<open>Mamba and cross attention\<close>

fun mamba_hit_loop ::
  "block_hash_list \<Rightarrow> int list \<Rightarrow> block_pool \<Rightarrow> int \<Rightarrow> int \<Rightarrow> nat \<Rightarrow> addr list list \<Rightarrow>
     addr list list result" where
  "mamba_hit_loop hashes gids p block_size alignment_tokens 0 computed_blocks = Inr computed_blocks"
| "mamba_hit_loop hashes gids p block_size alignment_tokens (Suc i) computed_blocks =
     bindE (hash_list_at hashes (int i)) (\<lambda>bhash.
     bindE (get_cached_block p bhash gids) (\<lambda>r.
       case r of
         Some (b # bs) \<Rightarrow>
           bindE (if block_size \<noteq> alignment_tokens
                  then py_mod ((int i + 1) * block_size) alignment_tokens else Inr 0) (\<lambda>misaligned.
             if misaligned \<noteq> 0
             then mamba_hit_loop hashes gids p block_size alignment_tokens i computed_blocks
             else Inr (append_each (map (\<lambda>c. c @ replicate i (null_block p)) computed_blocks) (b # bs)))
       | _ \<Rightarrow> mamba_hit_loop hashes gids p block_size alignment_tokens i computed_blocks))"

definition mamba_find_longest_cache_hit ::
  "block_hash_list \<Rightarrow> int \<Rightarrow> int list \<Rightarrow> block_pool \<Rightarrow> layer_spec \<Rightarrow> bool \<Rightarrow> int \<Rightarrow> int \<Rightarrow> int \<Rightarrow>
     addr list list result" where
  "mamba_find_longest_cache_hit hashes max_length kv_cache_group_ids p spec drop_eagle_block
     alignment_tokens dcp_world_size pcp_world_size =
     bindE (assertE (isinstance_spec spec MambaSpec)) (\<lambda>_.
     bindE (assertE (dcp_world_size = 1)) (\<lambda>_.
     bindE (assertE (pcp_world_size = 1)) (\<lambda>_.
     bindE (py_div max_length (spec_block_size spec)) (\<lambda>max_num_blocks.
       mamba_hit_loop hashes kv_cache_group_ids p (spec_block_size spec) alignment_tokens
         (nat max_num_blocks) (map (\<lambda>_. []) kv_cache_group_ids)))))"

definition cross_find_longest_cache_hit :: "layer_spec \<Rightarrow> addr list list result" where
  "cross_find_longest_cache_hit spec =
     bindE (assertE (isinstance_spec spec CrossAttentionSpec)) (\<lambda>_. Inl NotImplementedError)"

fun find_longest_cache_hit ::
  "manager_class \<Rightarrow> block_hash_list \<Rightarrow> int \<Rightarrow> int list \<Rightarrow> block_pool \<Rightarrow> layer_spec \<Rightarrow> bool \<Rightarrow> int \<Rightarrow> int \<Rightarrow>
     int \<Rightarrow> addr list list result" where
  "find_longest_cache_hit FullAttentionManager = full_find_longest_cache_hit"
| "find_longest_cache_hit SinkFullAttentionManager = full_find_longest_cache_hit"
| "find_longest_cache_hit SlidingWindowManager = swa_find_longest_cache_hit"
| "find_longest_cache_hit ChunkedLocalAttentionManager = chunked_find_longest_cache_hit"
| "find_longest_cache_hit MambaManager = mamba_find_longest_cache_hit"
| "find_longest_cache_hit CrossAttentionManager =
     (\<lambda>hashes max_length gids p spec drop_eagle_block alignment_tokens dcp pcp.
        cross_find_longest_cache_hit spec)"

subsection \<open>Tokens that attention skips\<close>

definition swa_get_num_skipped_tokens :: "int \<Rightarrow> int \<Rightarrow> int" where
  "swa_get_num_skipped_tokens sliding_window t =
     max 0 (t - sliding_window + 1)"

definition chunked_get_num_skipped_tokens :: "int \<Rightarrow> int \<Rightarrow> int result" where
  "chunked_get_num_skipped_tokens attention_chunk_size t =
     bindE (py_div t attention_chunk_size) (\<lambda>n. Inr (n * attention_chunk_size))"

definition mamba_get_num_skipped_tokens :: "int \<Rightarrow> int" where
  "mamba_get_num_skipped_tokens t = t - 1"

fun get_num_skipped_tokens :: "manager_class \<Rightarrow> layer_spec \<Rightarrow> int \<Rightarrow> int result" where
  "get_num_skipped_tokens SlidingWindowManager spec t =
     bindE (an_int (spec_sliding_window spec)) (\<lambda>w. Inr (swa_get_num_skipped_tokens w t))"
| "get_num_skipped_tokens ChunkedLocalAttentionManager spec t =
     bindE (an_int (spec_attention_chunk_size spec)) (\<lambda>c. chunked_get_num_skipped_tokens c t)"
| "get_num_skipped_tokens MambaManager spec t = Inr (mamba_get_num_skipped_tokens t)"
| "get_num_skipped_tokens _ spec t = Inr 0"

subsection \<open>What a look-up sees\<close>

definition hash_of :: "block_hash_list \<Rightarrow> nat \<Rightarrow> bytes" where
  "hash_of hashes i = projr (hash_list_at hashes (int i))"

fun hash_count :: "block_hash_list \<Rightarrow> int" where
  "hash_count (PlainHashes hs) = int (length hs)"
| "hash_count (ScaledHashes l) = bhl_len l"

definition in_cache :: "block_pool \<Rightarrow> int list \<Rightarrow> bytes \<Rightarrow> bool" where
  "in_cache p gids h \<longleftrightarrow> (\<forall>g \<in> set gids. cached_under p (cache_key h g) \<noteq> {})"

definition groups_ok :: "int list \<Rightarrow> bool" where
  "groups_ok gids \<longleftrightarrow> gids \<noteq> [] \<and> (\<forall>g \<in> set gids. group_ok g)"

lemma hash_list_at_of:
  "int i < hash_count hashes \<Longrightarrow> hash_list_at hashes (int i) = Inr (hash_of hashes i)"
  by (cases hashes) (auto simp: hash_of_def)

lemma length_hash_list_iter: "length (hash_list_iter hashes) = nat (hash_count hashes)"
  by (cases hashes) (auto simp: bhl_iter_def)

lemma hash_list_iter_nth:
  "int i < hash_count hashes \<Longrightarrow> hash_list_iter hashes ! i = hash_of hashes i"
  by (cases hashes) (auto simp: hash_of_def bhl_iter_def nth_upto)

lemma cached_block_law:
  assumes "pool_rep p fl" and "groups_ok gids"
  shows "if in_cache p gids h
     then \<exists>b bs. get_cached_block p h gids = Inr (Some (b # bs)) \<and>
            list_all2 (\<lambda>b g. b \<in> cached_under p (cache_key h g)) (b # bs) gids
     else get_cached_block p h gids = Inr None"
proof -
  from get_cached_block_state[of p fl gids h] assms obtain r where
    r: "get_cached_block p h gids = Inr r" and
    c: "case r of None \<Rightarrow> \<exists>g \<in> set gids. cached_under p (cache_key h g) = {}
        | Some bs \<Rightarrow> list_all2 (\<lambda>b g. b \<in> cached_under p (cache_key h g)) bs gids"
    by (auto simp: groups_ok_def)
  show ?thesis
  proof (cases r)
    case None
    with r c show ?thesis by (auto simp: in_cache_def)
  next
    case (Some bs)
    with c have bs: "list_all2 (\<lambda>b g. b \<in> cached_under p (cache_key h g)) bs gids" by simp
    then have "in_cache p gids h"
      by (fastforce simp: in_cache_def list_all2_conv_all_nth in_set_conv_nth)
    moreover from bs assms(2) have "bs \<noteq> []" by (auto simp: groups_ok_def)
    ultimately show ?thesis using r Some bs by (cases bs) auto
  qed
qed

text \<open>
  The shape of every result: per group a list of \<open>k\<close> blocks, placeholders before position \<open>s\<close> and
  from there on blocks that are cached under the hash of their position.
\<close>

definition hit_entry :: "block_pool \<Rightarrow> (nat \<Rightarrow> bytes) \<Rightarrow> nat \<Rightarrow> int \<Rightarrow> nat \<Rightarrow> addr \<Rightarrow> bool" where
  "hit_entry p f s g i b \<longleftrightarrow> (if i < s then b = Blk 0 else b \<in> cached_under p (cache_key (f i) g))"

definition hit_lists ::
  "block_pool \<Rightarrow> (nat \<Rightarrow> bytes) \<Rightarrow> int list \<Rightarrow> nat \<Rightarrow> addr list list \<Rightarrow> nat \<Rightarrow> bool" where
  "hit_lists p f gids s cs k \<longleftrightarrow>
     list_all2 (\<lambda>c g. length c = k \<and> (\<forall>i < k. hit_entry p f s g i (c ! i))) cs gids"

lemma hit_lists_take:
  "hit_lists p f gids s cs k \<Longrightarrow> m \<le> k \<Longrightarrow> hit_lists p f gids s (map (take m) cs) m"
  by (auto simp: hit_lists_def list_all2_conv_all_nth)

lemma hit_lists_append:
  assumes "hit_lists p f gids s cs k" and "s \<le> k"
    and "list_all2 (\<lambda>b g. b \<in> cached_under p (cache_key (f k) g)) bs gids"
  shows "hit_lists p f gids s (append_each cs bs) (Suc k)"
  using assms
  by (auto simp: hit_lists_def append_each_def hit_entry_def list_all2_conv_all_nth nth_append less_Suc_eq)

lemma hit_lists_start:
  "hit_lists p f gids k (map (\<lambda>_. replicate k (Blk 0)) gids) k"
  by (auto simp: hit_lists_def hit_entry_def list_all2_conv_all_nth)

lemma hit_lists_hd:
  assumes "hit_lists p f gids s cs k" and "groups_ok gids"
  shows "\<exists>c. py_index cs 0 = Inr c \<and> length c = k"
  using assms by (auto simp: hit_lists_def groups_ok_def list_all2_conv_all_nth py_index_def)

lemma hit_lists_pop:
  assumes "hit_lists p f gids s cs (Suc k)"
  shows "pop_each cs = Inr (map (take k) cs)"
proof -
  from assms have len: "length c = Suc k" if "c \<in> set cs" for c
    using that by (auto simp: hit_lists_def list_all2_conv_all_nth in_set_conv_nth)
  then have "map butlast cs = map (take k) cs" by (auto simp: butlast_conv_take)
  with len show ?thesis by (fastforce simp: pop_each_Inr)
qed

lemma hit_lists_take_all: "hit_lists p f gids s cs k \<Longrightarrow> map (take k) cs = cs"
  by (auto simp: hit_lists_def list_all2_conv_all_nth intro!: nth_equalityI)

text \<open>Realigning cuts the lists to the largest aligned length.\<close>

lemma realign_law:
  assumes "hit_lists p f gids s cs n" and "groups_ok gids" and "al \<noteq> 0"
  shows "\<exists>k \<le> n. realign bs al cs = Inr (map (take k) cs) \<and> hit_lists p f gids s (map (take k) cs) k \<and>
     al dvd int k * bs \<and> (\<forall>m \<le> n. al dvd int m * bs \<longrightarrow> m \<le> k)"
  using assms(1)
proof (induction n arbitrary: cs)
  case 0
  obtain c where "py_index cs 0 = Inr c" "length c = 0" using hit_lists_hd[OF 0 assms(2)] by blast
  then have "realign bs al cs = Inr (map (take 0) cs)"
    using hit_lists_take_all[OF 0] assms(3) by (simp add: realign.simps)
  with 0 show ?case using hit_lists_take[OF 0, of 0] by auto
next
  case (Suc n)
  obtain c where c: "py_index cs 0 = Inr c" "length c = Suc n"
    using hit_lists_hd[OF Suc.prems assms(2)] by blast
  show ?case
  proof (cases "bs = al \<or> al dvd int (Suc n) * bs")
    case True
    then have "realign bs al cs = Inr (map (take (Suc n)) cs)"
      using hit_lists_take_all[OF Suc.prems] assms(3) c
      by (auto simp: realign.simps dvd_eq_mod_eq_0)
    with True show ?thesis using hit_lists_take[OF Suc.prems, of "Suc n"] by auto
  next
    case False
    let ?cs = "map (take n) cs"
    have re: "realign bs al cs = realign bs al ?cs"
      using False c assms(3) hit_lists_pop[OF Suc.prems]
      by (subst realign.simps) (simp add: dvd_eq_mod_eq_0)
    from Suc.IH[OF hit_lists_take[OF Suc.prems, of n]] obtain k where k: "k \<le> n"
      "realign bs al ?cs = Inr (map (take k) ?cs)" "hit_lists p f gids s (map (take k) ?cs) k"
      "al dvd int k * bs" "\<forall>m \<le> n. al dvd int m * bs \<longrightarrow> m \<le> k" by auto
    then have "map (take k) ?cs = map (take k) cs" by (auto simp: min_def)
    with re k False show ?thesis by (metis le_SucE le_SucI)
  qed
qed

subsection \<open>The loops\<close>

lemma full_hit_loop_law:
  assumes pool: "pool_rep p fl" "groups_ok gids"
    and "hit_lists p f gids s cs j" and "s \<le> j" and "\<forall>i < length hs. hs ! i = f (j + i)"
  shows "\<exists>cs' k. full_hit_loop p gids hs cs = Inr cs' \<and> j \<le> k \<and> k \<le> j + length hs \<and>
     hit_lists p f gids s cs' k \<and> (\<forall>i. j \<le> i \<and> i < k \<longrightarrow> in_cache p gids (f i)) \<and>
     (k < j + length hs \<longrightarrow> \<not> in_cache p gids (f k))"
  using assms(3-)
proof (induction hs arbitrary: cs j)
  case Nil
  then show ?case by auto
next
  case (Cons h hs)
  from Cons.prems(3)[THEN spec, of 0] have h: "h = f j" by simp
  show ?case
  proof (cases "in_cache p gids h")
    case False
    with cached_block_law[OF pool, of h] have "full_hit_loop p gids (h # hs) cs = Inr cs" by simp
    with False h Cons.prems show ?thesis by (intro exI[of _ cs] exI[of _ j]) auto
  next
    case True
    with cached_block_law[OF pool, of h] obtain b bs where
      b: "get_cached_block p h gids = Inr (Some (b # bs))"
        "list_all2 (\<lambda>b g. b \<in> cached_under p (cache_key (f j) g)) (b # bs) gids"
      by (auto simp: h)
    from Cons.prems(3) have "\<forall>i < length hs. hs ! i = f (Suc j + i)" by fastforce
    with Cons.IH[OF hit_lists_append[OF Cons.prems(1,2) b(2)]] Cons.prems(2) obtain cs' k where
      k: "full_hit_loop p gids hs (append_each cs (b # bs)) = Inr cs'" "Suc j \<le> k"
        "k \<le> Suc j + length hs" "hit_lists p f gids s cs' k"
        "\<forall>i. Suc j \<le> i \<and> i < k \<longrightarrow> in_cache p gids (f i)"
        "k < Suc j + length hs \<longrightarrow> \<not> in_cache p gids (f k)" by fastforce
    then have "full_hit_loop p gids (h # hs) cs = Inr cs'" using b(1) by simp
    moreover have "in_cache p gids (f i)" if "j \<le> i \<and> i < k" for i
      using k(5) True h that by (cases "i = j") auto
    ultimately show ?thesis using k by (intro exI[of _ cs'] exI[of _ k]) auto
  qed
qed

text \<open>The loop of chunked local attention is the one of full attention on a part of the hashes.\<close>

lemma chunked_hit_loop_eq:
  assumes "\<forall>i \<in> set is. 0 \<le> i \<and> i < hash_count hashes"
  shows "chunked_hit_loop hashes gids p is cs =
    full_hit_loop p gids (map (\<lambda>i. hash_of hashes (nat i)) is) cs"
  using assms
proof (induction "is" arbitrary: cs)
  case (Cons i "is")
  then have "hash_list_at hashes i = Inr (hash_of hashes (nat i))"
    using hash_list_at_of[of "nat i" hashes] by simp
  with Cons show ?case by (auto intro!: bindE_cong split: option.split list.split)
qed simp

lemma mamba_hit_loop_law:
  assumes pool: "pool_rep p fl" "groups_ok gids" and al: "al \<noteq> 0" and j: "int j \<le> hash_count hashes"
  shows "\<exists>cs k. mamba_hit_loop hashes gids p bs al j (map (\<lambda>_. []) gids) = Inr cs \<and> k \<le> j \<and>
     hit_lists p (hash_of hashes) gids (k - 1) cs k \<and> al dvd int k * bs \<and>
     (\<forall>m. k < m \<and> m \<le> j \<and> al dvd int m * bs \<longrightarrow> \<not> in_cache p gids (hash_of hashes (m - 1)))"
  using j
proof (induction j)
  case 0
  then show ?case using hit_lists_start[of p "hash_of hashes" gids 0] by (intro exI conjI) auto
next
  case (Suc i)
  let ?h = "hash_of hashes i"
  let ?skip = "\<not> in_cache p gids ?h \<or> \<not> al dvd int (Suc i) * bs"
  from Suc.prems have h: "hash_list_at hashes (int i) = Inr ?h" by (simp add: hash_list_at_of)
  have nn: "null_block p = Blk 0" using pool(1) by (auto simp: pool_rep_def dest: pool_stateD)
  have mod: "(1 + int i) * bs mod al = 0 \<longleftrightarrow> al dvd (1 + int i) * bs" by (simp add: dvd_eq_mod_eq_0)
  show ?case
  proof (cases ?skip)
    case True
    have "mamba_hit_loop hashes gids p bs al (Suc i) (map (\<lambda>_. []) gids) =
        mamba_hit_loop hashes gids p bs al i (map (\<lambda>_. []) gids)"
      using True h al cached_block_law[OF pool, of ?h]
      by (cases "in_cache p gids ?h") (auto simp: dvd_eq_mod_eq_0 add.commute)
    with Suc obtain cs k where
      k: "mamba_hit_loop hashes gids p bs al (Suc i) (map (\<lambda>_. []) gids) = Inr cs" "k \<le> i"
        "hit_lists p (hash_of hashes) gids (k - 1) cs k" "al dvd int k * bs"
        "\<forall>m. k < m \<and> m \<le> i \<and> al dvd int m * bs \<longrightarrow> \<not> in_cache p gids (hash_of hashes (m - 1))"
      by auto
    have "\<not> in_cache p gids (hash_of hashes (m - 1))" if "k < m" "m \<le> Suc i" "al dvd int m * bs" for m
      using that k(5) True by (cases "m = Suc i") auto
    with k show ?thesis by (intro exI[of _ cs] exI[of _ k]) auto
  next
    case False
    with cached_block_law[OF pool, of ?h] obtain b bs' where
      b: "get_cached_block p ?h gids = Inr (Some (b # bs'))"
        "list_all2 (\<lambda>b g. b \<in> cached_under p (cache_key ?h g)) (b # bs') gids" by auto
    let ?cs = "append_each (map (\<lambda>_. replicate i (Blk 0)) gids) (b # bs')"
    have "mamba_hit_loop hashes gids p bs al (Suc i) (map (\<lambda>_. []) gids) = Inr ?cs"
      using False h b(1) al by (auto simp: nn comp_def dvd_eq_mod_eq_0 add.commute)
    moreover have "hit_lists p (hash_of hashes) gids i ?cs (Suc i)"
      by (rule hit_lists_append) (use b(2) hit_lists_start in auto)
    ultimately show ?thesis using False by (intro exI[of _ ?cs] exI[of _ "Suc i"]) auto
  qed
qed

text \<open>
  The search for a window: \<open>j\<close> blocks are left to inspect and the \<open>n\<close> blocks after them are cached. A
  run may only end where the resulting length is aligned; with the extra block of EAGLE the length
  is one less than the end of the run.
\<close>

definition edge_ok :: "bool \<Rightarrow> int \<Rightarrow> int \<Rightarrow> nat \<Rightarrow> bool" where
  "edge_ok eagle bs al e \<longleftrightarrow> al dvd (if eagle then int e - 1 else int e) * bs"

definition swa_state ::
  "block_pool \<Rightarrow> (nat \<Rightarrow> bytes) \<Rightarrow> int list \<Rightarrow> nat \<Rightarrow> nat \<Rightarrow> nat \<Rightarrow> addr list list \<Rightarrow> bool" where
  "swa_state p f gids M j n cs \<longleftrightarrow>
     list_all2 (\<lambda>c g. length c = M \<and> (\<forall>i < j. c ! i = Blk 0) \<and>
       (\<forall>i. j \<le> i \<and> i < j + n \<longrightarrow> c ! i \<in> cached_under p (cache_key (f i) g))) cs gids"

definition no_run :: "block_pool \<Rightarrow> (nat \<Rightarrow> bytes) \<Rightarrow> int list \<Rightarrow> int \<Rightarrow> nat \<Rightarrow> bool" where
  "no_run p f gids need e \<longleftrightarrow> (\<exists>i < e. int e - need \<le> int i \<and> \<not> in_cache p gids (f i))"

definition swa_result ::
  "block_pool \<Rightarrow> (nat \<Rightarrow> bytes) \<Rightarrow> int list \<Rightarrow> bool \<Rightarrow> int \<Rightarrow> int \<Rightarrow> int \<Rightarrow> nat \<Rightarrow> bool \<times> int \<times> addr list list \<Rightarrow> bool" where
  "swa_result p f gids eagle bs al need M r \<longleftrightarrow>
     (case r of (match_found, k, cs) \<Rightarrow>
        \<exists>s e. e \<le> M \<and> (0 < e \<longrightarrow> edge_ok eagle bs al e) \<and>
          (\<forall>e'. e < e' \<and> e' \<le> M \<and> edge_ok eagle bs al e' \<longrightarrow> no_run p f gids need e') \<and>
          (if match_found then 0 < e \<and> hit_lists p f gids s cs e \<and> int s + need \<le> int e
           else k = int e \<and> swa_state p f gids M 0 e cs))"

lemma swa_state_step:
  assumes "swa_state p f gids M (Suc i) n cs"
    and "list_all2 (\<lambda>b g. b \<in> cached_under p (cache_key (f i) g)) bs gids" and "Suc i + n \<le> M"
  shows "swa_state p f gids M i (Suc n) (map (\<lambda>(c, b). c[i := b]) (zip cs bs))"
  using assms unfolding swa_state_def
  by (auto simp: list_all2_conv_all_nth nth_list_update)

lemma swa_state_skip:
  "swa_state p f gids M (Suc i) n cs \<Longrightarrow> swa_state p f gids M i 0 cs"
  by (auto simp: swa_state_def list_all2_conv_all_nth)

lemma swa_state_take:
  assumes "swa_state p f gids M i n cs" and "i + n \<le> M"
  shows "hit_lists p f gids i (map (\<lambda>c. py_slice_to c (int i + int n)) cs) (i + n)"
  using assms unfolding swa_state_def hit_lists_def
  by (auto simp: list_all2_conv_all_nth py_slice_to_nonneg nat_add_distrib hit_entry_def)

lemma swa_hit_loop_law:
  assumes pool: "pool_rep p fl" "groups_ok gids" and al: "al \<noteq> 0" and need: "1 \<le> need"
    and M: "int M \<le> hash_count hashes"
    and "swa_state p (hash_of hashes) gids M j n cs" and "j + n \<le> M"
    and "0 < n \<longrightarrow> edge_ok eagle bs al (j + n)" and "int n < need"
    and "\<forall>e. j + n < e \<and> e \<le> M \<and> edge_ok eagle bs al e \<longrightarrow> no_run p (hash_of hashes) gids need e"
  shows "\<exists>r. swa_hit_loop hashes gids p eagle bs al need j (int n) cs = Inr r \<and>
     swa_result p (hash_of hashes) gids eagle bs al need M r"
  using assms(6-)
proof (induction j arbitrary: n cs)
  case 0
  then show ?case by (auto simp: swa_result_def)
next
  case (Suc i)
  let ?h = "hash_of hashes i" and ?f = "hash_of hashes"
  from Suc.prems M have h: "hash_list_at hashes (int i) = Inr ?h" by (simp add: hash_list_at_of)
  have edge: "edge_ok eagle bs al (Suc i) \<longleftrightarrow> (if eagle then int i else int i + 1) * bs mod al = 0"
    by (auto simp: edge_ok_def dvd_eq_mod_eq_0 add.commute)
  show ?case
  proof (cases "in_cache p gids ?h")
    case False
    then have eq: "swa_hit_loop hashes gids p eagle bs al need (Suc i) (int n) cs =
        swa_hit_loop hashes gids p eagle bs al need i (int 0) cs"
      using h cached_block_law[OF pool, of ?h] by simp
    have "no_run p ?f gids need e" if "i + 0 < e" "e \<le> M" "edge_ok eagle bs al e" for e
    proof (cases "Suc i + n < e")
      case False
      then have "int e - need \<le> int i" using Suc.prems(4) by simp
      with that \<open>\<not> in_cache p gids ?h\<close> show ?thesis by (auto simp: no_run_def)
    qed (use Suc.prems(5) that in blast)
    with Suc.IH[OF swa_state_skip[OF Suc.prems(1)]] Suc.prems(2) need show ?thesis
      unfolding eq by simp
  next
    case True
    with cached_block_law[OF pool, of ?h] obtain b bs' where
      b: "get_cached_block p ?h gids = Inr (Some (b # bs'))"
        "list_all2 (\<lambda>b g. b \<in> cached_under p (cache_key ?h g)) (b # bs') gids" by auto
    show ?thesis
    proof (cases "n = 0 \<and> \<not> edge_ok eagle bs al (Suc i)")
      case skip: True
      then have ne: "bs \<noteq> al" by (auto simp: edge_ok_def)
      have eq: "swa_hit_loop hashes gids p eagle bs al need (Suc i) (int n) cs =
          swa_hit_loop hashes gids p eagle bs al need i (int 0) cs"
        using h b(1) skip ne al edge by simp
      have "no_run p ?f gids need e" if "i + 0 < e" "e \<le> M" "edge_ok eagle bs al e" for e
        using that skip Suc.prems(5)[THEN spec, of e] by (cases "e = Suc i") auto
      with Suc.IH[OF swa_state_skip[OF Suc.prems(1)]] Suc.prems(2) need show ?thesis
        unfolding eq by simp
    next
      case run: False
      let ?cs = "map (\<lambda>(c, b). c[i := b]) (zip cs (b # bs'))"
      have st: "swa_state p ?f gids M i (Suc n) ?cs"
        using swa_state_step[OF Suc.prems(1) b(2)] Suc.prems(2) by simp
      have m: "(if int n = 0 \<and> bs \<noteq> al
          then py_mod ((if eagle then int i else int i + 1) * bs) al else Inr 0) = Inr 0"
        using run al edge by auto
      have eq: "swa_hit_loop hashes gids p eagle bs al need (Suc i) (int n) cs =
          (if need \<le> int n + 1
           then Inr (True, int n + 1, map (\<lambda>c. py_slice_to c (int i + (int n + 1))) ?cs)
           else swa_hit_loop hashes gids p eagle bs al need i (int (Suc n)) ?cs)"
        using h b(1) m by (simp add: Let_def add.commute)
      have ed: "edge_ok eagle bs al (i + Suc n)" using run Suc.prems(3) by (cases n) auto
      show ?thesis
      proof (cases "need \<le> int n + 1")
        case True
        have "hit_lists p ?f gids i (map (\<lambda>c. py_slice_to c (int i + (int n + 1))) ?cs) (i + Suc n)"
          using swa_state_take[OF st] Suc.prems(2) by (simp add: add.commute)
        then have "swa_result p ?f gids eagle bs al need M
            (True, int n + 1, map (\<lambda>c. py_slice_to c (int i + (int n + 1))) ?cs)"
          unfolding swa_result_def using True ed Suc.prems(2,5)
          by (intro case_prodI exI[of _ i] exI[of _ "i + Suc n"]) auto
        with True eq show ?thesis by auto
      next
        case False
        have "\<exists>r. swa_hit_loop hashes gids p eagle bs al need i (int (Suc n)) ?cs = Inr r \<and>
            swa_result p ?f gids eagle bs al need M r"
          using Suc.prems(2,5) ed False by (intro Suc.IH[OF st]) auto
        with False show ?thesis unfolding eq by simp
      qed
    qed
  qed
qed

subsection \<open>The contract\<close>

definition manager_block_size :: "layer_spec \<Rightarrow> int \<Rightarrow> int \<Rightarrow> int" where
  "manager_block_size spec dcp_world_size pcp_world_size =
     (if dcp_world_size * pcp_world_size > 1
      then spec_block_size spec * (dcp_world_size * pcp_world_size) else spec_block_size spec)"

text \<open>The blocks of a prefix of \<open>n\<close> blocks that the attention of the next token may read.\<close>

definition unskipped :: "manager_class \<Rightarrow> layer_spec \<Rightarrow> int \<Rightarrow> nat \<Rightarrow> nat \<Rightarrow> bool" where
  "unskipped mc spec bs n i \<longleftrightarrow>
     (case get_num_skipped_tokens mc spec (int n * bs) of Inl e \<Rightarrow> True | Inr k \<Rightarrow> k div bs \<le> int i)"

definition covered ::
  "block_pool \<Rightarrow> block_hash_list \<Rightarrow> int list \<Rightarrow> manager_class \<Rightarrow> layer_spec \<Rightarrow> int \<Rightarrow> nat \<Rightarrow> bool" where
  "covered p hashes gids mc spec bs n \<longleftrightarrow>
     (\<forall>i < n. unskipped mc spec bs n i \<longrightarrow> in_cache p gids (hash_of hashes i))"

definition prefix_hit ::
  "block_pool \<Rightarrow> block_hash_list \<Rightarrow> int list \<Rightarrow> manager_class \<Rightarrow> layer_spec \<Rightarrow> int \<Rightarrow> addr list list \<Rightarrow> nat \<Rightarrow>
     bool" where
  "prefix_hit p hashes gids mc spec bs hit n \<longleftrightarrow>
     list_all2 (\<lambda>c g. length c = n \<and>
       (\<forall>i < n. c ! i \<in> cached_under p (cache_key (hash_of hashes i) g) \<or>
               c ! i = null_block p \<and> \<not> unskipped mc spec bs n i)) hit gids"

definition longest_hit ::
  "block_pool \<Rightarrow> block_hash_list \<Rightarrow> int list \<Rightarrow> manager_class \<Rightarrow> layer_spec \<Rightarrow> int \<Rightarrow> int \<Rightarrow> int \<Rightarrow> bool \<Rightarrow>
     addr list list \<Rightarrow> nat \<Rightarrow> bool" where
  "longest_hit p hashes gids mc spec bs al max_length eagle hit n \<longleftrightarrow>
     prefix_hit p hashes gids mc spec bs hit n \<and> al dvd int n * bs \<and> int n * bs \<le> max_length \<and>
     (eagle \<and> mc \<noteq> MambaManager \<longrightarrow> n = 0 \<or> (int n + 1) * bs \<le> max_length) \<and>
     (\<not> eagle \<longrightarrow> (\<forall>m. al dvd int m * bs \<and> int m * bs \<le> max_length \<and>
                      covered p hashes gids mc spec bs m \<longrightarrow> m \<le> n))"

definition spec_fits :: "manager_class \<Rightarrow> layer_spec \<Rightarrow> bool \<Rightarrow> int \<Rightarrow> int \<Rightarrow> int \<Rightarrow> bool" where
  "spec_fits mc spec eagle al dcp pcp \<longleftrightarrow>
     (case mc of
        FullAttentionManager \<Rightarrow> isinstance_spec spec FullAttentionSpec
      | SinkFullAttentionManager \<Rightarrow> isinstance_spec spec FullAttentionSpec
      | SlidingWindowManager \<Rightarrow> isinstance_spec spec SlidingWindowSpec \<and> dcp = 1 \<and> pcp = 1 \<and>
          (\<exists>w. spec_sliding_window spec = Some w \<and> 1 < w)
      | ChunkedLocalAttentionManager \<Rightarrow> isinstance_spec spec ChunkedLocalAttentionSpec \<and> dcp = 1 \<and>
          pcp = 1 \<and> \<not> eagle \<and> al = spec_block_size spec \<and>
          (\<exists>c. spec_attention_chunk_size spec = Some c \<and> 0 < c \<and> spec_block_size spec dvd c)
      | MambaManager \<Rightarrow> isinstance_spec spec MambaSpec \<and> dcp = 1 \<and> pcp = 1
      | CrossAttentionManager \<Rightarrow> False)"

definition lookup_ok ::
  "manager_class \<Rightarrow> layer_spec \<Rightarrow> int \<Rightarrow> int list \<Rightarrow> block_hash_list \<Rightarrow> int \<Rightarrow> bool \<Rightarrow> int \<Rightarrow> int \<Rightarrow> bool" where
  "lookup_ok mc spec al gids hashes max_length eagle dcp pcp \<longleftrightarrow>
     spec_fits mc spec eagle al dcp pcp \<and> groups_ok gids \<and> 0 < al \<and> 0 \<le> max_length \<and>
     0 < manager_block_size spec dcp pcp \<and>
     max_length div manager_block_size spec dcp pcp \<le> hash_count hashes"

lemma prefix_hitI:
  assumes "hit_lists p (hash_of hashes) gids s hit n" and "null_block p = Blk 0"
    and "\<And>i. i < n \<Longrightarrow> unskipped mc spec bs n i \<Longrightarrow> s \<le> i"
  shows "prefix_hit p hashes gids mc spec bs hit n"
proof -
  have "c ! i \<in> cached_under p (cache_key (hash_of hashes i) g) \<or>
      c ! i = null_block p \<and> \<not> unskipped mc spec bs n i"
    if "hit_entry p (hash_of hashes) s g i (c ! i)" "i < n" for c g i
    using that assms(2) assms(3)[of i] by (auto simp: hit_entry_def split: if_splits)
  with assms(1) show ?thesis
    unfolding hit_lists_def prefix_hit_def by (auto elim!: list_all2_mono)
qed

lemma mult_le_iff_le_div: "0 < b \<Longrightarrow> a * b \<le> c \<longleftrightarrow> a \<le> c div b" for a b c :: int
proof
  assume "0 < b" "a * b \<le> c"
  then show "a \<le> c div b" using zdiv_mono1[of "a * b" c b] by simp
next
  assume "0 < b" "a \<le> c div b"
  then have "a * b \<le> c div b * b" by simp
  also have "\<dots> \<le> c" using \<open>0 < b\<close> div_mult_mod_eq[of c b] pos_mod_sign[of b c] by linarith
  finally show "a * b \<le> c" .
qed

lemma pool_null: "pool_rep p fl \<Longrightarrow> null_block p = Blk 0"
  by (auto simp: pool_rep_def dest: pool_stateD)

lemma full_lookup:
  assumes pool: "pool_rep p fl" and mc: "mc = FullAttentionManager \<or> mc = SinkFullAttentionManager"
    and ok: "lookup_ok mc spec al gids hashes max_length eagle dcp pcp"
    and bs: "bs = manager_block_size spec dcp pcp"
  shows "\<exists>hit n. full_find_longest_cache_hit hashes max_length gids p spec eagle al dcp pcp = Inr hit \<and>
     longest_hit p hashes gids mc spec bs al max_length eagle hit n"
proof -
  let ?f = "hash_of hashes" and ?M = "nat (max_length div bs)"
  let ?hs = "take ?M (hash_list_iter hashes)"
  from ok bs have g: "groups_ok gids" and pos: "0 < bs" "0 < al" "0 \<le> max_length"
    and cnt: "max_length div bs \<le> hash_count hashes" and cls: "isinstance_spec spec FullAttentionSpec"
    using mc by (auto simp: lookup_ok_def spec_fits_def)
  have M0: "0 \<le> max_length div bs" using pos by (simp add: pos_imp_zdiv_nonneg_iff)
  have len: "length ?hs = ?M" using cnt M0 by (simp add: length_hash_list_iter)
  have nth: "\<forall>i < length ?hs. ?hs ! i = ?f (0 + i)"
    using cnt M0 len by (auto intro!: hash_list_iter_nth)
  obtain cs k where k: "full_hit_loop p gids ?hs (map (\<lambda>_. []) gids) = Inr cs" "k \<le> ?M"
    "hit_lists p ?f gids 0 cs k" "k < ?M \<longrightarrow> \<not> in_cache p gids (?f k)"
    using full_hit_loop_law[OF pool g _ _ nth, of 0 "map (\<lambda>_. []) gids"]
      hit_lists_start[of p ?f gids 0] unfolding len by auto
  have hit: "prefix_hit p hashes gids mc spec bs cs' n" if "hit_lists p ?f gids 0 cs' n" for cs' n
    by (rule prefix_hitI[OF that pool_null[OF pool]]) simp
  have eq: "full_find_longest_cache_hit hashes max_length gids p spec eagle al dcp pcp =
      bindE (if eagle then bindE (py_index cs 0) (\<lambda>c. if c \<noteq> [] then pop_each cs else Inr cs)
             else Inr cs) (\<lambda>cs. realign bs al cs)"
    using cls pos M0 k(1)
    by (simp add: full_find_longest_cache_hit_def islice_def manager_block_size_def[symmetric] bs[symmetric])
  show ?thesis
  proof (cases eagle)
    case False
    from realign_law[OF k(3) g, of al bs] pos obtain n where n: "n \<le> k"
      "realign bs al cs = Inr (map (take n) cs)" "hit_lists p ?f gids 0 (map (take n) cs) n"
      "al dvd int n * bs" "\<forall>m \<le> k. al dvd int m * bs \<longrightarrow> m \<le> n" by auto
    have "m \<le> n" if "al dvd int m * bs" "int m * bs \<le> max_length" "covered p hashes gids mc spec bs m" for m
    proof -
      have all: "in_cache p gids (?f i)" if "i < m" for i
        using \<open>covered p hashes gids mc spec bs m\<close> that mc by (auto simp: covered_def unskipped_def)
      from that(2) pos have "m \<le> ?M" by (simp add: mult_le_iff_le_div)
      with k(4) all have "m \<le> k" by (meson le_less_trans not_le)
      with n(5) that(1) show ?thesis by blast
    qed
    moreover have "int n * bs \<le> max_length" using n(1) k(2) pos M0 by (simp add: mult_le_iff_le_div)
    ultimately show ?thesis using eq n False hit[OF n(3)] by (auto simp: longest_hit_def)
  next
    case True
    obtain c where c: "py_index cs 0 = Inr c" "length c = k" using hit_lists_hd[OF k(3) g] by blast
    have "\<exists>cs' k'. (if c \<noteq> [] then pop_each cs else Inr cs) = Inr cs' \<and> hit_lists p ?f gids 0 cs' k' \<and>
        (k' = 0 \<or> Suc k' \<le> k)"
    proof (cases k)
      case 0
      then show ?thesis using k(3) c by auto
    next
      case (Suc j)
      then show ?thesis using k(3) c hit_lists_pop[of p ?f gids 0 cs j] hit_lists_take[OF k(3), of j] by auto
    qed
    then obtain cs' k' where k': "(if c \<noteq> [] then pop_each cs else Inr cs) = Inr cs'"
      "hit_lists p ?f gids 0 cs' k'" "k' = 0 \<or> Suc k' \<le> k" by blast
    from realign_law[OF k'(2) g, of al bs] pos obtain n where n: "n \<le> k'"
      "realign bs al cs' = Inr (map (take n) cs')" "hit_lists p ?f gids 0 (map (take n) cs') n"
      "al dvd int n * bs" by auto
    have "n = 0 \<or> int (Suc n) * bs \<le> max_length"
      using n(1) k'(3) k(2) pos M0 by (subst mult_le_iff_le_div) auto
    moreover have "int n * bs \<le> max_length" using calculation pos by (auto simp: algebra_simps)
    ultimately show ?thesis using eq n k'(1) c True hit[OF n(3)]
      by (auto simp: longest_hit_def algebra_simps)
  qed
qed

lemma mamba_lookup:
  assumes pool: "pool_rep p fl" and ok: "lookup_ok MambaManager spec al gids hashes max_length eagle dcp pcp"
    and bs: "bs = manager_block_size spec dcp pcp"
  shows "\<exists>hit n. mamba_find_longest_cache_hit hashes max_length gids p spec eagle al dcp pcp = Inr hit \<and>
     longest_hit p hashes gids MambaManager spec bs al max_length eagle hit n"
proof -
  let ?f = "hash_of hashes" and ?M = "nat (max_length div bs)"
  from ok bs have g: "groups_ok gids" and pos: "0 < bs" "0 < al" "0 \<le> max_length"
    and cnt: "max_length div bs \<le> hash_count hashes"
    and cls: "isinstance_spec spec MambaSpec" "dcp = 1" "pcp = 1" "spec_block_size spec = bs"
    by (auto simp: lookup_ok_def spec_fits_def manager_block_size_def)
  have M: "0 \<le> max_length div bs" "int ?M \<le> hash_count hashes"
    using pos cnt by (auto simp: pos_imp_zdiv_nonneg_iff)
  have need: "unskipped MambaManager spec bs n i \<longleftrightarrow> n - 1 \<le> i" if "i < n" for n i
  proof -
    have "(int n * bs - 1) div bs = int n - 1"
      using pos(1) that by (intro int_div_pos_eq[of _ _ _ "bs - 1"]) (auto simp: algebra_simps)
    with that show ?thesis by (auto simp: unskipped_def mamba_get_num_skipped_tokens_def)
  qed
  from mamba_hit_loop_law[OF pool g _ M(2), of al bs] pos obtain cs n where
    n: "mamba_hit_loop hashes gids p bs al ?M (map (\<lambda>_. []) gids) = Inr cs" "n \<le> ?M"
      "hit_lists p ?f gids (n - 1) cs n" "al dvd int n * bs"
      "\<forall>m. n < m \<and> m \<le> ?M \<and> al dvd int m * bs \<longrightarrow> \<not> in_cache p gids (?f (m - 1))" by auto
  have "m \<le> n" if "al dvd int m * bs" "int m * bs \<le> max_length" "covered p hashes gids MambaManager spec bs m" for m
  proof (rule ccontr)
    assume "\<not> m \<le> n"
    moreover have "m \<le> ?M" using that(2) pos by (simp add: mult_le_iff_le_div)
    moreover have "in_cache p gids (?f (m - 1))"
      using that(3) need[of "m - 1" m] \<open>\<not> m \<le> n\<close> by (auto simp: covered_def)
    ultimately show False using n(5) that(1) by auto
  qed
  moreover have "prefix_hit p hashes gids MambaManager spec bs cs n"
    by (rule prefix_hitI[OF n(3) pool_null[OF pool]]) (simp add: need)
  moreover have "int n * bs \<le> max_length" using n(2) pos M by (simp add: mult_le_iff_le_div)
  ultimately show ?thesis
    using n cls pos by (auto simp: mamba_find_longest_cache_hit_def longest_hit_def)
qed

lemma chunk_div: "0 < bs \<Longrightarrow> bs dvd c \<Longrightarrow> (x * c) div bs * bs = x * c" for bs c x :: int
  by (simp add: dvd_mult)

lemma chunked_lookup:
  assumes pool: "pool_rep p fl"
    and ok: "lookup_ok ChunkedLocalAttentionManager spec al gids hashes max_length eagle dcp pcp"
    and bs: "bs = manager_block_size spec dcp pcp"
  shows "\<exists>hit n. chunked_find_longest_cache_hit hashes max_length gids p spec eagle al dcp pcp = Inr hit \<and>
     longest_hit p hashes gids ChunkedLocalAttentionManager spec bs al max_length eagle hit n"
proof -
  let ?f = "hash_of hashes" and ?M = "nat (max_length div bs)" and ?mc = ChunkedLocalAttentionManager
  from ok have g: "groups_ok gids" and fits: "spec_fits ?mc spec eagle al dcp pcp"
    and pos: "0 < bs" "0 < al" "0 \<le> max_length" and cnt: "max_length div bs \<le> hash_count hashes"
    unfolding lookup_ok_def bs by blast+
  from fits have one: "dcp = 1" "pcp = 1" by (simp_all add: spec_fits_def)
  then have b: "spec_block_size spec = bs" by (simp add: bs manager_block_size_def)
  from fits obtain c where cls: "isinstance_spec spec ChunkedLocalAttentionSpec" "dcp = 1" "pcp = 1"
      "spec_block_size spec = bs" "\<not> eagle" "al = bs"
    and c: "spec_attention_chunk_size spec = Some c" "0 < c" "bs dvd c"
    unfolding spec_fits_def manager_class.case b by blast
  let ?s = "nat (max_length div c * c div bs)"
  have M: "0 \<le> max_length div bs" "0 \<le> max_length div c" "0 \<le> max_length div c * c div bs"
    using pos c by (auto simp: pos_imp_zdiv_nonneg_iff)
  have "max_length div c * c \<le> max_length" using c(2) by (simp add: mult_le_iff_le_div)
  then have sM: "max_length div c * c div bs \<le> max_length div bs" using pos by (simp add: zdiv_mono1)
  let ?is = "[max_length div c * c div bs..max_length div bs - 1]"
  let ?hs = "map (\<lambda>i. ?f (nat i)) ?is"
  have len: "length ?hs = ?M - ?s" using M sM by (simp add: nat_diff_distrib)
  have nth: "\<forall>i < length ?hs. ?hs ! i = ?f (?s + i)" using M by (auto simp: nth_upto nat_add_distrib)
  have loop: "chunked_hit_loop hashes gids p ?is cs = full_hit_loop p gids ?hs cs" for cs
    using cnt M by (intro chunked_hit_loop_eq) auto
  have len': "?s + length ?hs = ?M" using len sM M by simp
  obtain cs n where n: "full_hit_loop p gids ?hs (map (\<lambda>_. replicate ?s (Blk 0)) gids) = Inr cs"
    "?s \<le> n" "n \<le> ?M" "hit_lists p ?f gids ?s cs n" "n < ?M \<longrightarrow> \<not> in_cache p gids (?f n)"
    using full_hit_loop_law[OF pool g hit_lists_start order.refl nth] unfolding len' by blast
  have need: "unskipped ?mc spec bs m i \<longleftrightarrow> ?s \<le> i" if "?s \<le> m" "m \<le> ?M" "i < m \<or> m < ?M" for m i
  proof -
    have "max_length div c * c \<le> int m * bs"
    proof -
      have "max_length div c * c div bs * bs \<le> int m * bs" using that(1) pos(1) by simp
      then show ?thesis unfolding chunk_div[OF pos(1) c(3)] .
    qed
    moreover have "int m * bs \<le> max_length" using that(2) pos M by (simp add: mult_le_iff_le_div)
    ultimately have "int m * bs div c = max_length div c"
      using c(2) zdiv_mono1[of "int m * bs" max_length c] by (simp add: mult_le_iff_le_div)
    then show ?thesis using c M by (auto simp: unskipped_def chunked_get_num_skipped_tokens_def an_int_def)
  qed
  have "m \<le> n" if "int m * bs \<le> max_length" "covered p hashes gids ?mc spec bs m" for m
  proof (rule ccontr)
    assume m: "\<not> m \<le> n"
    have "m \<le> ?M" using that(1) pos by (simp add: mult_le_iff_le_div)
    with m n need[of m n] that(2) show False by (auto simp: covered_def)
  qed
  moreover have "prefix_hit p hashes gids ?mc spec bs cs n"
    using need[OF n(2,3)] by (intro prefix_hitI[OF n(4) pool_null[OF pool]]) blast
  moreover have "int n * bs \<le> max_length" using n(3) pos M by (simp add: mult_le_iff_le_div)
  moreover have "(if max_length > 0 then bindE (an_int (spec_attention_chunk_size spec)) (\<lambda>k.
        bindE (py_div max_length k) (\<lambda>n. Inr (n * k))) else Inr 0) = Inr (max_length div c * c)"
    using c pos by (auto simp: an_int_def)
  then have "chunked_find_longest_cache_hit hashes max_length gids p spec eagle al dcp pcp = Inr cs"
    unfolding chunked_find_longest_cache_hit_def
    using cls pos n(1) by (simp add: loop pool_null[OF pool])
  ultimately show ?thesis using cls by (auto simp: longest_hit_def)
qed

lemma window_edge:
  assumes "0 < bs" and "1 < w" and "i < n"
  shows "unskipped SlidingWindowManager (spec\<lparr>spec_sliding_window := Some w\<rparr>) bs n i \<longleftrightarrow>
    int n - cdiv (w - 1) bs \<le> int i"
proof -
  have eq: "(int n * bs - (w - 1)) div bs = int n - cdiv (w - 1) bs"
  proof -
    have "int n * bs - (w - 1) = (1 - w) + int n * bs" by simp
    then have "(int n * bs - (w - 1)) div bs = int n + (1 - w) div bs"
      using assms(1) by (simp only: div_mult_self1)
    then show ?thesis by (simp add: cdiv_def div_minus_right)
  qed
  show ?thesis
  proof (cases "int n * bs - w + 1 \<le> 0")
    case True
    then have "(int n * bs - (w - 1)) div bs \<le> 0"
      using assms(1) zdiv_mono1[of "int n * bs - (w - 1)" 0 bs] by simp
    with True eq show ?thesis
      by (simp add: unskipped_def swa_get_num_skipped_tokens_def an_int_def)
  next
    case False
    then have "max 0 (int n * bs - w + 1) = int n * bs - (w - 1)" by simp
    with eq show ?thesis by (simp add: unskipped_def swa_get_num_skipped_tokens_def an_int_def)
  qed
qed

lemma swa_unskipped:
  assumes "0 < bs" and "spec_sliding_window spec = Some w" and "1 < w" and "i < n"
  shows "unskipped SlidingWindowManager spec bs n i \<longleftrightarrow> int n - cdiv (w - 1) bs \<le> int i"
proof -
  have "spec\<lparr>spec_sliding_window := Some w\<rparr> = spec" using assms(2) by simp
  with window_edge[OF assms(1,3,4), of spec] show ?thesis by simp
qed

lemma realign_aligned:
  assumes "hit_lists p f gids s cs n" and "groups_ok gids" and "al \<noteq> 0" and "al dvd int n * bs"
  shows "realign bs al cs = Inr cs"
proof -
  from realign_law[OF assms(1,2,3), of bs] obtain k where
    k: "k \<le> n" "realign bs al cs = Inr (map (take k) cs)" "\<forall>m \<le> n. al dvd int m * bs \<longrightarrow> m \<le> k" by blast
  with assms(4) have "k = n" by auto
  with k(2) show ?thesis by (simp add: hit_lists_take_all[OF assms(1)])
qed

text \<open>Dropping the block that EAGLE recomputes.\<close>

lemma eagle_pop:
  assumes "hit_lists p f gids s cs (Suc k)" and "groups_ok gids" and "al \<noteq> 0"
  shows "\<exists>n \<le> k. \<exists>cs'. bindE (py_index cs 0) (\<lambda>c. if c \<noteq> [] then bindE (pop_each cs) (realign bs al) else Inr cs) =
       Inr cs' \<and> hit_lists p f gids s cs' n \<and> al dvd int n * bs \<and> (al dvd int k * bs \<longrightarrow> n = k)"
proof -
  obtain c where c: "py_index cs 0 = Inr c" "length c = Suc k" using hit_lists_hd[OF assms(1,2)] by blast
  have t: "hit_lists p f gids s (map (take k) cs) k" by (rule hit_lists_take[OF assms(1)]) simp
  from realign_law[OF t assms(2,3), of bs] obtain n where
    n: "n \<le> k" "realign bs al (map (take k) cs) = Inr (map (take n) (map (take k) cs))"
      "hit_lists p f gids s (map (take n) (map (take k) cs)) n" "al dvd int n * bs"
      "\<forall>m \<le> k. al dvd int m * bs \<longrightarrow> m \<le> n" by blast
  have "c \<noteq> []" using c(2) by auto
  then have "bindE (py_index cs 0) (\<lambda>c. if c \<noteq> [] then bindE (pop_each cs) (realign bs al) else Inr cs) =
      Inr (map (take n) (map (take k) cs))"
    unfolding c(1) by (simp only: bindE_simps hit_lists_pop[OF assms(1)] if_True not_False_eq_True n(2))
  moreover have "al dvd int k * bs \<longrightarrow> n = k" using n(1,5) by auto
  ultimately show ?thesis using n(1,3,4) by blast
qed

definition swa_finish :: "bool \<Rightarrow> int \<Rightarrow> int \<Rightarrow> bool \<times> int \<times> addr list list \<Rightarrow> addr list list result" where
  "swa_finish eagle bs al r =
     (case r of (match_found, k, cs) \<Rightarrow>
        bindE (if match_found then Inr cs else realign bs al (map (\<lambda>c. py_slice_to c k) cs)) (\<lambda>cs.
          if eagle
          then bindE (py_index cs 0) (\<lambda>c. if c \<noteq> [] then bindE (pop_each cs) (realign bs al) else Inr cs)
          else Inr cs))"

lemma swa_finish_law:
  assumes r: "swa_result p f gids eagle bs al need M r" and g: "groups_ok gids" and al: "al \<noteq> 0"
    and w: "need = (if eagle then w + 1 else w)" and one: "1 \<le> w"
  shows "\<exists>cs s n. swa_finish eagle bs al r = Inr cs \<and> hit_lists p f gids s cs n \<and> al dvd int n * bs \<and>
     (int s + w \<le> int n \<or> s = 0) \<and> (if eagle then n = 0 \<or> Suc n \<le> M else n \<le> M) \<and>
     (\<not> eagle \<longrightarrow> (\<forall>m. n < m \<and> m \<le> M \<and> al dvd int m * bs \<longrightarrow> no_run p f gids w m))"
proof -
  obtain found k cs where rr: "r = (found, k, cs)" by (cases r)
  from r[unfolded swa_result_def rr prod.case] obtain s e where e: "e \<le> M" "0 < e \<longrightarrow> edge_ok eagle bs al e"
    "\<forall>e'. e < e' \<and> e' \<le> M \<and> edge_ok eagle bs al e' \<longrightarrow> no_run p f gids need e'"
    and res: "if found then 0 < e \<and> hit_lists p f gids s cs e \<and> int s + need \<le> int e
           else k = int e \<and> swa_state p f gids M 0 e cs" by blast
  let ?s = "if found then s else 0" and ?cs = "if found then cs else map (\<lambda>c. py_slice_to c k) cs"
  have hit: "hit_lists p f gids ?s ?cs e"
    using res swa_state_take[of p f gids M 0 e cs] e(1) by (cases found) auto
  have fin: "swa_finish eagle bs al r = bindE (if found then Inr ?cs else realign bs al ?cs) (\<lambda>cs.
      if eagle then bindE (py_index cs 0) (\<lambda>c. if c \<noteq> [] then bindE (pop_each cs) (realign bs al) else Inr cs)
      else Inr cs)"
    unfolding swa_finish_def rr by simp
  have s: "int ?s + need \<le> int e \<or> ?s = 0" using res by auto
  show ?thesis
  proof (cases eagle)
    case False
    have al_e: "al dvd int e * bs" using e(2) False by (cases "e = 0") (auto simp: edge_ok_def)
    have "swa_finish eagle bs al r = Inr ?cs"
      unfolding fin realign_aligned[OF hit g al al_e] using False by simp
    with hit al_e s e w False show ?thesis by (intro exI conjI) (auto simp: edge_ok_def)
  next
    case True
    have "\<exists>cs1 e1. (if found then Inr ?cs else realign bs al ?cs) = Inr cs1 \<and> hit_lists p f gids ?s cs1 e1 \<and>
        e1 \<le> e \<and> (found \<longrightarrow> e1 = e)"
      using hit realign_law[OF hit g al, of bs] by (cases found) auto
    then obtain cs1 e1 where c1: "(if found then Inr ?cs else realign bs al ?cs) = Inr cs1"
      "hit_lists p f gids ?s cs1 e1" "e1 \<le> e" "found \<longrightarrow> e1 = e" by blast
    show ?thesis
    proof (cases e1)
      case 0
      obtain c where c: "py_index cs1 0 = Inr c" "length c = 0"
        using hit_lists_hd[OF c1(2) g] 0 by blast
      have "\<not> found" using res c1(4) 0 by auto
      moreover have "swa_finish eagle bs al r = Inr cs1" unfolding fin c1(1) using True c by simp
      ultimately show ?thesis using c1(2) 0 True by (intro exI[of _ cs1] exI[of _ 0]) auto
    next
      case (Suc k1)
      from eagle_pop[OF c1(2)[unfolded Suc] g al, of bs] obtain n cs' where
        n: "n \<le> k1" "bindE (py_index cs1 0) (\<lambda>c. if c \<noteq> [] then bindE (pop_each cs1) (realign bs al) else Inr cs1) = Inr cs'"
          "hit_lists p f gids ?s cs' n" "al dvd int n * bs" "al dvd int k1 * bs \<longrightarrow> n = k1" by blast
      have "swa_finish eagle bs al r = Inr cs'" unfolding fin c1(1) using True n(2) by simp
      moreover have "int ?s + w \<le> int n \<or> ?s = 0"
      proof (cases found)
        case f: True
        then have "al dvd int k1 * bs" using e(2) c1(4) Suc True by (auto simp: edge_ok_def)
        with n(5) have "n = k1" by simp
        with s f c1(4) Suc w True one show ?thesis by auto
      qed simp
      moreover have "Suc n \<le> M" using n(1) c1(3) e(1) Suc by simp
      ultimately show ?thesis using n(3,4) True
        by (intro exI[of _ cs'] exI[of _ ?s] exI[of _ n]) (simp only: simp_thms if_True)
    qed
  qed
qed

lemma swa_lookup:
  assumes pool: "pool_rep p fl"
    and ok: "lookup_ok SlidingWindowManager spec al gids hashes max_length eagle dcp pcp"
    and bs: "bs = manager_block_size spec dcp pcp"
  shows "\<exists>hit n. swa_find_longest_cache_hit hashes max_length gids p spec eagle al dcp pcp = Inr hit \<and>
     longest_hit p hashes gids SlidingWindowManager spec bs al max_length eagle hit n"
proof -
  let ?f = "hash_of hashes" and ?M = "nat (max_length div bs)" and ?mc = SlidingWindowManager
  from ok have g: "groups_ok gids" and fits: "spec_fits ?mc spec eagle al dcp pcp"
    and pos: "0 < bs" "0 < al" "0 \<le> max_length" and cnt: "max_length div bs \<le> hash_count hashes"
    unfolding lookup_ok_def bs by blast+
  from fits obtain w where cls: "isinstance_spec spec SlidingWindowSpec" "dcp = 1" "pcp = 1"
    and w: "spec_sliding_window spec = Some w" "1 < w" by (auto simp: spec_fits_def)
  then have b: "spec_block_size spec = bs" by (simp add: bs manager_block_size_def)
  let ?w = "cdiv (w - 1) bs"
  let ?need = "if eagle then ?w + 1 else ?w"
  have one: "1 \<le> ?w" using cdiv_le_iff[of bs "w - 1" 0] pos w(2) by auto
  have M: "int ?M = max_length div bs" using pos by (simp add: pos_imp_zdiv_nonneg_iff)
  have st: "swa_state p ?f gids ?M ?M 0 (map (\<lambda>_. replicate ?M (Blk 0)) gids)"
    by (auto simp: swa_state_def list_all2_conv_all_nth)
  have "\<exists>r. swa_hit_loop hashes gids p eagle bs al ?need ?M (int 0) (map (\<lambda>_. replicate ?M (Blk 0)) gids) = Inr r \<and>
     swa_result p ?f gids eagle bs al ?need ?M r"
    using pos one cnt M by (intro swa_hit_loop_law[OF pool g _ _ _ st]) auto
  then obtain r where r: "swa_hit_loop hashes gids p eagle bs al ?need ?M 0 (map (\<lambda>_. replicate ?M (Blk 0)) gids) = Inr r"
    "swa_result p ?f gids eagle bs al ?need ?M r" by auto
  have eq: "swa_find_longest_cache_hit hashes max_length gids p spec eagle al dcp pcp = swa_finish eagle bs al r"
    unfolding swa_find_longest_cache_hit_def swa_finish_def
    using cls w pos r(1) by (simp add: b an_int_def contiguous_blocks_for_hit_def pool_null[OF pool])
  from swa_finish_law[OF r(2) g _ refl one] pos obtain cs s n where
    n: "swa_finish eagle bs al r = Inr cs" "hit_lists p ?f gids s cs n" "al dvd int n * bs"
      "int s + ?w \<le> int n \<or> s = 0" "if eagle then n = 0 \<or> Suc n \<le> ?M else n \<le> ?M"
      "\<not> eagle \<longrightarrow> (\<forall>m. n < m \<and> m \<le> ?M \<and> al dvd int m * bs \<longrightarrow> no_run p ?f gids ?w m)"
    by (metis less_irrefl)
  note skip = swa_unskipped[OF pos(1) w]
  have "prefix_hit p hashes gids ?mc spec bs cs n"
    using n(4) by (intro prefix_hitI[OF n(2) pool_null[OF pool]]) (auto simp: skip)
  moreover have "m \<le> n" if "\<not> eagle" "al dvd int m * bs" "int m * bs \<le> max_length"
    "covered p hashes gids ?mc spec bs m" for m
  proof (rule ccontr)
    assume "\<not> m \<le> n"
    moreover have "m \<le> ?M" using that(3) pos by (simp add: mult_le_iff_le_div)
    ultimately have "no_run p ?f gids ?w m" using n(6) that by auto
    then obtain i where "i < m" "int m - ?w \<le> int i" "\<not> in_cache p gids (?f i)" by (auto simp: no_run_def)
    with that(4) show False by (auto simp: covered_def skip)
  qed
  moreover have "n = 0 \<or> int (Suc n) * bs \<le> max_length" if eagle
    using n(5) that M pos by (subst mult_le_iff_le_div) auto
  moreover have "int n * bs \<le> max_length"
    using n(5) M pos by (subst mult_le_iff_le_div) (auto split: if_splits)
  ultimately show ?thesis using n(1,3) eq by (auto simp: longest_hit_def algebra_simps)
qed

text \<open>
  The contract that the coordinator relies on. A query stands for a kind of attention with its
  groups; \<open>len\<close> is the number of tokens of a hit, and \<open>reach q\<close> says which numbers of tokens are a
  cached prefix for the query.
\<close>

locale prefix_lookup =
  fixes fits :: "'q \<Rightarrow> int \<Rightarrow> bool \<Rightarrow> bool" and find :: "'q \<Rightarrow> int \<Rightarrow> bool \<Rightarrow> 'h result"
    and len :: "'q \<Rightarrow> 'h \<Rightarrow> int" and reach :: "'q \<Rightarrow> int \<Rightarrow> bool" and valid :: "'q \<Rightarrow> 'h \<Rightarrow> bool"
  assumes find_law: "fits q L e \<Longrightarrow>
      \<exists>h. find q L e = Inr h \<and> valid q h \<and> 0 \<le> len q h \<and> len q h \<le> L"
    and valid_reach: "fits q L e \<Longrightarrow> find q L e = Inr h \<Longrightarrow> reach q (len q h)"
    and find_max: "fits q L False \<Longrightarrow> find q L False = Inr h \<Longrightarrow> reach q m \<Longrightarrow> m \<le> L \<Longrightarrow> m \<le> len q h"
    and fits_mono: "fits q L e \<Longrightarrow> 0 \<le> L' \<Longrightarrow> L' \<le> L \<Longrightarrow> fits q L' e"
begin

text \<open>A second look-up at the length of a hit accepts it: the search has reached a fixed point.\<close>

lemma find_again:
  assumes "fits q L False" and "find q L False = Inr h"
  shows "\<exists>h'. find q (len q h) False = Inr h' \<and> len q h' = len q h"
proof -
  from find_law[OF assms(1)] assms(2) have h: "0 \<le> len q h" "len q h \<le> L" by auto
  then have f: "fits q (len q h) False" using fits_mono[OF assms(1)] by blast
  from find_law[OF f] obtain h' where h': "find q (len q h) False = Inr h'" "len q h' \<le> len q h" by blast
  from find_max[OF f h'(1) valid_reach[OF assms]] have "len q h \<le> len q h'" by simp
  with h' show ?thesis by auto
qed

text \<open>The longest hit grows with the bound.\<close>

lemma find_mono:
  assumes "fits q L False" and "find q L False = Inr h" and "0 \<le> L'" and "L' \<le> L"
    and "find q L' False = Inr h'"
  shows "len q h' \<le> len q h"
proof -
  have f: "fits q L' False" using fits_mono[OF assms(1,3,4)] .
  from find_law[OF f] assms(5) have "len q h' \<le> L'" by auto
  with find_max[OF assms(1,2) valid_reach[OF f assms(5)]] assms(4) show ?thesis by simp
qed

end

record lookup_query =
  q_class :: manager_class
  q_spec :: layer_spec
  q_groups :: "int list"
  q_hashes :: block_hash_list
  q_align :: int
  q_pool :: block_pool
  q_dcp :: int
  q_pcp :: int

abbreviation q_block_size :: "lookup_query \<Rightarrow> int" where
  "q_block_size q \<equiv> manager_block_size (q_spec q) (q_dcp q) (q_pcp q)"

definition query_fits :: "lookup_query \<Rightarrow> int \<Rightarrow> bool \<Rightarrow> bool" where
  "query_fits q L e \<longleftrightarrow> (\<exists>fl. pool_rep (q_pool q) fl) \<and>
     lookup_ok (q_class q) (q_spec q) (q_align q) (q_groups q) (q_hashes q) L e (q_dcp q) (q_pcp q)"

definition query_find :: "lookup_query \<Rightarrow> int \<Rightarrow> bool \<Rightarrow> addr list list result" where
  "query_find q L e =
     find_longest_cache_hit (q_class q) (q_hashes q) L (q_groups q) (q_pool q) (q_spec q) e (q_align q)
       (q_dcp q) (q_pcp q)"

definition query_len :: "lookup_query \<Rightarrow> addr list list \<Rightarrow> int" where
  "query_len q hit = int (length (hd hit)) * q_block_size q"

definition query_reach :: "lookup_query \<Rightarrow> int \<Rightarrow> bool" where
  "query_reach q t \<longleftrightarrow> (\<exists>n. t = int n * q_block_size q \<and> q_align q dvd t \<and>
     covered (q_pool q) (q_hashes q) (q_groups q) (q_class q) (q_spec q) (q_block_size q) n)"

definition query_valid :: "lookup_query \<Rightarrow> addr list list \<Rightarrow> bool" where
  "query_valid q hit \<longleftrightarrow>
     prefix_hit (q_pool q) (q_hashes q) (q_groups q) (q_class q) (q_spec q) (q_block_size q) hit (length (hd hit))"

lemma find_longest_cache_hit_law:
  assumes pool: "pool_rep p fl" and ok: "lookup_ok mc spec al gids hashes max_length eagle dcp pcp"
    and bs: "bs = manager_block_size spec dcp pcp"
  shows "\<exists>hit n. find_longest_cache_hit mc hashes max_length gids p spec eagle al dcp pcp = Inr hit \<and>
     longest_hit p hashes gids mc spec bs al max_length eagle hit n"
proof (cases mc)
  case CrossAttentionManager
  with ok show ?thesis by (simp add: lookup_ok_def spec_fits_def)
qed (use full_lookup[OF pool _ ok bs] swa_lookup[OF pool _ bs] chunked_lookup[OF pool _ bs]
  mamba_lookup[OF pool _ bs] ok in simp_all)

lemma prefix_hit_hd: "prefix_hit p hashes gids mc spec bs hit n \<Longrightarrow> groups_ok gids \<Longrightarrow> length (hd hit) = n"
  by (auto simp: prefix_hit_def groups_ok_def list_all2_Cons2 neq_Nil_conv)

lemma prefix_hit_covered:
  assumes "prefix_hit p hashes gids mc spec bs hit n"
  shows "covered p hashes gids mc spec bs n"
  unfolding covered_def in_cache_def
proof (intro allI impI ballI)
  fix i g assume i: "i < n" "unskipped mc spec bs n i" and "g \<in> set gids"
  then obtain j where j: "j < length gids" "g = gids ! j" by (auto simp: in_set_conv_nth)
  with assms i have "hit ! j ! i \<in> cached_under p (cache_key (hash_of hashes i) g)"
    by (auto simp: prefix_hit_def list_all2_conv_all_nth)
  then show "cached_under p (cache_key (hash_of hashes i) g) \<noteq> {}" by blast
qed

lemma query_find_law:
  assumes "query_fits q L e"
  shows "\<exists>hit n. query_find q L e = Inr hit \<and> query_len q hit = int n * q_block_size q \<and> length (hd hit) = n \<and>
     longest_hit (q_pool q) (q_hashes q) (q_groups q) (q_class q) (q_spec q) (q_block_size q) (q_align q) L e hit n"
proof -
  from assms obtain fl where pool: "pool_rep (q_pool q) fl" and
    ok: "lookup_ok (q_class q) (q_spec q) (q_align q) (q_groups q) (q_hashes q) L e (q_dcp q) (q_pcp q)"
    by (auto simp: query_fits_def)
  from find_longest_cache_hit_law[OF pool ok refl] obtain hit n where
    h: "query_find q L e = Inr hit" "longest_hit (q_pool q) (q_hashes q) (q_groups q) (q_class q) (q_spec q)
       (q_block_size q) (q_align q) L e hit n" by (auto simp: query_find_def)
  moreover have "length (hd hit) = n"
    by (rule prefix_hit_hd) (use h(2) ok in \<open>auto simp: longest_hit_def lookup_ok_def\<close>)
  ultimately show ?thesis by (auto simp: query_len_def)
qed

interpretation pl: prefix_lookup query_fits query_find query_len query_reach query_valid
proof
  fix q L e assume f: "query_fits q L e"
  then have pos: "0 < q_block_size q" by (simp add: query_fits_def lookup_ok_def)
  from query_find_law[OF f] obtain hit n where
    h: "query_find q L e = Inr hit" "query_len q hit = int n * q_block_size q" "length (hd hit) = n"
      "longest_hit (q_pool q) (q_hashes q) (q_groups q) (q_class q) (q_spec q) (q_block_size q) (q_align q) L e hit n"
    by blast
  with pos show "\<exists>h. query_find q L e = Inr h \<and> query_valid q h \<and> 0 \<le> query_len q h \<and> query_len q h \<le> L"
    by (auto simp: query_valid_def longest_hit_def)
  show "query_reach q (query_len q h')" if "query_find q L e = Inr h'" for h'
    using h that by (auto simp: query_reach_def longest_hit_def intro: prefix_hit_covered)
  show "query_fits q L' e" if "0 \<le> L'" "L' \<le> L" for L'
    using f that zdiv_mono1[OF that(2) pos] by (auto simp: query_fits_def lookup_ok_def)
next
  fix q L h m assume f: "query_fits q L False" and "query_find q L False = Inr h" "query_reach q m" "m \<le> L"
  moreover from f have "0 < q_block_size q" by (simp add: query_fits_def lookup_ok_def)
  ultimately show "m \<le> query_len q h"
    using query_find_law[OF f] by (auto simp: longest_hit_def query_reach_def)
qed

subsection \<open>Properties\<close>

text \<open>An example: all blocks of the pool are in use, and the block \<open>i + 1\<close> is cached under the \<open>i\<close>-th key.\<close>

definition full_heap :: "bytes list \<Rightarrow> block_heap" where
  "full_heap ks a =
     (case a of
        FakeHead \<Rightarrow> (new_kv_cache_block (-1))\<lparr>next_free_block := Some FakeTail\<rparr>
      | FakeTail \<Rightarrow> (new_kv_cache_block (-1))\<lparr>prev_free_block := Some FakeHead\<rparr>
      | Blk i \<Rightarrow> (new_kv_cache_block (int i))
          \<lparr>ref_cnt := (if i = 0 then 0 else 1),
           block_hash := (if 0 < i \<and> i \<le> length ks then Some (ks ! (i - 1)) else None), is_null := (i = 0)\<rparr>)"

definition full_pool :: "bytes list \<Rightarrow> block_pool" where
  "full_pool ks =
     \<lparr>num_gpu_blocks = int (length ks) + 1, enable_caching = True, hash_block_size = 16,
      free_block_queue = \<lparr>heap = full_heap ks, num_free_blocks = 0\<rparr>,
      cached_block_hash_to_block = zip ks (map (\<lambda>i. OneBlock (Blk i)) [Suc 0..<Suc (length ks)]),
      null_block = Blk 0, enable_kv_cache_events = False, kv_event_queue = [], metrics = None\<rparr>"

lemma full_pool_map:
  assumes "distinct ks"
  shows "dict_get (zip ks (map (\<lambda>i. OneBlock (Blk i)) [Suc 0..<Suc (length ks)])) k = Some e \<longleftrightarrow>
    (\<exists>i < length ks. k = ks ! i \<and> e = OneBlock (Blk (Suc i)))"
  using assms by (subst map_of_eq_Some_iff) (auto simp: set_zip simp del: upt_Suc)

lemma full_pool_state:
  assumes "distinct ks"
  shows "pool_rep (full_pool ks) []"
proof -
  let ?p = "full_pool ks"
  have us: "usable ?p = Blk ` {1..<Suc (length ks)}" by (simp add: usable_def full_pool_def nat_add_distrib)
  have q: "queue_rep (free_block_queue ?p) []"
    by (auto simp: queue_rep_def full_pool_def full_heap_def new_kv_cache_block_def)
  have ids: "ids_ok ?p" by (auto simp: ids_ok_def full_pool_def full_heap_def new_kv_cache_block_def)
  have "map_wf (cached_block_hash_to_block ?p)"
    by (auto simp: map_wf_def full_pool_def full_pool_map[OF assms] simp del: upt_Suc)
  moreover have "blocks_at (cached_block_hash_to_block ?p) k = {b \<in> usable ?p. block_hash (blk ?p b) = Some k}" for k
  proof (cases "\<exists>i < length ks. k = ks ! i")
    case True
    then obtain i where i: "i < length ks" "k = ks ! i" by blast
    then have "blocks_at (cached_block_hash_to_block ?p) k = {Blk (Suc i)}"
      using full_pool_map[OF assms, of k "OneBlock (Blk (Suc i))"] by (auto simp: blocks_at_def full_pool_def simp del: upt_Suc)
    moreover have "{b \<in> usable ?p. block_hash (blk ?p b) = Some k} = {Blk (Suc i)}"
      unfolding us using i assms
      by (auto simp: full_pool_def full_heap_def new_kv_cache_block_def nth_eq_iff_index_eq image_iff)
    ultimately show ?thesis by simp
  next
    case False
    then have "dict_get (cached_block_hash_to_block ?p) k = None"
      by (auto simp: full_pool_def in_set_conv_nth simp del: upt_Suc)
    with False show ?thesis unfolding us
      by (auto simp: blocks_at_def full_pool_def full_heap_def new_kv_cache_block_def)
  qed
  ultimately have "cache_ok ?p" by (simp add: cache_ok_def full_pool_def full_heap_def new_kv_cache_block_def)
  with q ids us show ?thesis
    by (auto simp: pool_rep_def pool_state_def) (auto simp: full_pool_def full_heap_def new_kv_cache_block_def)
qed


definition ex_hit_pool :: block_pool where
  "ex_hit_pool = full_pool
     [cache_key [1] 0, cache_key [2] 0, cache_key [3] 0, cache_key [2] 1, cache_key [3] 1]"

lemma ex_hit_pool_state: "pool_rep ex_hit_pool []"
  unfolding ex_hit_pool_def by (rule full_pool_state) code_simp

definition narrow_window :: layer_spec where
  "narrow_window = (window_layer 64)\<lparr>spec_sliding_window := Some 33\<rparr>"



end
