(* ===== verification/Type_Managers.thy ===== *)
theory Type_Managers
  imports Cache_Hit
begin

section \<open>Managers of one kind of attention\<close>

text \<open>
  The classes of vllm/v1/core/single\_type\_kv\_cache\_manager.py. A manager keeps, for every request,
  the list of blocks that hold the keys and values of the layers of one KV-cache group, and works
  on the block pool that all managers share. One record holds the attributes of all the classes; the
  class is a component of it, and a method that subclasses override is one definition per class
  and one that selects by the class. A method takes the manager and the pool and returns both.

  Blocks are compared with the placeholder by address. The code compares the attributes of the two
  objects, the identifier first; the identifiers of the blocks of a pool are pairwise different.
\<close>

subsection \<open>The state of a manager\<close>

record type_manager =
  m_class :: manager_class
  m_spec :: layer_spec
  m_scheduler_block_size :: int
  m_block_size :: int
  m_dcp_world_size :: int
  m_pcp_world_size :: int
  m_enable_caching :: bool
  m_max_admission_blocks :: "int option"
  m_new_block_ids :: "int list"
  req_to_blocks :: "(string, addr list) dict"
  num_cached_block :: "(string, int) dict"
  m_group_id :: int
  m_use_eagle :: bool
  cached_blocks_this_step :: "bytes list"
  last_state_block_idx :: "(string, int) dict"
  allocated_block_reqs :: "string list"

definition manager_init ::
  "manager_class \<Rightarrow> layer_spec \<Rightarrow> bool \<Rightarrow> int \<Rightarrow> int \<Rightarrow> int \<Rightarrow> int \<Rightarrow> int option \<Rightarrow> type_manager" where
  "manager_init c spec caching group_id scheduler_block_size dcp_world_size pcp_world_size max_blocks =
     \<lparr>m_class = c, m_spec = spec, m_scheduler_block_size = scheduler_block_size,
      m_block_size = (if dcp_world_size * pcp_world_size > 1
                      then spec_block_size spec * (dcp_world_size * pcp_world_size)
                      else spec_block_size spec),
      m_dcp_world_size = dcp_world_size, m_pcp_world_size = pcp_world_size,
      m_enable_caching = caching, m_max_admission_blocks = max_blocks, m_new_block_ids = [],
      req_to_blocks = [], num_cached_block = [], m_group_id = group_id, m_use_eagle = False,
      cached_blocks_this_step = [], last_state_block_idx = [], allocated_block_reqs = []\<rparr>"

text \<open>
  \<open>SinkFullAttentionManager.__init__\<close> has no parameter \<open>scheduler_block_size\<close> and passes its last two
  arguments by position, so they arrive one place too early. The sink blocks are taken off the
  free queue for good.
\<close>

definition sink_manager_init ::
  "layer_spec \<Rightarrow> bool \<Rightarrow> int \<Rightarrow> int \<Rightarrow> int \<Rightarrow> block_pool \<Rightarrow> (type_manager \<times> block_pool) result" where
  "sink_manager_init spec caching group_id dcp_world_size pcp_world_size p =
     (let m = manager_init SinkFullAttentionManager spec caching group_id dcp_world_size pcp_world_size 1 None in
      case spec_sink_len spec of
        None \<Rightarrow> Inl AssertionError
      | Some sink_len \<Rightarrow>
          bindE (assertE (sink_len > 0)) (\<lambda>_.
          bindE (py_mod sink_len (m_block_size m)) (\<lambda>r.
          bindE (assertE (r = 0)) (\<lambda>_.
          bindE (py_div sink_len (m_block_size m)) (\<lambda>num_sink_block.
          bindE (popleft_n num_sink_block (free_block_queue p)) (\<lambda>(sink_blocks, q).
            Inr (m, p\<lparr>free_block_queue := q\<rparr>)))))))"

text \<open>
  \<open>get_manager_for_kv_cache_spec\<close> as the coordinator calls it. The keyword \<open>scheduler_block_size\<close> is not a
  parameter of \<open>SinkFullAttentionManager\<close>, which Python reports as a \<open>TypeError\<close>.
\<close>

definition get_manager_for_kv_cache_spec ::
  "registry \<Rightarrow> kv_cache_spec \<Rightarrow> int \<Rightarrow> int \<Rightarrow> bool \<Rightarrow> int \<Rightarrow> int \<Rightarrow> int \<Rightarrow> int \<Rightarrow> type_manager result" where
  "get_manager_for_kv_cache_spec reg s max_num_batched_tokens max_model_len caching group_id
     dcp_world_size pcp_world_size scheduler_block_size =
     bindE (get_manager_class reg s) (\<lambda>mc.
       case (mc, s) of
         (Some c, LayerSpec spec) \<Rightarrow>
           bindE (if isinstance_spec spec SlidingWindowSpec
                  then bindE (swa_max_admission_blocks spec max_num_batched_tokens max_model_len) (\<lambda>n. Inr (Some n))
                  else if isinstance_spec spec ChunkedLocalAttentionSpec
                  then bindE (chunked_max_admission_blocks spec max_num_batched_tokens max_model_len) (\<lambda>n. Inr (Some n))
                  else Inr None) (\<lambda>max_blocks.
             if c = SinkFullAttentionManager then Inl TypeError
             else Inr (manager_init c spec caching group_id scheduler_block_size dcp_world_size
                         pcp_world_size max_blocks))
       | _ \<Rightarrow> Inl AssertionError)"

text \<open>\<open>self.req_to_blocks[request_id]\<close>: reading a missing key of a \<open>defaultdict\<close> stores an empty list.\<close>

definition blocks_of :: "type_manager \<Rightarrow> string \<Rightarrow> addr list" where
  "blocks_of m rid = dict_get_default (req_to_blocks m) rid []"

definition store_blocks :: "string \<Rightarrow> addr list \<Rightarrow> type_manager \<Rightarrow> type_manager" where
  "store_blocks rid bs m = m\<lparr>req_to_blocks := dict_set rid bs (req_to_blocks m)\<rparr>"

subsection \<open>How many blocks a request needs\<close>

definition get_num_evictable_blocks :: "block_pool \<Rightarrow> addr list \<Rightarrow> int" where
  "get_num_evictable_blocks p blocks =
     int (length (filter (\<lambda>b. ref_cnt (blk p b) = 0 \<and> \<not> is_null (blk p b)) blocks))"

definition base_get_num_blocks_to_allocate ::
  "string \<Rightarrow> int \<Rightarrow> addr list \<Rightarrow> int \<Rightarrow> bool \<Rightarrow> type_manager \<Rightarrow> block_pool \<Rightarrow> int result" where
  "base_get_num_blocks_to_allocate rid num_toks new_computed_blocks total_computed_tokens
     apply_admission_cap m p =
     bindE (py_cdiv num_toks (m_block_size m)) (\<lambda>required.
     let num_required_blocks =
           (case m_max_admission_blocks m of
              Some c \<Rightarrow> if apply_admission_cap then min required c else required
            | None \<Rightarrow> required);
         num_req_blocks = int (length (blocks_of m rid))
     in if rid \<in> set (dict_keys (num_cached_block m))
        then bindE (assertE (new_computed_blocks = [])) (\<lambda>_.
               Inr (max (num_required_blocks - num_req_blocks) 0))
        else
          bindE (get_num_skipped_tokens (m_class m) (m_spec m) total_computed_tokens) (\<lambda>num_skipped_tokens.
          bindE (py_div num_skipped_tokens (m_block_size m)) (\<lambda>num_skipped_blocks.
          let num_local_computed_blocks = int (length new_computed_blocks) + num_req_blocks;
              num_new_blocks = max (num_required_blocks - max num_skipped_blocks num_local_computed_blocks) 0;
              num_skipped_new_computed_blocks = max 0 (num_skipped_blocks - num_req_blocks);
              num_evictable_blocks = get_num_evictable_blocks p
                (py_slice_from new_computed_blocks num_skipped_new_computed_blocks)
          in Inr (num_new_blocks + num_evictable_blocks))))"

definition mamba_get_num_blocks_to_allocate ::
  "string \<Rightarrow> int \<Rightarrow> addr list \<Rightarrow> int \<Rightarrow> int \<Rightarrow> bool \<Rightarrow> type_manager \<Rightarrow> block_pool \<Rightarrow>
     (int \<times> type_manager) result" where
  "mamba_get_num_blocks_to_allocate rid num_toks new_computed_blocks total_computed_tokens
     num_tokens_main_model apply_admission_cap m p =
     bindE (assertE (isinstance_spec (m_spec m) MambaSpec)) (\<lambda>_.
     let num_speculative_blocks = spec_num_speculative_blocks (m_spec m) in
     if new_computed_blocks \<noteq> [] \<and>
        (\<exists>h \<in> set (cached_blocks_this_step m). block_hash (blk p (last new_computed_blocks)) = Some h)
     then Inr (num_gpu_blocks p + 1, m)
     else if spec_mamba_cache_mode (m_spec m) \<noteq> ''align'' then
       let num_toks = (if num_speculative_blocks > 0
                       then num_toks + spec_block_size (m_spec m) * num_speculative_blocks else num_toks)
       in bindE (base_get_num_blocks_to_allocate rid num_toks new_computed_blocks total_computed_tokens
                   apply_admission_cap m p) (\<lambda>n. Inr (n, m))
     else
       bindE (py_cdiv num_tokens_main_model (m_block_size m)) (\<lambda>blocks.
       let num_required_blocks = blocks + num_speculative_blocks;
           num_new_blocks = num_required_blocks - int (length new_computed_blocks) -
                            int (length (blocks_of m rid));
           num_new_blocks = (if num_new_blocks > 0
                             then if rid \<in> set (allocated_block_reqs m) then 1
                                  else 1 + num_speculative_blocks
                             else num_new_blocks);
           m = store_blocks rid (blocks_of m rid) m
       in Inr (num_new_blocks + get_num_evictable_blocks p new_computed_blocks, m)))"

definition get_num_blocks_to_allocate ::
  "string \<Rightarrow> int \<Rightarrow> addr list \<Rightarrow> int \<Rightarrow> int \<Rightarrow> bool \<Rightarrow> type_manager \<Rightarrow> block_pool \<Rightarrow>
     (int \<times> type_manager) result" where
  "get_num_blocks_to_allocate rid num_toks new_computed_blocks total_computed_tokens
     num_tokens_main_model apply_admission_cap m p =
     (if m_class m = MambaManager
      then mamba_get_num_blocks_to_allocate rid num_toks new_computed_blocks total_computed_tokens
             num_tokens_main_model apply_admission_cap m p
      else bindE (base_get_num_blocks_to_allocate rid num_toks new_computed_blocks
                    total_computed_tokens apply_admission_cap m p) (\<lambda>n. Inr (n, m)))"

subsection \<open>Adding blocks to a request\<close>

definition note_new_blocks :: "block_pool \<Rightarrow> addr list \<Rightarrow> type_manager \<Rightarrow> type_manager" where
  "note_new_blocks p bs m =
     (if spec_class_of (m_spec m) \<in> {FullAttentionSpec, TQFullAttentionSpec, MLAAttentionSpec}
      then m\<lparr>m_new_block_ids := m_new_block_ids m @ map (\<lambda>b. block_id (blk p b)) bs\<rparr> else m)"

text \<open>The part of \<open>allocate_new_computed_blocks\<close> that changes the state of a new request.\<close>

definition attach_computed_blocks ::
  "hash_env \<Rightarrow> string \<Rightarrow> addr list \<Rightarrow> int \<Rightarrow> int \<Rightarrow> int \<Rightarrow> type_manager \<Rightarrow> block_pool \<Rightarrow>
     (type_manager \<times> block_pool) result" where
  "attach_computed_blocks env rid new_computed_blocks num_skipped_blocks num_external_computed_tokens
     num_total_computed_tokens m p =
     bindE (if m_enable_caching m then touch new_computed_blocks p
            else bindE (assertE (new_computed_blocks = [])) (\<lambda>_. Inr p)) (\<lambda>p.
     let req_blocks = replicate (nat num_skipped_blocks) (null_block p) @ new_computed_blocks;
         m = (store_blocks rid req_blocks m)
               \<lparr>num_cached_block := dict_set rid (int (length req_blocks)) (num_cached_block m)\<rparr>
     in
     if num_external_computed_tokens > 0 then
       bindE (py_cdiv num_total_computed_tokens (m_block_size m)) (\<lambda>n.
       bindE (get_new_blocks env (n - int (length req_blocks)) p) (\<lambda>(allocated_blocks, p).
         Inr (note_new_blocks p allocated_blocks (store_blocks rid (req_blocks @ allocated_blocks) m), p)))
     else Inr (m, p))"

definition base_allocate_new_computed_blocks ::
  "hash_env \<Rightarrow> string \<Rightarrow> addr list \<Rightarrow> int \<Rightarrow> int \<Rightarrow> type_manager \<Rightarrow> block_pool \<Rightarrow>
     (type_manager \<times> block_pool) result" where
  "base_allocate_new_computed_blocks env rid new_computed_blocks num_local_computed_tokens
     num_external_computed_tokens m p =
     (if rid \<in> set (dict_keys (num_cached_block m))
      then bindE (assertE (new_computed_blocks = [])) (\<lambda>_. Inr (m, p))
      else
        bindE (assertE (blocks_of m rid = [])) (\<lambda>_.
        let num_total_computed_tokens = num_local_computed_tokens + num_external_computed_tokens in
        bindE (get_num_skipped_tokens (m_class m) (m_spec m) num_total_computed_tokens) (\<lambda>num_skipped_tokens.
        bindE (py_div num_skipped_tokens (m_block_size m)) (\<lambda>num_skipped_blocks.
        if num_skipped_blocks > 0
        then attach_computed_blocks env rid (py_slice_from new_computed_blocks num_skipped_blocks)
               num_skipped_blocks
               (min (num_total_computed_tokens - num_skipped_tokens) num_external_computed_tokens)
               num_total_computed_tokens m p
        else attach_computed_blocks env rid new_computed_blocks num_skipped_blocks
               num_external_computed_tokens num_total_computed_tokens m p))))"

definition allocate_new_computed_blocks ::
  "hash_env \<Rightarrow> string \<Rightarrow> addr list \<Rightarrow> int \<Rightarrow> int \<Rightarrow> type_manager \<Rightarrow> block_pool \<Rightarrow>
     (type_manager \<times> block_pool) result" where
  "allocate_new_computed_blocks env rid new_computed_blocks num_local_computed_tokens
     num_external_computed_tokens m p =
     (if m_class m = CrossAttentionManager
      then bindE (assertE (new_computed_blocks = [])) (\<lambda>_. Inr (m, p))
      else base_allocate_new_computed_blocks env rid new_computed_blocks num_local_computed_tokens
             num_external_computed_tokens m p)"

definition base_allocate_new_blocks ::
  "hash_env \<Rightarrow> string \<Rightarrow> int \<Rightarrow> type_manager \<Rightarrow> block_pool \<Rightarrow>
     (addr list \<times> type_manager \<times> block_pool) result" where
  "base_allocate_new_blocks env rid num_toks m p =
     (let req_blocks = blocks_of m rid in
      bindE (py_cdiv num_toks (m_block_size m)) (\<lambda>num_required_blocks.
      let num_new_blocks = num_required_blocks - int (length req_blocks) in
      if num_new_blocks \<le> 0 then Inr ([], store_blocks rid req_blocks m, p)
      else
        bindE (get_new_blocks env num_new_blocks p) (\<lambda>(new_blocks, p).
          Inr (new_blocks, note_new_blocks p new_blocks (store_blocks rid (req_blocks @ new_blocks) m), p))))"

text \<open>
  The \<open>align\<close> mode of Mamba keeps one block for the running state and the blocks for speculative
  tokens at the end of the list; everything before them may be a placeholder. The loop moves the
  speculative blocks of the last step to the end of the list.
\<close>

fun reuse_loop :: "addr \<Rightarrow> int \<Rightarrow> int list \<Rightarrow> addr list \<Rightarrow> addr list result" where
  "reuse_loop null num_skipped_blocks [] req_blocks = Inr req_blocks"
| "reuse_loop null num_skipped_blocks (block_idx # rest) req_blocks =
     (if block_idx < num_skipped_blocks then
        bindE (py_index req_blocks block_idx) (\<lambda>b.
          let req_blocks = req_blocks @ [b];
              j = (if block_idx < 0 then int (length req_blocks) + block_idx else block_idx)
          in reuse_loop null num_skipped_blocks rest (req_blocks[nat j := null]))
      else Inr req_blocks)"

definition align_allocate_new_blocks ::
  "hash_env \<Rightarrow> string \<Rightarrow> int \<Rightarrow> type_manager \<Rightarrow> block_pool \<Rightarrow>
     (addr list \<times> type_manager \<times> block_pool) result" where
  "align_allocate_new_blocks env rid num_toks m p =
     (let req_blocks = blocks_of m rid; num_speculative_blocks = spec_num_speculative_blocks (m_spec m) in
      bindE (py_cdiv num_toks (m_block_size m)) (\<lambda>blocks.
      let num_required_blocks = blocks + num_speculative_blocks in
      if num_required_blocks \<le> int (length req_blocks) then Inr ([], store_blocks rid req_blocks m, p)
      else
        let prev_block_len = int (length req_blocks);
            blocks_allocated = (rid \<in> set (allocated_block_reqs m));
            m = (if blocks_allocated
                 then m\<lparr>last_state_block_idx :=
                          dict_set rid (prev_block_len - 1 - num_speculative_blocks) (last_state_block_idx m)\<rparr>
                 else if prev_block_len > 0
                 then m\<lparr>last_state_block_idx := dict_set rid (prev_block_len - 1) (last_state_block_idx m)\<rparr>
                 else m);
            num_skipped_blocks = num_required_blocks - num_speculative_blocks - 1;
            req_blocks = (if prev_block_len < num_skipped_blocks
                          then req_blocks @ replicate (nat (num_skipped_blocks - prev_block_len)) (null_block p)
                          else req_blocks)
        in
        bindE (if blocks_allocated
               then reuse_loop (null_block p) num_skipped_blocks
                      [prev_block_len - num_speculative_blocks..prev_block_len - 1] req_blocks
               else Inr req_blocks) (\<lambda>req_blocks.
        let num_new_blocks = num_required_blocks - int (length req_blocks) in
        bindE (assertE (num_new_blocks \<le> (if blocks_allocated then 1 else num_speculative_blocks + 1))) (\<lambda>_.
        bindE (get_new_blocks env num_new_blocks p) (\<lambda>(new_blocks, p).
        let req_blocks = req_blocks @ new_blocks
        in Inr (py_slice_from req_blocks prev_block_len,
                (store_blocks rid req_blocks m)
                  \<lparr>allocated_block_reqs := List.insert rid (allocated_block_reqs m)\<rparr>, p))))))"

definition mamba_allocate_new_blocks ::
  "hash_env \<Rightarrow> string \<Rightarrow> int \<Rightarrow> int \<Rightarrow> type_manager \<Rightarrow> block_pool \<Rightarrow>
     (addr list \<times> type_manager \<times> block_pool) result" where
  "mamba_allocate_new_blocks env rid num_toks num_tokens_main_model m p =
     bindE (assertE (isinstance_spec (m_spec m) MambaSpec)) (\<lambda>_.
     let num_speculative_blocks = spec_num_speculative_blocks (m_spec m) in
     if spec_mamba_cache_mode (m_spec m) \<noteq> ''align''
     then base_allocate_new_blocks env rid
            (if num_speculative_blocks > 0 then num_toks + m_block_size m * num_speculative_blocks
             else num_toks) m p
     else align_allocate_new_blocks env rid num_tokens_main_model m p)"

definition allocate_new_blocks ::
  "hash_env \<Rightarrow> string \<Rightarrow> int \<Rightarrow> int \<Rightarrow> type_manager \<Rightarrow> block_pool \<Rightarrow>
     (addr list \<times> type_manager \<times> block_pool) result" where
  "allocate_new_blocks env rid num_toks num_tokens_main_model m p =
     (if m_class m = MambaManager then mamba_allocate_new_blocks env rid num_toks num_tokens_main_model m p
      else base_allocate_new_blocks env rid num_toks m p)"

definition take_new_block_ids :: "type_manager \<Rightarrow> int list \<times> type_manager" where
  "take_new_block_ids m = (m_new_block_ids m, m\<lparr>m_new_block_ids := []\<rparr>)"

subsection \<open>Caching the blocks of a request\<close>

definition swa_reachable_block_mask ::
  "int \<Rightarrow> int \<Rightarrow> int option \<Rightarrow> layer_spec \<Rightarrow> bool \<Rightarrow> int option \<Rightarrow> int option \<Rightarrow> bool list option result" where
  "swa_reachable_block_mask start_block end_block alignment_tokens spec use_eagle retention_interval
     prompt_tokens =
     bindE (assertE (isinstance_spec spec SlidingWindowSpec)) (\<lambda>_.
     case alignment_tokens of
       None \<Rightarrow> Inr None
     | Some al \<Rightarrow>
         let block_size = spec_block_size spec in
         bindE (py_mod al block_size) (\<lambda>r.
         bindE (assertE (r = 0)) (\<lambda>_.
         bindE (an_int (spec_sliding_window spec)) (\<lambda>window_size.
         bindE (contiguous_blocks_for_hit window_size block_size use_eagle) (\<lambda>need.
         let shift = (if use_eagle then 1 else 0);
             bmask = replicate (nat (end_block - start_block)) False;
             segment_tokens = (case retention_interval of
                                 None \<Rightarrow> Some al
                               | Some i \<Rightarrow> if i = 0 then None else Some i)
         in
         bindE (case segment_tokens of
                  None \<Rightarrow> Inr (Some bmask)
                | Some seg \<Rightarrow>
                    bindE (py_div seg block_size) (\<lambda>per_segment.
                      if need \<ge> per_segment then Inr None
                      else
                        bindE (foldE (\<lambda>i bmask.
                            if i \<ge> shift
                            then bindE (py_mod (i - shift) per_segment) (\<lambda>r.
                                   Inr (if r \<ge> per_segment - need then bmask[nat (i - start_block) := True]
                                        else bmask))
                            else Inr bmask)
                          [start_block..end_block - 1] bmask) (\<lambda>bmask. Inr (Some bmask)))) (\<lambda>tails.
         case tails of
           None \<Rightarrow> Inr None
         | Some bmask \<Rightarrow>
             (case (retention_interval, prompt_tokens) of
                (Some _, Some n) \<Rightarrow>
                  bindE (py_div (n - 1) al) (\<lambda>k.
                  bindE (py_div (k * al) block_size) (\<lambda>latest.
                  let prompt_end_block = latest + shift
                  in Inr (Some (fold (\<lambda>i bmask. bmask[nat (i - start_block) := True])
                       [max start_block (prompt_end_block - need)..min end_block prompt_end_block - 1] bmask))))
              | _ \<Rightarrow> Inr (Some bmask))))))))"

definition reachable_block_mask ::
  "manager_class \<Rightarrow> int \<Rightarrow> int \<Rightarrow> int option \<Rightarrow> layer_spec \<Rightarrow> bool \<Rightarrow> int option \<Rightarrow> int option \<Rightarrow>
     bool list option result" where
  "reachable_block_mask c start_block end_block alignment_tokens spec use_eagle retention_interval
     prompt_tokens =
     (if c = SlidingWindowManager
      then swa_reachable_block_mask start_block end_block alignment_tokens spec use_eagle
             retention_interval prompt_tokens
      else Inr None)"

definition base_cache_blocks ::
  "hash_env \<Rightarrow> request \<Rightarrow> int \<Rightarrow> int option \<Rightarrow> type_manager \<Rightarrow> block_pool \<Rightarrow>
     (request \<times> type_manager \<times> block_pool) result" where
  "base_cache_blocks env r num_toks retention_interval m p =
     (let rid = request_id r; num_cached_blocks = dict_get_default (num_cached_block m) rid 0 in
      bindE (py_div num_toks (m_block_size m)) (\<lambda>num_full_blocks.
      if num_cached_blocks \<ge> num_full_blocks then Inr (r, m, p)
      else
        bindE (reachable_block_mask (m_class m) num_cached_blocks num_full_blocks
                 (Some (m_scheduler_block_size m)) (m_spec m) (m_use_eagle m) retention_interval
                 (Some (num_prompt_tokens r))) (\<lambda>block_mask.
        bindE (cache_full_blocks env (blocks_of m rid) num_cached_blocks num_full_blocks (m_block_size m)
                 (m_group_id m) block_mask r p) (\<lambda>(r, p).
          Inr (r, (store_blocks rid (blocks_of m rid) m)
                    \<lparr>num_cached_block := dict_set rid num_full_blocks (num_cached_block m)\<rparr>, p)))))"

definition mamba_cache_blocks ::
  "hash_env \<Rightarrow> request \<Rightarrow> int \<Rightarrow> int option \<Rightarrow> type_manager \<Rightarrow> block_pool \<Rightarrow>
     (request \<times> type_manager \<times> block_pool) result" where
  "mamba_cache_blocks env r num_toks retention_interval m p =
     (let rid = request_id r; before = dict_get_default (num_cached_block m) rid 0 in
      bindE (base_cache_blocks env r num_toks retention_interval m p) (\<lambda>(r, m, p).
      let after = dict_get_default (num_cached_block m) rid 0 in
      if after > before then
        bindE (foldE (\<lambda>block m.
                 if is_null (blk p block) then Inr m
                 else
                   (case block_hash (blk p block) of
                      None \<Rightarrow> Inl AssertionError
                    | Some h \<Rightarrow> Inr (m\<lparr>cached_blocks_this_step := List.insert h (cached_blocks_this_step m)\<rparr>)))
               (py_slice (blocks_of m rid) before after) (store_blocks rid (blocks_of m rid) m)) (\<lambda>m.
          Inr (r, m, p))
      else Inr (r, m, p)))"

definition cache_blocks ::
  "hash_env \<Rightarrow> request \<Rightarrow> int \<Rightarrow> int option \<Rightarrow> type_manager \<Rightarrow> block_pool \<Rightarrow>
     (request \<times> type_manager \<times> block_pool) result" where
  "cache_blocks env r num_toks retention_interval m p =
     (case m_class m of
        MambaManager \<Rightarrow> mamba_cache_blocks env r num_toks retention_interval m p
      | CrossAttentionManager \<Rightarrow> Inl ValueError
      | _ \<Rightarrow> base_cache_blocks env r num_toks retention_interval m p)"

subsection \<open>Giving blocks back\<close>

definition forget_request :: "string \<Rightarrow> type_manager \<Rightarrow> type_manager" where
  "forget_request rid m =
     m\<lparr>req_to_blocks := dict_del rid (req_to_blocks m), num_cached_block := dict_del rid (num_cached_block m)\<rparr>"

definition base_free :: "string \<Rightarrow> type_manager \<Rightarrow> block_pool \<Rightarrow> (type_manager \<times> block_pool) result" where
  "base_free rid m p =
     bindE (free_blocks (rev (blocks_of m rid)) False p) (\<lambda>p. Inr (forget_request rid m, p))"

definition is_cached :: "block_pool \<Rightarrow> addr \<Rightarrow> bool" where
  "is_cached p b \<longleftrightarrow> block_hash (blk p b) \<noteq> None"

definition swa_free :: "string \<Rightarrow> type_manager \<Rightarrow> block_pool \<Rightarrow> (type_manager \<times> block_pool) result" where
  "swa_free rid m p =
     (let req_blocks = blocks_of m rid;
          cached_blocks = filter (is_cached p) (rev req_blocks);
          uncached_blocks = filter (\<lambda>b. \<not> is_cached p b) (rev req_blocks)
      in bindE (if req_blocks \<noteq> []
                then bindE (free_blocks cached_blocks False p) (free_blocks uncached_blocks True)
                else Inr p)
           (\<lambda>p. Inr (forget_request rid m, p)))"

definition free_request :: "string \<Rightarrow> type_manager \<Rightarrow> block_pool \<Rightarrow> (type_manager \<times> block_pool) result" where
  "free_request rid m p =
     (if m_class m = SlidingWindowManager then swa_free rid m p
      else if m_class m = MambaManager \<and> spec_mamba_cache_mode (m_spec m) = ''align''
      then base_free rid (m\<lparr>allocated_block_reqs := removeAll rid (allocated_block_reqs m),
                            last_state_block_idx := dict_del rid (last_state_block_idx m)\<rparr>) p
      else base_free rid m p)"

text \<open>The loop of \<open>remove_skipped_blocks\<close> over the first \<open>i\<close> blocks, from the right.\<close>

fun skip_loop :: "block_pool \<Rightarrow> nat \<Rightarrow> addr list \<Rightarrow> addr list \<times> addr list \<times> addr list" where
  "skip_loop p 0 blocks = ([], [], blocks)"
| "skip_loop p (Suc i) blocks =
     (let b = blocks ! i in
      if b = null_block p then ([], [], blocks)
      else
        let (removed_cached, removed_uncached, blocks) = skip_loop p i (blocks[i := null_block p])
        in if is_cached p b then (b # removed_cached, removed_uncached, blocks)
           else (removed_cached, b # removed_uncached, blocks))"

definition base_remove_skipped_blocks ::
  "string \<Rightarrow> int \<Rightarrow> type_manager \<Rightarrow> block_pool \<Rightarrow> (type_manager \<times> block_pool) result" where
  "base_remove_skipped_blocks rid total_computed_tokens m p =
     bindE (get_num_skipped_tokens (m_class m) (m_spec m) total_computed_tokens) (\<lambda>num_skipped_tokens.
       if num_skipped_tokens \<le> 0 then Inr (m, p)
       else
         bindE (py_div num_skipped_tokens (m_block_size m)) (\<lambda>num_skipped_blocks.
         let blocks = blocks_of m rid;
             num_skipped_blocks = min num_skipped_blocks (int (length blocks));
             (removed_cached, removed_uncached, blocks) = skip_loop p (nat num_skipped_blocks) blocks
         in bindE (free_blocks removed_cached False p) (\<lambda>p.
            bindE (free_blocks removed_uncached True p) (\<lambda>p. Inr (store_blocks rid blocks m, p)))))"

definition mamba_remove_skipped_blocks ::
  "string \<Rightarrow> int \<Rightarrow> type_manager \<Rightarrow> block_pool \<Rightarrow> (type_manager \<times> block_pool) result" where
  "mamba_remove_skipped_blocks rid computed m p =
     bindE (assertE (isinstance_spec (m_spec m) MambaSpec)) (\<lambda>_.
     let computed = max 0 (computed - spec_num_speculative_blocks (m_spec m)) in
     bindE (base_remove_skipped_blocks rid computed m p) (\<lambda>(m, p).
       if spec_mamba_cache_mode (m_spec m) \<noteq> ''align'' then Inr (m, p)
       else
         (case dict_get (last_state_block_idx m) rid of
            None \<Rightarrow> Inr (m, p)
          | Some idx \<Rightarrow>
              bindE (py_cdiv computed (m_block_size m)) (\<lambda>n.
                if idx < n - 1 then
                  let blocks = blocks_of m rid in
                  bindE (py_index blocks idx) (\<lambda>b.
                    if b \<noteq> null_block p then
                      bindE (free_blocks [b] False p) (\<lambda>p.
                        let j = (if idx < 0 then int (length blocks) + idx else idx)
                        in Inr (store_blocks rid (blocks[nat j := null_block p]) m, p))
                    else Inr (store_blocks rid blocks m, p))
                else Inr (m, p)))))"

definition remove_skipped_blocks ::
  "string \<Rightarrow> int \<Rightarrow> type_manager \<Rightarrow> block_pool \<Rightarrow> (type_manager \<times> block_pool) result" where
  "remove_skipped_blocks rid total_computed_tokens m p =
     (if m_class m = MambaManager then mamba_remove_skipped_blocks rid total_computed_tokens m p
      else base_remove_skipped_blocks rid total_computed_tokens m p)"

subsection \<open>Common prefixes and steps\<close>

text \<open>The number of requests is read after the running request has been looked up, which may add it.\<close>

definition get_num_common_prefix_blocks :: "string \<Rightarrow> type_manager \<Rightarrow> block_pool \<Rightarrow> int \<times> type_manager" where
  "get_num_common_prefix_blocks rid m p =
     (if m_class m \<in> {FullAttentionManager, SinkFullAttentionManager} then
        let m = store_blocks rid (blocks_of m rid) m
        in (int (length (takeWhile (\<lambda>b. ref_cnt (blk p b) = int (length (req_to_blocks m))) (blocks_of m rid))), m)
      else (0, m))"

definition new_step_starts :: "type_manager \<Rightarrow> type_manager" where
  "new_step_starts m = (if m_class m = MambaManager then m\<lparr>cached_blocks_this_step := []\<rparr> else m)"

end
