(* ===== verification/Block_Ownership.thy ===== *)
theory Block_Ownership
  imports Type_Managers
begin

section \<open>Ownership of blocks\<close>

text \<open>
  What the operations of a manager do to the reference counts of the pool. A manager \<^emph>\<open>holds\<close> a block as
  often as its lists mention it; an operation is \<^emph>\<open>balanced\<close> if the references of every block change by
  exactly as much as the holdings of the manager, and the pool stays well-formed. The lemmas show
  this for freeing, skipping, attaching a cached prefix, allocating and caching, for every class of
  manager, and that freeing, skipping and allocating within the announced number of blocks succeed.
\<close>

subsection \<open>Who holds which block\<close>

text \<open>How often the lists of a manager mention a block.\<close>

definition held :: "type_manager \<Rightarrow> addr \<Rightarrow> nat" where
  "held m b = sum_list (map (\<lambda>e. count_list (snd e) b) (req_to_blocks m))"

definition proper_blocks :: "block_pool \<Rightarrow> addr list \<Rightarrow> bool" where
  "proper_blocks p bs \<longleftrightarrow> set bs \<subseteq> insert (Blk 0) (usable p) \<and> (\<forall>b. b \<noteq> Blk 0 \<longrightarrow> count_list bs b \<le> 1)"

definition manager_ok :: "type_manager \<Rightarrow> block_pool \<Rightarrow> bool" where
  "manager_ok m p \<longleftrightarrow> distinct (dict_keys (req_to_blocks m)) \<and> (\<forall>rid. proper_blocks p (blocks_of m rid))"

definition owner_ok :: "type_manager \<Rightarrow> block_pool \<Rightarrow> bool" where
  "owner_ok m p \<longleftrightarrow> manager_ok m p \<and> (\<forall>b \<in> usable p. int (held m b) \<le> ref_cnt (blk p b))"

text \<open>What every operation keeps: references move with the lists of the manager.\<close>

definition balanced :: "type_manager \<Rightarrow> block_pool \<Rightarrow> type_manager \<Rightarrow> block_pool \<Rightarrow> bool" where
  "balanced m p m' p' \<longleftrightarrow> (\<exists>fl. pool_rep p' fl) \<and> same_config p' p \<and> manager_ok m' p' \<and>
     m_class m' = m_class m \<and> m_spec m' = m_spec m \<and> m_block_size m' = m_block_size m \<and>
     m_enable_caching m' = m_enable_caching m \<and> m_group_id m' = m_group_id m \<and>
     (\<forall>b \<in> usable p. ref_cnt (blk p' b) + int (held m b) = ref_cnt (blk p b) + int (held m' b))"

lemma held_update:
  "distinct (dict_keys d) \<Longrightarrow>
     sum_list (map (\<lambda>e. count_list (snd e) b) (dict_set k v d)) + count_list (dict_get_default d k []) b =
     sum_list (map (\<lambda>e. count_list (snd e) b) d) + count_list v b"
proof (induction d)
  case (Cons e d)
  obtain k' v' where e: "e = (k', v')" by (cases e)
  show ?case
  proof (cases "k' = k")
    case True
    then show ?thesis using Cons.prems by (simp add: e dict_get_default_def)
  next
    case False
    then show ?thesis using Cons by (simp add: e dict_get_default_def)
  qed
qed (simp add: dict_get_default_def)

lemma held_delete:
  "distinct (dict_keys d) \<Longrightarrow>
     sum_list (map (\<lambda>e. count_list (snd e) b) (dict_del k d)) + count_list (dict_get_default d k []) b =
     sum_list (map (\<lambda>e. count_list (snd e) b) d)"
proof (induction d)
  case (Cons e d)
  obtain k' v' where e: "e = (k', v')" by (cases e)
  show ?case
  proof (cases "k' = k")
    case True
    then have "dict_del k d = d" using Cons.prems by (auto simp: e intro: delete_idem)
    then show ?thesis using True by (simp add: e dict_get_default_def)
  next
    case False
    then show ?thesis using Cons by (simp add: e dict_get_default_def)
  qed
qed (simp add: dict_get_default_def)

lemma held_store:
  "manager_ok m p \<Longrightarrow>
     held (store_blocks rid bs m) b + count_list (blocks_of m rid) b = held m b + count_list bs b"
  by (simp add: held_def store_blocks_def blocks_of_def manager_ok_def held_update)

lemma held_forget:
  "manager_ok m p \<Longrightarrow> held (forget_request rid m) b + count_list (blocks_of m rid) b = held m b"
  by (simp add: held_def forget_request_def blocks_of_def manager_ok_def held_delete)

lemma blocks_of_store [simp]:
  "blocks_of (store_blocks rid bs m) rid' = (if rid' = rid then bs else blocks_of m rid')"
  by (simp add: blocks_of_def store_blocks_def)

lemma blocks_of_forget [simp]:
  "blocks_of (forget_request rid m) rid' = (if rid' = rid then [] else blocks_of m rid')"
  by (simp add: blocks_of_def forget_request_def)

lemma proper_Nil [simp]: "proper_blocks p []"
  by (simp add: proper_blocks_def)

lemma manager_ok_store:
  "manager_ok m p \<Longrightarrow> proper_blocks p bs \<Longrightarrow> manager_ok (store_blocks rid bs m) p"
  by (auto simp: manager_ok_def) (auto simp: store_blocks_def)

lemma manager_ok_forget: "manager_ok m p \<Longrightarrow> manager_ok (forget_request rid m) p"
  by (auto simp: manager_ok_def) (auto simp: forget_request_def)

lemma usable_same [simp]: "same_config p' p \<Longrightarrow> usable p' = usable p"
  by (simp add: same_config_def usable_def)

lemma proper_same: "same_config p' p \<Longrightarrow> proper_blocks p' bs = proper_blocks p bs"
  by (simp add: proper_blocks_def)

lemma manager_ok_same: "same_config p' p \<Longrightarrow> manager_ok m p' = manager_ok m p"
  by (simp add: manager_ok_def proper_same)

lemma manager_ok_cong:
  "req_to_blocks m' = req_to_blocks m \<Longrightarrow> manager_ok m' p = manager_ok m p"
  by (simp add: manager_ok_def blocks_of_def)

lemma held_cong: "req_to_blocks m' = req_to_blocks m \<Longrightarrow> held m' = held m"
  by (auto simp: held_def)

lemma manager_ok_blocks: "manager_ok m p \<Longrightarrow> proper_blocks p (blocks_of m rid)"
  by (simp add: manager_ok_def)

lemma held_ge: "manager_ok m p \<Longrightarrow> count_list (blocks_of m rid) b \<le> held m b"
  using held_forget[of m p rid b] by simp

lemma owner_count:
  assumes "owner_ok m p" and "b \<in> usable p"
  shows "int (count_list (blocks_of m rid) b) \<le> ref_cnt (blk p b)"
proof -
  have "count_list (blocks_of m rid) b \<le> held m b" using assms(1) held_ge by (auto simp: owner_ok_def)
  then show ?thesis using assms by (fastforce simp: owner_ok_def)
qed

lemma balancedI:
  assumes "pool_rep p' fl" and "same_config p' p" and "manager_ok m p" and "proper_blocks p bs"
    and "m' = (store_blocks rid bs m)\<lparr>m_new_block_ids := a1, num_cached_block := a2,
          last_state_block_idx := a3, allocated_block_reqs := a4, cached_blocks_this_step := a5\<rparr>"
    and "\<And>b. b \<in> usable p \<Longrightarrow> ref_cnt (blk p' b) + int (count_list (blocks_of m rid) b) =
           ref_cnt (blk p b) + int (count_list bs b)"
  shows "balanced m p m' p'"
proof -
  have "manager_ok m' p'"
    using manager_ok_store[OF assms(3,4), of rid] assms(2) manager_ok_cong[of m' "store_blocks rid bs m"]
    by (simp add: assms(5) manager_ok_same store_blocks_def)
  moreover have "held m' = held (store_blocks rid bs m)" by (rule held_cong) (simp add: assms(5))
  then have "held m' b + count_list (blocks_of m rid) b = held m b + count_list bs b" for b
    using held_store[OF assms(3), of rid bs b] by simp
  then have eq: "int (held m' b) + int (count_list (blocks_of m rid) b) = int (held m b) + int (count_list bs b)" for b
    by (metis of_nat_add)
  have "ref_cnt (blk p' b) + int (held m b) = ref_cnt (blk p b) + int (held m' b)" if "b \<in> usable p" for b
    using assms(6)[OF that] eq[of b] by linarith
  moreover have "m_class m' = m_class m \<and> m_spec m' = m_spec m \<and> m_block_size m' = m_block_size m \<and>
      m_enable_caching m' = m_enable_caching m \<and> m_group_id m' = m_group_id m"
    by (simp add: assms(5) store_blocks_def)
  ultimately show ?thesis using assms(1,2) unfolding balanced_def by blast
qed

lemma balanced_store_plainI:
  assumes "pool_rep p' fl" and "same_config p' p" and "manager_ok m p" and "proper_blocks p bs"
    and "\<And>b. b \<in> usable p \<Longrightarrow> ref_cnt (blk p' b) + int (count_list (blocks_of m rid) b) =
           ref_cnt (blk p b) + int (count_list bs b)"
  shows "balanced m p (store_blocks rid bs m) p'"
  by (rule balancedI[where ?a1.0 = "m_new_block_ids m" and ?a2.0 = "num_cached_block m" and
        ?a3.0 = "last_state_block_idx m" and ?a4.0 = "allocated_block_reqs m" and
        ?a5.0 = "cached_blocks_this_step m", OF assms(1-4)])
     (use assms(5) in \<open>simp_all add: store_blocks_def\<close>)

lemma balanced_forgetI:
  assumes "pool_rep p' fl" and "same_config p' p" and "manager_ok m p"
    and "\<And>b. ref_cnt (blk p' b) + int (count_list (blocks_of m rid) b) = ref_cnt (blk p b)"
  shows "balanced m p (forget_request rid m) p'"
proof -
  let ?m = "forget_request rid m"
  have "ref_cnt (blk p' b) + int (held m b) = ref_cnt (blk p b) + int (held ?m b)" for b
    unfolding held_forget[OF assms(3), of rid b, symmetric] using assms(4)[of b] by simp
  moreover have "m_class ?m = m_class m \<and> m_spec ?m = m_spec m \<and> m_block_size ?m = m_block_size m \<and>
      m_enable_caching ?m = m_enable_caching m \<and> m_group_id ?m = m_group_id m"
    by (simp add: forget_request_def)
  ultimately show ?thesis
    using assms(1,2) manager_ok_forget[OF assms(3), of rid] manager_ok_same[OF assms(2)]
    unfolding balanced_def by blast
qed

subsection \<open>Operations of the pool, by reference counts\<close>

lemma payload_fields:
  assumes "payload x = payload y"
  shows "block_id x = block_id y" "ref_cnt x = ref_cnt y" "block_hash x = block_hash y" "is_null x = is_null y"
  using assms by (simp_all add: payload_def)

lemma count_le_distinct: "(\<And>b. b \<noteq> z \<Longrightarrow> count_list bs b \<le> 1) \<Longrightarrow> distinct (filter (\<lambda>b. b \<noteq> z) bs)"
proof (induction bs)
  case (Cons a bs)
  have "count_list bs b \<le> 1" if "b \<noteq> z" for b
    using Cons.prems[OF that] by (cases "a = b") simp_all
  moreover have "a \<notin> set bs" if "a \<noteq> z"
    using Cons.prems[OF that] count_list_0_iff[of bs a] by simp
  ultimately show ?case using Cons.IH by simp
qed simp

lemma proper_freeable:
  assumes "proper_blocks p bs" and "\<And>b. b \<in> usable p \<Longrightarrow> int (count_list bs b) \<le> ref_cnt (blk p b)"
  shows "freeable bs p"
proof -
  have "0 < ref_cnt (blk p b)" if "b \<in> set bs" "b \<in> usable p" for b
  proof -
    have "0 < count_list bs b" using that(1) count_list_0_iff[of bs b] by blast
    with assms(2)[OF that(2)] show ?thesis by linarith
  qed
  moreover have "distinct (filter (\<lambda>b. b \<noteq> Blk 0) bs)"
    by (rule count_le_distinct) (use assms(1) in \<open>simp add: proper_blocks_def\<close>)
  ultimately show ?thesis using assms(1) unfolding freeable_def proper_blocks_def by blast
qed

lemma free_counts:
  assumes "pool_rep p fl" and "proper_blocks p bs"
    and "\<And>b. b \<in> usable p \<Longrightarrow> int (count_list bs b) \<le> ref_cnt (blk p b)"
  shows "\<exists>p' fl'. free_blocks bs prepend p = Inr p' \<and> pool_rep p' fl' \<and> same_config p' p \<and>
     length fl \<le> length fl' \<and>
     (\<forall>b. ref_cnt (blk p' b) = ref_cnt (blk p b) - int (count_list bs b)) \<and>
     (\<forall>b. block_hash (blk p' b) = block_hash (blk p b))"
proof -
  from free_blocks_state[OF assms(1) proper_freeable[OF assms(2,3)], of prepend] obtain p' where
    p': "free_blocks bs prepend p = Inr p'" "same_config p' p"
      "pool_rep p' (if prepend then newly_free bs p @ fl else fl @ newly_free bs p)"
      "\<forall>c. payload (blk p' c) = payload ((blk p c)\<lparr>ref_cnt := ref_cnt (blk p c) - int (count_list bs c)\<rparr>)"
    by blast
  have "length fl \<le> length (if prepend then newly_free bs p @ fl else fl @ newly_free bs p)" by simp
  with p' payload_fields[OF p'(4)[rule_format]] show ?thesis by fastforce
qed

lemma new_counts:
  assumes "pool_rep p fl" and "0 \<le> n" and "get_new_blocks env n p = Inr (bs, p')"
  shows "int (length bs) = n" and "proper_blocks p bs" and "pool_rep p' (drop (length bs) fl)"
    and "same_config p' p" and "set bs \<subseteq> usable p" and "\<And>b. b \<in> set bs \<Longrightarrow> ref_cnt (blk p b) = 0"
    and "\<And>b. ref_cnt (blk p' b) = ref_cnt (blk p b) + int (count_list bs b)"
proof -
  have le: "n \<le> int (length fl)"
    using get_new_blocks_error[of fl n p env] assms by (cases "n \<le> int (length fl)") auto
  from get_new_blocks_state[OF assms(1,2) le, of env] assms(3) have
    s: "bs = take (nat n) fl" "pool_rep p' (drop (nat n) fl)" "same_config p' p"
      "\<forall>c. payload (blk p' c) = payload (if c \<in> set bs then allocated (enable_caching p) (blk p c) else blk p c)"
    by auto
  have fl: "distinct fl" "set fl \<subseteq> usable p" "\<And>b. b \<in> set fl \<Longrightarrow> ref_cnt (blk p b) = 0"
    using assms(1) pool_state_fl_usable[of p fl "[]"] by (auto simp: pool_rep_def pool_state_def queue_rep_def)
  show len: "int (length bs) = n" using s(1) le assms(2) by simp
  then have [simp]: "nat n = length bs" by simp
  have d: "distinct bs" "set bs \<subseteq> set fl" using fl(1) set_take_subset[of "nat n" fl] unfolding s(1) by auto
  then show "set bs \<subseteq> usable p" "\<And>b. b \<in> set bs \<Longrightarrow> ref_cnt (blk p b) = 0" using fl by auto
  then show "proper_blocks p bs" using d by (auto simp: proper_blocks_def count_list_distinct)
  show "pool_rep p' (drop (length bs) fl)" "same_config p' p" using s(2,3) by simp_all
  show "ref_cnt (blk p' b) = ref_cnt (blk p b) + int (count_list bs b)" for b
    using payload_fields(2)[OF s(4)[rule_format, of b]] d fl(3)[of b]
    by (auto simp: count_list_distinct allocated_def split: if_splits)
qed

lemma new_exists:
  assumes "pool_rep p fl" and "0 \<le> n" and "n \<le> int (length fl)"
  shows "\<exists>bs p'. get_new_blocks env n p = Inr (bs, p')"
  using get_new_blocks_state[OF assms, of env] by blast

lemma touch_counts:
  assumes "pool_rep p fl" and "set bs \<subseteq> insert (Blk 0) (usable p)"
  shows "\<exists>p'. touch bs p = Inr p' \<and> pool_rep p' (filter (\<lambda>b. b \<notin> set bs) fl) \<and> same_config p' p \<and>
     (\<forall>b. ref_cnt (blk p' b) = ref_cnt (blk p b) + int (count_list bs b)) \<and>
     (\<forall>b. block_hash (blk p' b) = block_hash (blk p b))"
proof -
  from touch_state[OF assms(1), of bs] assms(2) obtain p' where
    p': "touch bs p = Inr p'" "pool_rep p' (filter (\<lambda>b. b \<notin> set bs) fl)" "same_config p' p"
      "\<forall>c. payload (blk p' c) = payload ((blk p c)\<lparr>ref_cnt := ref_cnt (blk p c) + int (count_list bs c)\<rparr>)"
    by auto
  with payload_fields[OF p'(4)[rule_format]] show ?thesis by fastforce
qed

subsection \<open>Every operation is balanced\<close>

lemma base_free_balanced:
  assumes pool: "pool_rep p fl" and own: "owner_ok m p"
  shows "\<exists>m' p'. base_free rid m p = Inr (m', p') \<and> balanced m p m' p' \<and> m' = forget_request rid m"
proof -
  have mok: "manager_ok m p" using own by (simp add: owner_ok_def)
  have c: "count_list (rev (blocks_of m rid)) b = count_list (blocks_of m rid) b" for b by simp
  have "proper_blocks p (rev (blocks_of m rid))"
    using manager_ok_blocks[OF mok, of rid] by (simp add: proper_blocks_def)
  from free_counts[OF pool this, of False] owner_count[OF own] obtain p' fl' where
    p': "free_blocks (rev (blocks_of m rid)) False p = Inr p'" "pool_rep p' fl'" "same_config p' p"
      "\<forall>b. ref_cnt (blk p' b) = ref_cnt (blk p b) - int (count_list (blocks_of m rid) b)"
    unfolding c by metis
  then have "balanced m p (forget_request rid m) p'" by (intro balanced_forgetI[OF p'(2,3) mok]) simp
  with p'(1) show ?thesis by (simp add: base_free_def)
qed

text \<open>Two releases in a row, as the managers with skipped blocks do.\<close>

lemma free_two:
  assumes pool: "pool_rep p fl" and pr: "proper_blocks p (c @ u)"
    and cnt: "\<And>b. b \<in> usable p \<Longrightarrow> int (count_list (c @ u) b) \<le> ref_cnt (blk p b)"
  shows "\<exists>p' fl'. bindE (free_blocks c False p) (free_blocks u True) = Inr p' \<and> pool_rep p' fl' \<and>
     same_config p' p \<and> length fl \<le> length fl' \<and>
     (\<forall>b. ref_cnt (blk p' b) = ref_cnt (blk p b) - int (count_list (c @ u) b)) \<and>
     (\<forall>b. block_hash (blk p' b) = block_hash (blk p b))"
proof -
  have c: "proper_blocks p c" and u: "proper_blocks p u"
    using pr by (fastforce simp: proper_blocks_def)+
  have "int (count_list c b) \<le> ref_cnt (blk p b)" if "b \<in> usable p" for b
    using cnt[OF that] by simp
  from free_counts[OF pool c this, of False] obtain p1 fl1 where
    p1: "free_blocks c False p = Inr p1" "pool_rep p1 fl1" "same_config p1 p" "length fl \<le> length fl1"
      "\<forall>b. ref_cnt (blk p1 b) = ref_cnt (blk p b) - int (count_list c b)"
      "\<forall>b. block_hash (blk p1 b) = block_hash (blk p b)" by blast
  have u1: "proper_blocks p1 u" using u p1(3) by (simp add: proper_same)
  have "int (count_list u b) \<le> ref_cnt (blk p1 b)" if "b \<in> usable p1" for b
    using cnt[of b] that p1(3,5) by simp
  from free_counts[OF p1(2) u1 this, of True] obtain p2 fl2 where
    p2: "free_blocks u True p1 = Inr p2" "pool_rep p2 fl2" "same_config p2 p1" "length fl1 \<le> length fl2"
      "\<forall>b. ref_cnt (blk p2 b) = ref_cnt (blk p1 b) - int (count_list u b)"
      "\<forall>b. block_hash (blk p2 b) = block_hash (blk p1 b)" by blast
  have "bindE (free_blocks c False p) (free_blocks u True) = Inr p2" using p1(1) p2(1) by simp
  moreover have "same_config p2 p" using same_config_trans[OF p2(3) p1(3)] .
  moreover have "ref_cnt (blk p2 b) = ref_cnt (blk p b) - int (count_list (c @ u) b)" for b
    using p1(5) p2(5) by simp
  ultimately show ?thesis using p2(2,4,6) p1(4,6) by (intro exI[of _ p2] exI[of _ fl2]) auto
qed

lemma count_list_filter: "count_list (filter P xs) b = (if P b then count_list xs b else 0)"
  by (induction xs) auto

lemma swa_free_balanced:
  assumes pool: "pool_rep p fl" and own: "owner_ok m p"
  shows "\<exists>m' p'. swa_free rid m p = Inr (m', p') \<and> balanced m p m' p' \<and> m' = forget_request rid m"
proof -
  have mok: "manager_ok m p" using own by (simp add: owner_ok_def)
  let ?c = "filter (is_cached p) (rev (blocks_of m rid))"
  let ?u = "filter (\<lambda>b. \<not> is_cached p b) (rev (blocks_of m rid))"
  have cnt: "count_list (?c @ ?u) b = count_list (blocks_of m rid) b" for b by (simp add: count_list_filter)
  have "proper_blocks p (?c @ ?u)"
    using manager_ok_blocks[OF mok, of rid] unfolding proper_blocks_def cnt by auto
  from free_two[OF pool this] owner_count[OF own] obtain p' fl' where
    p': "bindE (free_blocks ?c False p) (free_blocks ?u True) = Inr p'" "pool_rep p' fl'" "same_config p' p"
      "\<forall>b. ref_cnt (blk p' b) = ref_cnt (blk p b) - int (count_list (blocks_of m rid) b)"
    unfolding cnt by metis
  show ?thesis
  proof (cases "blocks_of m rid = []")
    case True
    have "balanced m p (forget_request rid m) p" by (intro balanced_forgetI[OF pool _ mok]) (simp_all add: True)
    with True show ?thesis by (simp add: swa_free_def)
  next
    case False
    have "balanced m p (forget_request rid m) p'" using p'(4) by (intro balanced_forgetI[OF p'(2,3) mok]) simp
    with False p'(1) show ?thesis by (simp add: swa_free_def)
  qed
qed

lemma balanced_fields:
  assumes "balanced (m\<lparr>allocated_block_reqs := a, last_state_block_idx := d\<rparr>) p m' p'"
  shows "balanced m p m' p'"
proof -
  have "held (m\<lparr>allocated_block_reqs := a, last_state_block_idx := d\<rparr>) = held m" by (rule held_cong) simp
  with assms show ?thesis by (simp add: balanced_def)
qed

lemma free_request_balanced:
  assumes pool: "pool_rep p fl" and own: "owner_ok m p"
  shows "\<exists>m' p'. free_request rid m p = Inr (m', p') \<and> balanced m p m' p' \<and>
     blocks_of m' rid = [] \<and> (\<forall>r. r \<noteq> rid \<longrightarrow> blocks_of m' r = blocks_of m r)"
proof -
  let ?m = "m\<lparr>allocated_block_reqs := removeAll rid (allocated_block_reqs m),
              last_state_block_idx := dict_del rid (last_state_block_idx m)\<rparr>"
  have "owner_ok ?m p"
    using own manager_ok_cong[of ?m m p] held_cong[of ?m m] by (simp add: owner_ok_def)
  from base_free_balanced[OF pool this, of rid] obtain m1 p1 where
    a: "base_free rid ?m p = Inr (m1, p1)" "balanced ?m p m1 p1" "m1 = forget_request rid ?m" by blast
  have "blocks_of ?m r = blocks_of m r" for r by (simp add: blocks_of_def)
  then have blocks: "blocks_of m1 rid = []" "\<forall>r. r \<noteq> rid \<longrightarrow> blocks_of m1 r = blocks_of m r"
    unfolding a(3) by simp_all
  show ?thesis
  proof (cases "m_class m = SlidingWindowManager")
    case True
    then show ?thesis using swa_free_balanced[OF pool own, of rid] by (auto simp: free_request_def)
  next
    case False
    show ?thesis
    proof (cases "m_class m = MambaManager \<and> spec_mamba_cache_mode (m_spec m) = ''align''")
      case True
      then have "free_request rid m p = Inr (m1, p1)" using a(1) by (simp add: free_request_def)
      with balanced_fields[OF a(2)] blocks show ?thesis by blast
    next
      case f: False
      then have "free_request rid m p = base_free rid m p" using False by (auto simp: free_request_def)
      with base_free_balanced[OF pool own, of rid] show ?thesis by auto
    qed
  qed
qed

subsection \<open>Skipped blocks\<close>

lemma skip_loop_law:
  assumes "skip_loop p n blocks = (c, u, blocks')" and "n \<le> length blocks"
  shows "length blocks' = length blocks" and "set (c @ u) \<subseteq> set blocks" and "set blocks' \<subseteq> insert (null_block p) (set blocks)"
    and "null_block p \<notin> set (c @ u)"
    and "\<And>b. b \<noteq> null_block p \<Longrightarrow> count_list (c @ u) b + count_list blocks' b = count_list blocks b"
    and "\<forall>b \<in> set c. is_cached p b" and "\<forall>b \<in> set u. \<not> is_cached p b" and "drop n blocks' = drop n blocks"
proof -
  have "length blocks' = length blocks \<and> set (c @ u) \<subseteq> set blocks \<and> set blocks' \<subseteq> insert (null_block p) (set blocks) \<and>
      null_block p \<notin> set (c @ u) \<and>
      (\<forall>b. b \<noteq> null_block p \<longrightarrow> count_list (c @ u) b + count_list blocks' b = count_list blocks b) \<and>
      (\<forall>b \<in> set c. is_cached p b) \<and> (\<forall>b \<in> set u. \<not> is_cached p b) \<and> drop n blocks' = drop n blocks"
    using assms
  proof (induction n arbitrary: blocks c u blocks')
    case (Suc i)
    let ?b = "blocks ! i" and ?bl = "blocks[i := null_block p]"
    show ?case
    proof (cases "?b = null_block p")
      case False
      obtain c1 u1 where l: "skip_loop p i ?bl = (c1, u1, blocks')"
        using Suc.prems(1) False by (auto simp: Let_def split: prod.splits if_splits)
      have cu: "(c, u) = (if is_cached p ?b then (?b # c1, u1) else (c1, ?b # u1))"
        using Suc.prems(1) False l by (auto simp: Let_def split: if_splits)
      have i: "i < length blocks" using Suc.prems(2) by simp
      from Suc.IH[OF l] i have IH: "length blocks' = length blocks" "set (c1 @ u1) \<subseteq> set ?bl"
        "set blocks' \<subseteq> insert (null_block p) (set ?bl)" "null_block p \<notin> set (c1 @ u1)"
        "\<forall>b. b \<noteq> null_block p \<longrightarrow> count_list (c1 @ u1) b + count_list blocks' b = count_list ?bl b"
        "\<forall>b \<in> set c1. is_cached p b" "\<forall>b \<in> set u1. \<not> is_cached p b" "drop i blocks' = drop i ?bl" by simp_all
      have sub: "set ?bl \<subseteq> insert (null_block p) (set blocks)" by (rule set_update_subset_insert)
      have bl: "blocks = take i blocks @ ?b # drop (Suc i) blocks" "?bl = take i blocks @ null_block p # drop (Suc i) blocks"
        using i by (simp_all add: id_take_nth_drop upd_conv_take_nth_drop)
      have "count_list blocks b = count_list ?bl b + (if b = ?b then 1 else 0)" if "b \<noteq> null_block p" for b
        by (subst bl(1), subst bl(2)) (use that in auto)
      moreover have "drop (Suc i) blocks' = drop (Suc i) blocks"
        using arg_cong[OF IH(8), of "drop 1"] by simp
      moreover have "?b \<in> set blocks" using i by simp
      ultimately show ?thesis using IH(1-7) cu sub False by (auto split: if_splits)
    qed (use Suc.prems in auto)
  qed auto
  then show "length blocks' = length blocks" "set (c @ u) \<subseteq> set blocks" "set blocks' \<subseteq> insert (null_block p) (set blocks)"
    "null_block p \<notin> set (c @ u)"
    "\<And>b. b \<noteq> null_block p \<Longrightarrow> count_list (c @ u) b + count_list blocks' b = count_list blocks b"
    "\<forall>b \<in> set c. is_cached p b" "\<forall>b \<in> set u. \<not> is_cached p b" "drop n blocks' = drop n blocks"
    by blast+
qed

definition static_ok :: "type_manager \<Rightarrow> bool" where
  "static_ok m \<longleftrightarrow> 0 < m_block_size m \<and>
     (m_class m = SlidingWindowManager \<longrightarrow> (\<exists>w \<ge> 1. spec_sliding_window (m_spec m) = Some w)) \<and>
     (m_class m = ChunkedLocalAttentionManager \<longrightarrow> (\<exists>c > 0. spec_attention_chunk_size (m_spec m) = Some c)) \<and>
     (m_class m = MambaManager \<longrightarrow> isinstance_spec (m_spec m) MambaSpec \<and> 0 \<le> spec_num_speculative_blocks (m_spec m))"

lemma skipped_le:
  assumes "static_ok m" and "0 \<le> t"
  shows "\<exists>k. get_num_skipped_tokens (m_class m) (m_spec m) t = Inr k \<and> k \<le> t \<and> -1 \<le> k"
proof (cases "m_class m")
  case ChunkedLocalAttentionManager
  with assms obtain c where c: "spec_attention_chunk_size (m_spec m) = Some c" "0 < c" by (auto simp: static_ok_def)
  have "t div c * c \<le> t" "0 \<le> t div c * c"
    using c(2) assms(2) by (simp_all add: mult_le_iff_le_div pos_imp_zdiv_nonneg_iff)
  with c ChunkedLocalAttentionManager show ?thesis
    by (auto simp: an_int_def chunked_get_num_skipped_tokens_def)
next
  case SlidingWindowManager
  with assms show ?thesis by (auto simp: static_ok_def an_int_def swa_get_num_skipped_tokens_def)
qed (use assms in \<open>auto simp: mamba_get_num_skipped_tokens_def\<close>)

lemma base_remove_skipped_balanced:
  assumes pool: "pool_rep p fl" and own: "owner_ok m p" and st: "static_ok m" and t: "0 \<le> t"
  shows "\<exists>m' p' fl'. base_remove_skipped_blocks rid t m p = Inr (m', p') \<and> balanced m p m' p' \<and>
     pool_rep p' fl' \<and> length fl \<le> length fl' \<and> (\<exists>bs. length bs = length (blocks_of m rid) \<and>
       (m' = m \<or> m' = store_blocks rid bs m)) \<and> (\<forall>b. block_hash (blk p' b) = block_hash (blk p b))"
proof -
  have mok: "manager_ok m p" and nn: "null_block p = Blk 0"
    using own pool_null[OF pool] by (auto simp: owner_ok_def)
  obtain k where k: "get_num_skipped_tokens (m_class m) (m_spec m) t = Inr k" using skipped_le[OF st t] by blast
  show ?thesis
  proof (cases "k \<le> 0")
    case True
    have "balanced m p m p" using pool mok by (auto simp: balanced_def)
    with True k pool show ?thesis by (auto simp: base_remove_skipped_blocks_def)
  next
    case False
    let ?bl = "blocks_of m rid" and ?bs = "m_block_size m"
    let ?n = "nat (min (k div ?bs) (int (length ?bl)))"
    have bs: "?bs \<noteq> 0" using st by (simp add: static_ok_def)
    obtain c u bl where l: "skip_loop p ?n ?bl = (c, u, bl)" by (metis prod_cases3)
    note law = skip_loop_law[OF l, unfolded nn]
    have le: "?n \<le> length ?bl" by linarith
    have z: "count_list (c @ u) (Blk 0) = 0" using law(4)[OF le] by (simp add: count_list_0_iff)
    have cnt: "count_list (c @ u) b \<le> count_list ?bl b" for b
      using law(5)[OF le, of b] z by (cases "b = Blk 0") auto
    have pr: "proper_blocks p ?bl" by (rule manager_ok_blocks[OF mok])
    have "proper_blocks p (c @ u)"
      using pr law(2)[OF le] cnt unfolding proper_blocks_def by (meson order_trans)
    moreover have "int (count_list (c @ u) b) \<le> ref_cnt (blk p b)" if "b \<in> usable p" for b
      using owner_count[OF own that, of rid] cnt[of b] by linarith
    ultimately obtain p' fl' where
      p': "bindE (free_blocks c False p) (free_blocks u True) = Inr p'" "pool_rep p' fl'" "same_config p' p"
        "length fl \<le> length fl'" "\<forall>b. ref_cnt (blk p' b) = ref_cnt (blk p b) - int (count_list (c @ u) b)"
        "\<forall>b. block_hash (blk p' b) = block_hash (blk p b)"
      using free_two[OF pool, of c u] by blast
    have eq: "base_remove_skipped_blocks rid t m p = Inr (store_blocks rid bl m, p')"
    proof -
      from p'(1) obtain p1 where "free_blocks c False p = Inr p1" "free_blocks u True p1 = Inr p'"
        by (auto simp: bindE_Inr_iff)
      then show ?thesis using False k bs l by (simp add: base_remove_skipped_blocks_def Let_def)
    qed
    have "proper_blocks p bl"
      using pr law(3)[OF le] law(5)[OF le] unfolding proper_blocks_def by (auto simp: subset_iff) (metis le_add2 order_trans)
    moreover have "ref_cnt (blk p' b) + int (count_list ?bl b) = ref_cnt (blk p b) + int (count_list bl b)"
      if "b \<in> usable p" for b
      using law(5)[OF le, of b] usable_not_null[OF that] p'(5) by (auto simp flip: of_nat_add)
    ultimately have "balanced m p (store_blocks rid bl m) p'"
      by (intro balanced_store_plainI[OF p'(2,3) mok])
    with eq p' law(1)[OF le] show ?thesis by blast
  qed
qed

lemma balanced_owner: "balanced m p m' p' \<Longrightarrow> owner_ok m p \<Longrightarrow> owner_ok m' p'"
  by (fastforce simp: balanced_def owner_ok_def)

lemma balanced_trans:
  assumes a: "balanced m p m1 p1" and b: "balanced m1 p1 m2 p2"
  shows "balanced m p m2 p2"
proof -
  have "same_config p2 p" using a b same_config_trans by (auto simp: balanced_def)
  moreover have "ref_cnt (blk p2 c) + int (held m c) = ref_cnt (blk p c) + int (held m2 c)" if "c \<in> usable p" for c
  proof -
    from a that have "ref_cnt (blk p1 c) + int (held m c) = ref_cnt (blk p c) + int (held m1 c)" "c \<in> usable p1"
      by (auto simp: balanced_def)
    moreover from this(2) b have "ref_cnt (blk p2 c) + int (held m1 c) = ref_cnt (blk p1 c) + int (held m2 c)"
      by (auto simp: balanced_def)
    ultimately show ?thesis by linarith
  qed
  ultimately show ?thesis using a b by (simp add: balanced_def)
qed

lemma count_list_update:
  assumes "j < length xs"
  shows "count_list (xs[j := z]) b + (if xs ! j = b then 1 else 0) = count_list xs b + (if z = b then 1 else 0)"
  using assms
proof (induction xs arbitrary: j)
  case (Cons x xs)
  show ?case
  proof (cases j)
    case (Suc k)
    with Cons.prems have "count_list (xs[k := z]) b + (if xs ! k = b then 1 else 0) =
        count_list xs b + (if z = b then 1 else 0)" by (intro Cons.IH) simp
    with Suc show ?thesis by (cases "z = b"; cases "xs ! k = b"; cases "x = b") simp_all
  qed simp
qed simp

lemma py_index_norm:
  assumes "py_index xs i = Inr b" and "j = (if i < 0 then int (length xs) + i else i)"
  shows "nat j < length xs" and "xs ! nat j = b"
  using assms by (auto simp: py_index_def Let_def split: if_splits)

lemma drop_one_balanced:
  assumes pool: "pool_rep p fl" and own: "owner_ok m p" and j: "j < length (blocks_of m rid)"
    and b: "blocks_of m rid ! j = b" "b \<noteq> Blk 0"
    and f: "free_blocks [b] False p = Inr p'"
  shows "balanced m p (store_blocks rid ((blocks_of m rid)[j := Blk 0]) m) p'"
proof -
  let ?bl = "blocks_of m rid"
  have mok: "manager_ok m p" using own by (simp add: owner_ok_def)
  have pr: "proper_blocks p ?bl" by (rule manager_ok_blocks[OF mok])
  have in_bl: "b \<in> set ?bl" using j b by auto
  then have bu: "b \<in> usable p" using pr b by (auto simp: proper_blocks_def)
  have one: "proper_blocks p [b]" using bu by (auto simp: proper_blocks_def)
  have "int (count_list [b] c) \<le> ref_cnt (blk p c)" if "c \<in> usable p" for c
  proof (cases "c = b")
    case True
    have "0 < count_list ?bl b" using in_bl count_list_0_iff[of ?bl b] by blast
    with owner_count[OF own that, of rid] True show ?thesis by simp
  next
    case False
    have "int (count_list ?bl c) \<le> ref_cnt (blk p c)" by (rule owner_count[OF own that])
    with False show ?thesis by simp
  qed
  from free_counts[OF pool one this, of False] f obtain fl' where
    p': "pool_rep p' fl'" "same_config p' p" "\<forall>c. ref_cnt (blk p' c) = ref_cnt (blk p c) - int (count_list [b] c)"
    by auto
  note up = count_list_update[OF j, of "Blk 0"]
  have "proper_blocks p (?bl[j := Blk 0])"
    unfolding proper_blocks_def
  proof (intro conjI allI impI)
    show "set (?bl[j := Blk 0]) \<subseteq> insert (Blk 0) (usable p)"
      using pr set_update_subset_insert[of ?bl j "Blk 0"] by (auto simp: proper_blocks_def)
    fix c assume c: "c \<noteq> Blk 0"
    then have "count_list ?bl c \<le> 1" using pr by (simp add: proper_blocks_def)
    then show "count_list (?bl[j := Blk 0]) c \<le> 1" using up[of c] c by (auto split: if_splits)
  qed
  moreover have "ref_cnt (blk p' c) + int (count_list ?bl c) = ref_cnt (blk p c) + int (count_list (?bl[j := Blk 0]) c)"
    if "c \<in> usable p" for c
    using up[of c] p'(3) b usable_not_null[OF that] by (auto split: if_splits)
  ultimately show ?thesis by (intro balanced_store_plainI[OF p'(1,2) mok])
qed

lemma store_same_balanced:
  assumes "pool_rep p fl" and "manager_ok m p"
  shows "balanced m p (store_blocks rid (blocks_of m rid) m) p"
  by (rule balanced_store_plainI[OF assms(1) same_config_refl assms(2) manager_ok_blocks[OF assms(2)]]) simp

lemma remove_skipped_balanced:
  assumes pool: "pool_rep p fl" and own: "owner_ok m p" and st: "static_ok m" and t: "0 \<le> t"
    and op: "remove_skipped_blocks rid t m p = Inr (m', p')"
  shows "balanced m p m' p'"
proof (cases "m_class m = MambaManager")
  case False
  with op base_remove_skipped_balanced[OF pool own st t, of rid] show ?thesis
    by (auto simp: remove_skipped_blocks_def)
next
  case True
  let ?t = "max 0 (t - spec_num_speculative_blocks (m_spec m))"
  obtain m1 p1 where b1: "base_remove_skipped_blocks rid ?t m p = Inr (m1, p1)" "balanced m p m1 p1"
    using base_remove_skipped_balanced[OF pool own st, of ?t rid] by auto
  have own1: "owner_ok m1 p1" using balanced_owner[OF b1(2) own] .
  obtain fl1 where pool1: "pool_rep p1 fl1" using b1(2) by (auto simp: balanced_def)
  have mok1: "manager_ok m1 p1" using own1 by (simp add: owner_ok_def)
  have refl1: "balanced m1 p1 m1 p1" using pool1 mok1 by (auto simp: balanced_def)
  note s1 = store_same_balanced[OF pool1 mok1, of rid]
  have "m' = m1 \<and> p' = p1 \<or> m' = store_blocks rid (blocks_of m1 rid) m1 \<and> p' = p1 \<or>
      (\<exists>idx b. py_index (blocks_of m1 rid) idx = Inr b \<and> b \<noteq> null_block p1 \<and> free_blocks [b] False p1 = Inr p' \<and>
         m' = store_blocks rid ((blocks_of m1 rid)[nat (if idx < 0 then int (length (blocks_of m1 rid)) + idx else idx) := null_block p']) m1)"
    using op True b1(1)
    by (auto simp: remove_skipped_blocks_def mamba_remove_skipped_blocks_def Let_def bindE_Inr_iff
        split: if_splits option.splits)
  then consider "m' = m1 \<and> p' = p1" | "m' = store_blocks rid (blocks_of m1 rid) m1 \<and> p' = p1"
    | idx b where "py_index (blocks_of m1 rid) idx = Inr b" "b \<noteq> null_block p1" "free_blocks [b] False p1 = Inr p'"
       "m' = store_blocks rid ((blocks_of m1 rid)[nat (if idx < 0 then int (length (blocks_of m1 rid)) + idx else idx) := null_block p']) m1"
    by blast
  then have "balanced m1 p1 m' p'"
  proof cases
    case 3
    note ix = py_index_norm[OF 3(1) refl]
    have n1: "null_block p1 = Blk 0" by (rule pool_null[OF pool1])
    have "balanced m1 p1 (store_blocks rid ((blocks_of m1 rid)[nat (if idx < 0 then int (length (blocks_of m1 rid)) + idx else idx) := Blk 0]) m1) p'"
      by (rule drop_one_balanced[OF pool1 own1 ix]) (use 3 n1 in auto)
    moreover from this have "null_block p' = Blk 0" by (auto simp: balanced_def dest: pool_null)
    ultimately show ?thesis using 3(4) by simp
  qed (use refl1 s1 in auto)
  with b1(2) show ?thesis by (rule balanced_trans)
qed

subsection \<open>Allocation\<close>

lemma balanced_reqI:
  assumes "pool_rep p' fl" and "same_config p' p" and "manager_ok m p" and "proper_blocks p bs"
    and "req_to_blocks m' = dict_set rid bs (req_to_blocks m)"
    and "m_class m' = m_class m \<and> m_spec m' = m_spec m \<and> m_block_size m' = m_block_size m \<and>
      m_enable_caching m' = m_enable_caching m \<and> m_group_id m' = m_group_id m"
    and "\<And>b. b \<in> usable p \<Longrightarrow> ref_cnt (blk p' b) + int (count_list (blocks_of m rid) b) =
           ref_cnt (blk p b) + int (count_list bs b)"
  shows "balanced m p m' p'"
proof -
  have "balanced m p (store_blocks rid bs m) p'" by (rule balanced_store_plainI[OF assms(1-4,7)])
  moreover have "req_to_blocks m' = req_to_blocks (store_blocks rid bs m)" by (simp add: assms(5) store_blocks_def)
  then have "manager_ok m' p' = manager_ok (store_blocks rid bs m) p'" "held m' = held (store_blocks rid bs m)"
    by (rule manager_ok_cong, rule held_cong)
  ultimately show ?thesis using assms(6) by (simp add: balanced_def)
qed

lemma dict_set_set [simp]: "dict_set k v (dict_set k w d) = dict_set k v d"
  by (induction d) auto

lemma note_new_blocks_fields [simp]:
  "req_to_blocks (note_new_blocks p bs m) = req_to_blocks m" "m_class (note_new_blocks p bs m) = m_class m"
  "m_spec (note_new_blocks p bs m) = m_spec m" "m_block_size (note_new_blocks p bs m) = m_block_size m"
  "m_enable_caching (note_new_blocks p bs m) = m_enable_caching m" "m_group_id (note_new_blocks p bs m) = m_group_id m"
  "num_cached_block (note_new_blocks p bs m) = num_cached_block m"
  "m_use_eagle (note_new_blocks p bs m) = m_use_eagle m"
  "m_scheduler_block_size (note_new_blocks p bs m) = m_scheduler_block_size m"
  "allocated_block_reqs (note_new_blocks p bs m) = allocated_block_reqs m"
  "m_max_admission_blocks (note_new_blocks p bs m) = m_max_admission_blocks m"
  by (simp_all add: note_new_blocks_def)

lemma store_blocks_fields [simp]:
  "req_to_blocks (store_blocks rid bs m) = dict_set rid bs (req_to_blocks m)"
  "m_class (store_blocks rid bs m) = m_class m" "m_spec (store_blocks rid bs m) = m_spec m"
  "m_block_size (store_blocks rid bs m) = m_block_size m"
  "m_enable_caching (store_blocks rid bs m) = m_enable_caching m"
  "m_group_id (store_blocks rid bs m) = m_group_id m"
  "num_cached_block (store_blocks rid bs m) = num_cached_block m"
  "m_use_eagle (store_blocks rid bs m) = m_use_eagle m"
  "m_scheduler_block_size (store_blocks rid bs m) = m_scheduler_block_size m"
  "allocated_block_reqs (store_blocks rid bs m) = allocated_block_reqs m"
  "m_max_admission_blocks (store_blocks rid bs m) = m_max_admission_blocks m"
  by (simp_all add: store_blocks_def)

text \<open>Fresh blocks are held by nobody, so they can be added to any list.\<close>

lemma proper_append_new:
  assumes "proper_blocks p bs" and "set new \<subseteq> usable p" and "proper_blocks p new"
    and "\<And>b. b \<in> set new \<Longrightarrow> count_list bs b = 0"
  shows "proper_blocks p (bs @ new)"
  unfolding proper_blocks_def
proof (intro conjI allI impI)
  show "set (bs @ new) \<subseteq> insert (Blk 0) (usable p)" using assms(1,2) by (auto simp: proper_blocks_def)
  fix b assume b: "b \<noteq> Blk 0"
  show "count_list (bs @ new) b \<le> 1"
  proof (cases "b \<in> set new")
    case True
    with assms(4) b assms(3) show ?thesis by (simp add: proper_blocks_def)
  next
    case False
    then have "count_list new b = 0" by (simp add: count_list_0_iff)
    with assms(1) b show ?thesis by (simp add: proper_blocks_def)
  qed
qed

lemma append_new_balanced:
  assumes pool: "pool_rep p fl" and own: "owner_ok m p" and n: "0 \<le> n"
    and new: "get_new_blocks env n p = Inr (new, p')"
    and bs: "proper_blocks p bs" "\<And>b. b \<in> usable p \<Longrightarrow> count_list bs b = count_list (blocks_of m rid) b"
    and m': "req_to_blocks m' = dict_set rid (bs @ new) (req_to_blocks m)"
      "m_class m' = m_class m \<and> m_spec m' = m_spec m \<and> m_block_size m' = m_block_size m \<and>
       m_enable_caching m' = m_enable_caching m \<and> m_group_id m' = m_group_id m"
  shows "balanced m p m' p'"
proof -
  note c = new_counts[OF pool n new]
  have mok: "manager_ok m p" using own by (simp add: owner_ok_def)
  have "count_list bs b = 0" if "b \<in> set new" for b
    using owner_count[OF own, of b rid] c(5,6) bs(2)[of b] that by fastforce
  then have pr: "proper_blocks p (bs @ new)" using bs(1) c(2,5) by (intro proper_append_new)
  show ?thesis
    by (rule balanced_reqI[OF c(3,4) mok pr m']) (use c(7) bs(2) in simp)
qed

lemma base_allocate_balanced:
  assumes pool: "pool_rep p fl" and own: "owner_ok m p"
    and op: "base_allocate_new_blocks env rid t m p = Inr (new, m', p')"
  shows "balanced m p m' p'"
proof -
  have mok: "manager_ok m p" using own by (simp add: owner_ok_def)
  let ?n = "cdiv t (m_block_size m) - int (length (blocks_of m rid))"
  note op' = op[unfolded base_allocate_new_blocks_def Let_def]
  show ?thesis
  proof (cases "?n \<le> 0")
    case True
    with op' have "m' = store_blocks rid (blocks_of m rid) m" "p' = p"
      by (auto simp: bindE_Inr_iff)
    with store_same_balanced[OF pool mok] show ?thesis by simp
  next
    case False
    with op' have new: "get_new_blocks env ?n p = Inr (new, p')"
      and m': "m' = note_new_blocks p' new (store_blocks rid (blocks_of m rid @ new) m)"
      by (auto simp: bindE_Inr_iff split: prod.splits)
    from False have n: "0 \<le> ?n" by simp
    show ?thesis
      by (rule append_new_balanced[OF pool own n new manager_ok_blocks[OF mok]])
        (simp_all add: m')
  qed
qed

text \<open>Moving the speculative blocks keeps every block, except for placeholders.\<close>

lemma reuse_loop_law:
  assumes "reuse_loop null n is bs = Inr bs'" and "\<forall>i \<in> set is. 0 \<le> i"
  shows "\<And>b. b \<noteq> null \<Longrightarrow> count_list bs' b = count_list bs b" and "set bs' \<subseteq> insert null (set bs)"
    and "length bs \<le> length bs'"
proof -
  have "(\<forall>b. b \<noteq> null \<longrightarrow> count_list bs' b = count_list bs b) \<and> set bs' \<subseteq> insert null (set bs) \<and>
      length bs \<le> length bs'"
    using assms
  proof (induction "is" arbitrary: bs)
    case (Cons i "is")
    show ?case
    proof (cases "i < n")
      case True
      with Cons.prems obtain b where b: "py_index bs i = Inr b" by (auto simp: bindE_Inr_iff)
      let ?bs = "(bs @ [b])[nat i := null]"
      have i: "nat i < length bs" "bs ! nat i = b" "0 \<le> i"
        using py_index_norm[OF b refl] Cons.prems(2) by auto
      have step: "reuse_loop null n is ?bs = Inr bs'" using Cons.prems(1) True b i(3) by (simp add: Let_def)
      have "count_list ?bs c = count_list bs c" if "c \<noteq> null" for c
        using count_list_update[of "nat i" "bs @ [b]" null c] i that by (auto simp: nth_append split: if_splits)
      moreover have "set ?bs \<subseteq> insert null (set bs)"
        using set_update_subset_insert[of "bs @ [b]" "nat i" null] nth_mem[OF i(1)] i(2) by auto
      moreover have "length bs \<le> length ?bs" by simp
      ultimately show ?thesis using Cons.IH[OF step] Cons.prems(2) by (auto simp del: length_list_update)
    qed (use Cons.prems in auto)
  qed auto
  then show "\<And>b. b \<noteq> null \<Longrightarrow> count_list bs' b = count_list bs b" "set bs' \<subseteq> insert null (set bs)"
    "length bs \<le> length bs'" by blast+
qed

lemma reuse_loop_length:
  "reuse_loop null n is bs = Inr bs' \<Longrightarrow> length bs' \<le> length bs + length (filter (\<lambda>i. i < n) is)"
proof (induction "is" arbitrary: bs)
  case (Cons i "is")
  show ?case
  proof (cases "i < n")
    case True
    with Cons.prems obtain b j where "reuse_loop null n is ((bs @ [b])[j := null]) = Inr bs'"
      by (auto simp: bindE_Inr_iff Let_def)
    from Cons.IH[OF this] True show ?thesis by simp
  qed (use Cons.prems in auto)
qed simp

lemma filter_upto_length:
  "int (length (filter (\<lambda>i. i < n) [a..b])) \<le> min (max 0 (b - a + 1)) (max 0 (n - a))"
proof -
  have "length (filter (\<lambda>i. i < n) [a..b]) = card (set (filter (\<lambda>i. i < n) [a..b]))"
    by (rule distinct_card[symmetric]) simp
  also have "\<dots> \<le> card {a..min b (n - 1)}" by (rule card_mono) auto
  finally show ?thesis by auto
qed

text \<open>In \<open>align\<close> mode a request that has been given blocks holds all its speculative blocks.\<close>

definition align_ok :: "type_manager \<Rightarrow> bool" where
  "align_ok m \<longleftrightarrow> (\<forall>rid \<in> set (allocated_block_reqs m).
     m_class m = MambaManager \<and> spec_mamba_cache_mode (m_spec m) = ''align'' \<and>
     spec_num_speculative_blocks (m_spec m) \<le> int (length (blocks_of m rid)))"

lemma align_allocate_balanced:
  assumes pool: "pool_rep p fl" and own: "owner_ok m p" and al: "align_ok m"
    and spec: "0 \<le> spec_num_speculative_blocks (m_spec m)"
    and op: "align_allocate_new_blocks env rid t m p = Inr (new, m', p')"
  shows "balanced m p m' p'"
proof -
  have mok: "manager_ok m p" and nn: "null_block p = Blk 0"
    using own pool_null[OF pool] by (auto simp: owner_ok_def)
  let ?bl = "blocks_of m rid" and ?sp = "spec_num_speculative_blocks (m_spec m)"
  let ?r = "cdiv t (m_block_size m) + ?sp"
  note pr = manager_ok_blocks[OF mok, of rid]
  note op' = op[unfolded align_allocate_new_blocks_def Let_def]
  show ?thesis
  proof (cases "?r \<le> int (length ?bl)")
    case True
    with op' have "m' = store_blocks rid ?bl m" "p' = p" by (auto simp: bindE_Inr_iff)
    with store_same_balanced[OF pool mok] show ?thesis by simp
  next
    case False
    let ?al = "rid \<in> set (allocated_block_reqs m)" and ?sk = "?r - ?sp - 1" and ?len = "int (length ?bl)"
    let ?ext = "if ?len < ?sk then ?bl @ replicate (nat (?sk - ?len)) (null_block p) else ?bl"
    from op' False obtain bs where
      bs: "(if ?al then reuse_loop (null_block p) ?sk [?len - ?sp..?len - 1] ?ext else Inr ?ext) = Inr bs"
      and new: "\<exists>nw. get_new_blocks env (?r - int (length bs)) p = Inr (nw, p') \<and>
         req_to_blocks m' = dict_set rid (bs @ nw) (req_to_blocks m)"
      and st: "m_class m' = m_class m \<and> m_spec m' = m_spec m \<and> m_block_size m' = m_block_size m \<and>
         m_enable_caching m' = m_enable_caching m \<and> m_group_id m' = m_group_id m"
      by (auto simp: bindE_Inr_iff simp del: upto.simps split: prod.splits if_splits)
    have ext: "length ?ext = nat (max ?len ?sk)" by auto
    have ext_c: "count_list ?ext b = count_list ?bl b" if "b \<noteq> Blk 0" for b using that nn by (auto simp: count_list_0_iff)
    have ext_s: "set ?ext \<subseteq> insert (Blk 0) (set ?bl)" using nn by (auto simp: set_replicate_conv_if)
    have law: "(\<forall>b. b \<noteq> Blk 0 \<longrightarrow> count_list bs b = count_list ?bl b) \<and> set bs \<subseteq> insert (Blk 0) (set ?bl) \<and> int (length bs) \<le> ?r - 1"
    proof (cases ?al)
      case True
      then have "?sp \<le> ?len" using al by (simp add: align_ok_def)
      then have nonneg: "\<forall>i \<in> set [?len - ?sp..?len - 1]. 0 \<le> i" by simp
      from bs True have loop: "reuse_loop (Blk 0) ?sk [?len - ?sp..?len - 1] ?ext = Inr bs" using nn by simp
      define k where "k = length (filter (\<lambda>i. i < ?sk) [?len - ?sp..?len - 1])"
      have "length bs \<le> length ?ext + k" unfolding k_def by (rule reuse_loop_length[OF loop])
      moreover have "int k \<le> min (max 0 ?sp) (max 0 (?sk - (?len - ?sp)))"
        unfolding k_def using filter_upto_length[of ?sk "?len - ?sp" "?len - 1"] by simp
      ultimately have "int (length bs) \<le> ?r - 1" using ext False spec by linarith
      with reuse_loop_law[OF loop nonneg] ext_c ext_s show ?thesis by auto
    next
      case f: False
      with bs have "bs = ?ext" by simp
      with ext_c ext_s ext False spec show ?thesis by auto
    qed
    from new obtain nw where nw: "get_new_blocks env (?r - int (length bs)) p = Inr (nw, p')"
      "req_to_blocks m' = dict_set rid (bs @ nw) (req_to_blocks m)" by blast
    have "proper_blocks p bs" using law pr unfolding proper_blocks_def by (metis insert_absorb2 insert_mono order_trans)
    moreover have "count_list bs b = count_list ?bl b" if "b \<in> usable p" for b
      using law usable_not_null[OF that] by simp
    ultimately show ?thesis using law by (intro append_new_balanced[OF pool own _ nw(1) _ _ nw(2) st]) auto
  qed
qed

definition computed_ok :: "addr list \<Rightarrow> int \<Rightarrow> int \<Rightarrow> type_manager \<Rightarrow> block_pool \<Rightarrow> bool" where
  "computed_ok new local_tokens external_tokens m p \<longleftrightarrow> proper_blocks p new \<and> 0 \<le> local_tokens \<and>
     0 \<le> external_tokens \<and> int (length new) * m_block_size m \<le> local_tokens + external_tokens"

lemma proper_drop: "proper_blocks p bs \<Longrightarrow> proper_blocks p (drop n bs)"
proof -
  assume a: "proper_blocks p bs"
  have "count_list (drop n bs) b \<le> count_list bs b" for b
    by (metis append_take_drop_id count_list_append le_add2)
  with a show ?thesis unfolding proper_blocks_def by (meson order_trans set_drop_subset)
qed

lemma proper_pad: "proper_blocks p bs \<Longrightarrow> proper_blocks p (replicate n (Blk 0) @ bs)"
  by (auto simp: proper_blocks_def)

lemma pad_count: "b \<noteq> Blk 0 \<Longrightarrow> count_list (replicate n (Blk 0) @ bs) b = count_list bs b"
  by (simp add: count_list_0_iff)

text \<open>The list of a new request after its cached prefix has been added.\<close>

definition hit_prefix :: "int \<Rightarrow> addr list \<Rightarrow> addr list" where
  "hit_prefix num_skipped_blocks new = replicate (nat num_skipped_blocks) (Blk 0) @
     (if num_skipped_blocks > 0 then py_slice_from new num_skipped_blocks else new)"

lemma length_hit_prefix: "int (length (hit_prefix k new)) = max k (int (length new))"
  by (auto simp: hit_prefix_def py_slice_from_nonneg)

lemma hit_prefix_proper: "proper_blocks p new \<Longrightarrow> proper_blocks p (hit_prefix k new)"
  unfolding hit_prefix_def by (intro proper_pad) (auto simp: py_slice_from_nonneg proper_drop)

lemma hit_prefix_length_le:
  assumes "0 < bs" and "int (length new) * bs \<le> t" and "k \<le> t" and "0 \<le> t"
  shows "int (length (hit_prefix (k div bs) new)) \<le> cdiv t bs"
proof -
  have "t div bs \<le> cdiv t bs" using assms(1) by (rule div_le_cdiv)
  moreover have "int (length new) \<le> t div bs" using assms(1,2) by (simp add: mult_le_iff_le_div)
  moreover have "k div bs \<le> t div bs" using assms(1,3) by (simp add: zdiv_mono1)
  ultimately show ?thesis by (simp add: length_hit_prefix)
qed

lemma touch_stage:
  assumes pool: "pool_rep p fl" and mok: "manager_ok m p" and emp: "blocks_of m rid = []"
    and pr: "proper_blocks p new"
    and t: "(if caching then touch new' p else bindE (assertE (new' = [])) (\<lambda>_. Inr p)) = Inr p'"
    and new': "new' = (if k > 0 then py_slice_from new k else new)"
    and m': "req_to_blocks m' = dict_set rid (hit_prefix k new) (req_to_blocks m)"
      "m_class m' = m_class m \<and> m_spec m' = m_spec m \<and> m_block_size m' = m_block_size m \<and>
       m_enable_caching m' = m_enable_caching m \<and> m_group_id m' = m_group_id m"
  shows "balanced m p m' p'" and "null_block p' = Blk 0"
proof -
  have pr': "proper_blocks p new'" using pr new' by (auto simp: py_slice_from_nonneg proper_drop)
  have cnt: "count_list (hit_prefix k new) b = count_list new' b" if "b \<noteq> Blk 0" for b
    using that by (simp add: hit_prefix_def new' count_list_0_iff)
  obtain fl' where p': "pool_rep p' fl'" "same_config p' p"
    "\<forall>b. ref_cnt (blk p' b) = ref_cnt (blk p b) + int (count_list new' b)"
  proof (cases caching)
    case True
    with t touch_counts[OF pool, of new'] pr' that show ?thesis by (auto simp: proper_blocks_def)
  next
    case False
    with t pool that[of fl] show ?thesis by (auto simp: bindE_Inr_iff)
  qed
  show "balanced m p m' p'"
    by (rule balanced_reqI[OF p'(1,2) mok hit_prefix_proper[OF pr] m'])
      (use p'(3) emp cnt usable_not_null in auto)
  show "null_block p' = Blk 0" by (rule pool_null[OF p'(1)])
qed

lemma attach_balanced:
  assumes pool: "pool_rep p fl" and own: "owner_ok m p" and emp: "blocks_of m rid = []"
    and pr: "proper_blocks p new" and pos: "0 < m_block_size m"
    and len: "int (length (hit_prefix k new)) \<le> cdiv t (m_block_size m)"
    and new': "new' = (if k > 0 then py_slice_from new k else new)"
    and op: "attach_computed_blocks env rid new' k et t m p = Inr (m', p')"
  shows "balanced m p m' p'"
proof -
  have mok: "manager_ok m p" using own by (simp add: owner_ok_def)
  let ?rb = "hit_prefix k new" and ?bs = "m_block_size m"
  let ?m1 = "(store_blocks rid ?rb m)\<lparr>num_cached_block := dict_set rid (int (length ?rb)) (num_cached_block m)\<rparr>"
  from op obtain p1 where
    p1: "(if m_enable_caching m then touch new' p else bindE (assertE (new' = [])) (\<lambda>_. Inr p)) = Inr p1"
    unfolding attach_computed_blocks_def bindE_Inr_iff by blast
  have b1: "balanced m p ?m1 p1" and nn: "null_block p1 = Blk 0"
    using touch_stage[OF pool mok emp pr p1 new', of ?m1] by simp_all
  have rb: "replicate (nat k) (null_block p1) @ new' = ?rb" by (simp add: nn new' hit_prefix_def)
  note op' = op[unfolded attach_computed_blocks_def p1 bindE_simps Let_def rb]
  show ?thesis
  proof (cases "et > 0")
    case False
    with op' have "m' = ?m1" "p' = p1" by simp_all
    with b1 show ?thesis by simp
  next
    case True
    with op' pos obtain al where al: "get_new_blocks env (cdiv t ?bs - int (length ?rb)) p1 = Inr (al, p')"
      and m': "m' = note_new_blocks p' al (store_blocks rid (?rb @ al) ?m1)"
      by (auto simp: bindE_Inr_iff)
    obtain fl1 where pool1: "pool_rep p1 fl1" using b1 by (auto simp: balanced_def)
    have own1: "owner_ok ?m1 p1" by (rule balanced_owner[OF b1 own])
    have same1: "same_config p1 p" using b1 by (simp add: balanced_def)
    have bl: "blocks_of ?m1 rid = ?rb" by (simp add: blocks_of_def dict_get_default_def)
    have pr1: "proper_blocks p1 ?rb" using hit_prefix_proper[OF pr] proper_same[OF same1] by simp
    have "balanced ?m1 p1 m' p'"
      by (rule append_new_balanced[where rid = rid, OF pool1 own1 _ al pr1]) (use len in \<open>simp_all add: bl m'\<close>)
    with b1 show ?thesis by (rule balanced_trans)
  qed
qed

lemma allocate_computed_balanced:
  assumes pool: "pool_rep p fl" and own: "owner_ok m p" and st: "static_ok m"
    and ok: "computed_ok new lt et m p"
    and op: "allocate_new_computed_blocks env rid new lt et m p = Inr (m', p')"
  shows "balanced m p m' p'"
proof -
  have mok: "manager_ok m p" using own by (simp add: owner_ok_def)
  have same: "balanced m p m p" using pool mok by (auto simp: balanced_def)
  let ?t = "lt + et" and ?bs = "m_block_size m"
  have pos: "0 < ?bs" and t0: "0 \<le> ?t" and pr: "proper_blocks p new" and len: "int (length new) * ?bs \<le> ?t"
    using st ok by (auto simp: static_ok_def computed_ok_def)
  obtain k where k: "get_num_skipped_tokens (m_class m) (m_spec m) ?t = Inr k" "k \<le> ?t"
    using skipped_le[OF st t0] by blast
  show ?thesis
  proof (cases "m_class m = CrossAttentionManager \<or> rid \<in> set (dict_keys (num_cached_block m))")
    case True
    with op have "m' = m \<and> p' = p"
      by (auto simp: allocate_new_computed_blocks_def base_allocate_new_computed_blocks_def bindE_Inr_iff split: if_splits)
    with same show ?thesis by simp
  next
    case False
    with op k(1) pos obtain et' where emp: "blocks_of m rid = []" and
      op': "attach_computed_blocks env rid (if k div ?bs > 0 then py_slice_from new (k div ?bs) else new)
        (k div ?bs) et' ?t m p = Inr (m', p')"
      by (auto simp: allocate_new_computed_blocks_def base_allocate_new_computed_blocks_def bindE_Inr_iff Let_def
          split: if_splits)
    show ?thesis
      by (rule attach_balanced[OF pool own emp pr pos hit_prefix_length_le[OF pos len k(2) t0] refl op'])
  qed
qed

subsection \<open>Caching changes no reference\<close>

definition refs_kept :: "block_pool \<Rightarrow> block_pool \<Rightarrow> bool" where
  "refs_kept p' p \<longleftrightarrow> same_config p' p \<and> (\<forall>b. ref_cnt (blk p' b) = ref_cnt (blk p b))"

lemma cache_loop_refs:
  assumes "pool_state p fl []" and "set bs \<subseteq> insert (Blk 0) (usable p)"
    and "cache_blocks_loop env bmask hs g i bs p = Inr (ext, p')"
  shows "pool_state p' fl [] \<and> refs_kept p' p"
  using assms
proof (induction bs arbitrary: i p ext)
  case Nil
  then show ?case by (auto simp: refs_kept_def)
next
  case (Cons b bs)
  show ?case
  proof (cases "is_null (blk p b) \<or> masked_out bmask i")
    case True
    with Cons show ?thesis by auto
  next
    case False
    note op = Cons.prems(3)[unfolded cache_blocks_loop.simps Let_def]
    have "b \<noteq> Blk 0"
      using False ids_ok_null[OF pool_stateD(7)[OF Cons.prems(1)] pool_stateD(1)[OF Cons.prems(1)]] by auto
    then have b: "b \<in> usable p" using Cons.prems(2) by auto
    from op False obtain k b' ext' where none: "block_hash (blk p b) = None"
      and b': "b' = (blk p b)\<lparr>block_hash := Some k\<rparr>"
      and rest: "cache_blocks_loop env bmask hs g (Suc i) bs
        ((modify_block b (\<lambda>_. b') p)\<lparr>cached_block_hash_to_block :=
           map_insert (\<lambda>c. block_id (blk (modify_block b (\<lambda>_. b') p) c)) k b
             (cached_block_hash_to_block (modify_block b (\<lambda>_. b') p))\<rparr>) = Inr (ext', p')"
      by (auto simp: bindE_Inr_iff set_block_hash_def simp del: modify_block_simps split: if_splits)
    let ?p1 = "modify_block b (\<lambda>_. (blk p b)\<lparr>block_hash := Some k\<rparr>) p"
    let ?p2 = "?p1\<lparr>cached_block_hash_to_block :=
        map_insert (\<lambda>c. block_id (blk ?p1 c)) k b (cached_block_hash_to_block ?p1)\<rparr>"
    note ins = insert_hash_state[OF Cons.prems(1) b none refl refl, of k]
    have "set bs \<subseteq> insert (Blk 0) (usable ?p2)" using Cons.prems(2) usable_same[OF ins(2)] by simp
    from Cons.IH[OF ins(1) this rest[unfolded b']] have
      r: "pool_state p' fl []" "refs_kept p' ?p2" by auto
    have "ref_cnt (blk ?p2 c) = ref_cnt (blk p c)" for c unfolding ins(3) by simp
    with r same_config_trans[OF _ ins(2)] show ?thesis unfolding refs_kept_def by metis
  qed
qed

lemma cache_full_refs:
  assumes rep: "pool_rep p fl" and sub: "set blocks \<subseteq> insert (Blk 0) (usable p)"
    and op: "cache_full_blocks env blocks nc nf bs g bmask r p = Inr (r', p')"
  shows "pool_rep p' fl \<and> refs_kept p' p"
proof (cases "nc \<ge> nf")
  case True
  with op rep show ?thesis by (simp add: cache_full_blocks_def refs_kept_def)
next
  case False
  note op' = op[unfolded cache_full_blocks_def Let_def]
  from False have nf: "(nc \<ge> nf) = False" by simp
  from op' obtain hl ext p1 where
    loop: "cache_blocks_loop env bmask (hash_list_from hl nc) g 0 (py_slice blocks nc nf) p = Inr (ext, p1)"
    and rest: "(if enable_kv_cache_events p1
          then emit_block_stored env blocks nc nf bs g bmask hl ext r p1 else Inr (r, p1)) = Inr (r', p')"
    unfolding nf if_False bindE_Inr_iff by (elim exE conjE) (simp split: prod.splits)
  have "set (py_slice blocks nc nf) \<subseteq> insert (Blk 0) (usable p)"
    by (rule order_trans[OF set_py_slice_subset sub])
  from cache_loop_refs[OF rep[unfolded pool_rep_def] this loop] have p1: "pool_rep p1 fl" "refs_kept p1 p"
    by (auto simp: pool_rep_def)
  from rest have "p' = p1 \<or> (\<exists>e. p' = push_event e p1)"
    by (auto simp: emit_block_stored_def bindE_Inr_iff split: if_splits)
  with p1 show ?thesis
    by (auto simp: pool_rep_def refs_kept_def same_config_def)
qed

lemma refs_kept_balanced:
  assumes "pool_rep p' fl" and "refs_kept p' p" and "manager_ok m p"
    and "req_to_blocks m' = dict_set rid (blocks_of m rid) (req_to_blocks m) \<or> req_to_blocks m' = req_to_blocks m"
    and "m_class m' = m_class m \<and> m_spec m' = m_spec m \<and> m_block_size m' = m_block_size m \<and>
      m_enable_caching m' = m_enable_caching m \<and> m_group_id m' = m_group_id m"
  shows "balanced m p m' p'"
  using assms(4)
proof
  assume "req_to_blocks m' = dict_set rid (blocks_of m rid) (req_to_blocks m)"
  then show ?thesis
    using assms(2) by (intro balanced_reqI[OF assms(1) _ assms(3) manager_ok_blocks[OF assms(3)] _ assms(5)])
      (auto simp: refs_kept_def)
next
  assume r: "req_to_blocks m' = req_to_blocks m"
  have "manager_ok m' p'" using manager_ok_cong[OF r, of p'] manager_ok_same[of p' p m] assms(2,3) by (simp add: refs_kept_def)
  with held_cong[OF r] assms(1,2,5) show ?thesis by (auto simp: balanced_def refs_kept_def)
qed

lemma base_cache_balanced:
  assumes pool: "pool_rep p fl" and mok: "manager_ok m p"
    and op: "base_cache_blocks env r t ri m p = Inr (r', m', p')"
  shows "balanced m p m' p' \<and> (req_to_blocks m' = dict_set (request_id r) (blocks_of m (request_id r)) (req_to_blocks m)
      \<or> req_to_blocks m' = req_to_blocks m) \<and> allocated_block_reqs m' = allocated_block_reqs m"
proof -
  let ?rid = "request_id r"
  let ?nc = "dict_get_default (num_cached_block m) ?rid 0" and ?nf = "t div m_block_size m"
  note op' = op[unfolded base_cache_blocks_def Let_def]
  have z: "m_block_size m \<noteq> 0" using op' by (auto simp: py_div_def split: if_splits)
  show ?thesis
  proof (cases "?nc \<ge> ?nf")
    case True
    with op' z have "m' = m \<and> p' = p" by simp
    then show ?thesis using pool mok by (auto simp: balanced_def)
  next
    case False
    from op'[unfolded py_div_nonzero(1)[OF z] bindE_simps] False obtain bmask where
      c: "cache_full_blocks env (blocks_of m ?rid) ?nc ?nf (m_block_size m) (m_group_id m) bmask r p = Inr (r', p')"
      and m': "m' = (store_blocks ?rid (blocks_of m ?rid) m)\<lparr>num_cached_block := dict_set ?rid ?nf (num_cached_block m)\<rparr>"
      by (auto simp: bindE_Inr_iff split: if_splits)
    have "set (blocks_of m ?rid) \<subseteq> insert (Blk 0) (usable p)"
      using manager_ok_blocks[OF mok] by (simp add: proper_blocks_def)
    from cache_full_refs[OF pool this c] have p': "pool_rep p' fl" "refs_kept p' p" by auto
    have "balanced m p m' p'" by (rule refs_kept_balanced[where rid = ?rid, OF p' mok]) (simp_all add: m')
    then show ?thesis using m' by simp
  qed
qed

lemma cache_blocks_balanced:
  assumes pool: "pool_rep p fl" and mok: "manager_ok m p"
    and op: "cache_blocks env r t ri m p = Inr (r', m', p')"
  shows "balanced m p m' p'"
proof (cases "m_class m = MambaManager")
  case False
  with op have "base_cache_blocks env r t ri m p = Inr (r', m', p')"
    by (auto simp: cache_blocks_def split: manager_class.splits)
  from base_cache_balanced[OF pool mok this] show ?thesis by blast
next
  case True
  let ?rid = "request_id r"
  note op' = op[unfolded cache_blocks_def True manager_class.case mamba_cache_blocks_def Let_def]
  from op' obtain m1 p1 where b: "base_cache_blocks env r t ri m p = Inr (r', m1, p1)"
    and rest: "m' = m1 \<and> p' = p1 \<or> (\<exists>xs. foldE (\<lambda>block m.
                 if is_null (blk p1 block) then Inr m
                 else (case block_hash (blk p1 block) of
                      None \<Rightarrow> Inl AssertionError
                    | Some h \<Rightarrow> Inr (m\<lparr>cached_blocks_this_step := List.insert h (cached_blocks_this_step m)\<rparr>)))
               xs (store_blocks ?rid (blocks_of m1 ?rid) m1) = Inr m' \<and> p' = p1)"
    by (auto simp: bindE_Inr_iff split: if_splits)
  have b1: "balanced m p m1 p1" using base_cache_balanced[OF pool mok b] by blast
  then obtain fl1 where pool1: "pool_rep p1 fl1" and mok1: "manager_ok m1 p1" by (auto simp: balanced_def)
  let ?same = "\<lambda>m2. req_to_blocks m2 = dict_set ?rid (blocks_of m1 ?rid) (req_to_blocks m1) \<and> m_class m2 = m_class m1 \<and>
      m_spec m2 = m_spec m1 \<and> m_block_size m2 = m_block_size m1 \<and> m_enable_caching m2 = m_enable_caching m1 \<and>
      m_group_id m2 = m_group_id m1"
  from rest have "m' = m1 \<and> p' = p1 \<or> ?same m' \<and> p' = p1"
  proof (elim disjE exE conjE)
    fix xs assume p': "p' = p1" and f: "foldE (\<lambda>block m.
                 if is_null (blk p1 block) then Inr m
                 else (case block_hash (blk p1 block) of
                      None \<Rightarrow> Inl AssertionError
                    | Some h \<Rightarrow> Inr (m\<lparr>cached_blocks_this_step := List.insert h (cached_blocks_this_step m)\<rparr>)))
               xs (store_blocks ?rid (blocks_of m1 ?rid) m1) = Inr m'"
    have "?same m'" by (rule foldE_invariant[OF f]) (auto split: if_splits option.splits)
    with p' show ?thesis by blast
  qed simp
  then have "balanced m1 p1 m' p'"
    using pool1 mok1 by (intro refs_kept_balanced[where rid = ?rid, OF _ _ mok1]) (auto simp: refs_kept_def)
  with b1 show ?thesis by (rule balanced_trans)
qed

end
