(* ===== verification/KV_Coordinator.thy ===== *)
theory KV_Coordinator
  imports Block_Ownership
begin

section \<open>The coordinator of the KV-cache groups\<close>

text \<open>
  vllm/v1/core/kv\_cache\_coordinator.py. A coordinator owns the block pool and one manager per KV-cache
  group, and passes every operation on to the managers in order. Its three classes differ in the
  look-up of cached prefixes: none, one group, or several groups that have to agree on one length.
  The environment variable \<open>VLLM_PREFIX_CACHE_RETENTION_INTERVAL\<close> is an argument of the constructor.

  The second half shows that loops over the managers keep the reference counts equal to the holdings
  of all managers, and what the search for a common length returns.
\<close>

subsection \<open>State\<close>

record spec_group =
  sg_spec :: layer_spec
  sg_group_ids :: "int list"
  sg_manager_cls :: manager_class
  sg_use_eagle :: bool

datatype coordinator_class =
    NoPrefixCache
  | Unitary (unitary_spec: layer_spec) (unitary_block_size: int) (unitary_dcp: int) (unitary_pcp: int)
  | Hybrid (hybrid_hash_block_size: int) (attention_groups: "spec_group list")

record coordinator =
  c_class :: coordinator_class
  c_groups :: "kv_cache_group_spec list"
  c_max_model_len :: int
  c_enable_caching :: bool
  c_scheduler_block_size :: int
  c_pool :: block_pool
  eagle_group_ids :: "int list"
  managers :: "type_manager list"
  c_retention_interval :: "int option"

definition validate_prefix_cache_retention_interval ::
  "int option \<Rightarrow> int \<Rightarrow> kv_cache_group_spec list \<Rightarrow> unit result" where
  "validate_prefix_cache_retention_interval retention_interval scheduler_block_size groups =
     (case retention_interval of
        None \<Rightarrow> Inr ()
      | Some i \<Rightarrow>
          if \<not> (\<exists>g \<in> set groups. isinstance (group_spec g) SlidingWindowSpec) then Inl ValueError
          else if i < 0 then Inl ValueError
          else bindE (py_mod i scheduler_block_size) (\<lambda>r. if r \<noteq> 0 then Inl ValueError else Inr ()))"

record coordinator_args =
  ca_config :: kv_cache_config
  ca_max_model_len :: int
  ca_max_num_batched_tokens :: int
  ca_use_eagle :: bool
  ca_enable_kv_cache_events :: bool
  ca_dcp_world_size :: int
  ca_pcp_world_size :: int
  ca_scheduler_block_size :: int
  ca_hash_block_size :: int
  ca_metrics :: "metrics_collector option"
  ca_registry :: registry
  ca_retention_interval :: "int option"

definition coordinator_init :: "coordinator_args \<Rightarrow> bool \<Rightarrow> coordinator result" where
  "coordinator_init a caching =
     (let groups = kv_cache_groups (ca_config a) in
      bindE (py_mod (ca_scheduler_block_size a) (ca_hash_block_size a)) (\<lambda>r.
      bindE (if r = 0
             then allE (\<lambda>g. bindE (py_mod (ca_scheduler_block_size a) (block_size_of (group_spec g)))
                              (\<lambda>r. Inr (r = 0))) groups
             else Inr False) (\<lambda>aligned.
      bindE (assertE aligned) (\<lambda>_.
      bindE (block_pool_init (num_blocks (ca_config a)) caching (ca_hash_block_size a)
               (ca_enable_kv_cache_events a) (ca_metrics a)) (\<lambda>p.
      let ids = map (\<lambda>(i, g). int i) (filter (\<lambda>(i, g). is_eagle_group g) (enumerate 0 groups));
          ids = (if ca_use_eagle a \<and> ids = [] then map int [0..<length groups] else ids)
      in
      bindE (mapE (\<lambda>(i, g). get_manager_for_kv_cache_spec (ca_registry a) (group_spec g)
                    (ca_max_num_batched_tokens a) (ca_max_model_len a) caching (int i)
                    (ca_dcp_world_size a) (ca_pcp_world_size a) (ca_scheduler_block_size a))
               (enumerate 0 groups)) (\<lambda>ms.
      bindE (validate_prefix_cache_retention_interval (ca_retention_interval a)
               (ca_scheduler_block_size a) groups) (\<lambda>_.
        Inr \<lparr>c_class = NoPrefixCache, c_groups = groups, c_max_model_len = ca_max_model_len a,
             c_enable_caching = caching, c_scheduler_block_size = ca_scheduler_block_size a,
             c_pool = p, eagle_group_ids = ids, managers = ms,
             c_retention_interval = ca_retention_interval a\<rparr>)))))))"

definition unitary_init :: "coordinator_args \<Rightarrow> bool \<Rightarrow> coordinator result" where
  "unitary_init a caching =
     bindE (coordinator_init a caching) (\<lambda>c.
     bindE (py_index (managers c) 0) (\<lambda>m.
     let spec = m_spec m;
         block_size = spec_block_size spec;
         block_size = (if ca_dcp_world_size a > 1 then block_size * ca_dcp_world_size a else block_size);
         block_size = (if ca_pcp_world_size a > 1 then block_size * ca_pcp_world_size a else block_size)
     in
     bindE (assertE (\<not> caching \<or> ca_hash_block_size a = block_size)) (\<lambda>_.
     bindE (assertE (length (c_groups c) = 1)) (\<lambda>_.
       Inr (c\<lparr>c_class := Unitary spec block_size (ca_dcp_world_size a) (ca_pcp_world_size a),
              managers := (managers c)[0 := m\<lparr>m_use_eagle := (0 \<in> set (eagle_group_ids c))\<rparr>]\<rparr>)))))"

text \<open>One turn of the loop that batches the groups with equal specifications.\<close>

fun join_group :: "int \<Rightarrow> layer_spec \<Rightarrow> manager_class \<Rightarrow> bool \<Rightarrow> spec_group list \<Rightarrow> spec_group list result" where
  "join_group i spec manager_cls use_eagle [] =
     Inr [\<lparr>sg_spec = spec, sg_group_ids = [i], sg_manager_cls = manager_cls, sg_use_eagle = use_eagle\<rparr>]"
| "join_group i spec manager_cls use_eagle (g # gs) =
     (if sg_spec g = spec
      then bindE (assertE (manager_cls = sg_manager_cls g)) (\<lambda>_.
             Inr (g\<lparr>sg_group_ids := sg_group_ids g @ [i], sg_use_eagle := (sg_use_eagle g \<or> use_eagle)\<rparr> # gs))
      else bindE (join_group i spec manager_cls use_eagle gs) (\<lambda>gs. Inr (g # gs)))"

definition is_full :: "spec_group \<Rightarrow> bool" where
  "is_full g = isinstance_spec (sg_spec g) FullAttentionSpec"

definition verify_and_split_kv_cache_groups :: "int list \<Rightarrow> type_manager list \<Rightarrow> spec_group list result" where
  "verify_and_split_kv_cache_groups eagle_ids ms =
     bindE (foldE (\<lambda>(i, m). join_group (int i) (m_spec m) (m_class m) (int i \<in> set eagle_ids)) (enumerate 0 ms) [])
       (\<lambda>groups.
     bindE (assertE (length groups > 1)) (\<lambda>_.
       Inr (filter is_full groups @ filter (\<lambda>g. \<not> is_full g) groups)))"

definition eagle_groups :: "spec_group list \<Rightarrow> int list" where
  "eagle_groups groups = concat (map sg_group_ids (filter sg_use_eagle groups))"

definition hybrid_init :: "coordinator_args \<Rightarrow> bool \<Rightarrow> coordinator result" where
  "hybrid_init a caching =
     bindE (coordinator_init a caching) (\<lambda>c.
     bindE (allE (\<lambda>g. bindE (py_mod (block_size_of (group_spec g)) (ca_hash_block_size a))
                        (\<lambda>r. Inr (r = 0))) (c_groups c)) (\<lambda>divisible.
     bindE (assertE divisible) (\<lambda>_.
     bindE (assertE (ca_dcp_world_size a = 1)) (\<lambda>_.
     bindE (assertE (ca_pcp_world_size a = 1)) (\<lambda>_.
     bindE (verify_and_split_kv_cache_groups (eagle_group_ids c) (managers c)) (\<lambda>groups.
       Inr (c\<lparr>c_class := Hybrid (ca_hash_block_size a) groups,
              managers := map (\<lambda>(i, m). if int i \<in> set (eagle_groups groups) then m\<lparr>m_use_eagle := True\<rparr> else m)
                              (enumerate 0 (managers c))\<rparr>)))))))"

definition get_kv_cache_coordinator :: "coordinator_args \<Rightarrow> bool \<Rightarrow> coordinator result" where
  "get_kv_cache_coordinator a caching =
     (if \<not> caching then coordinator_init a False
      else if length (kv_cache_groups (ca_config a)) = 1 then unitary_init a caching
      else hybrid_init a caching)"

subsection \<open>Operations on all managers\<close>

text \<open>A loop over the managers that threads a state, with one argument per manager.\<close>

fun each_manager ::
  "('a \<Rightarrow> type_manager \<Rightarrow> 's \<Rightarrow> ('b \<times> type_manager \<times> 's) result) \<Rightarrow> ('a \<times> type_manager) list \<Rightarrow> 's \<Rightarrow>
     ('b list \<times> type_manager list \<times> 's) result" where
  "each_manager f [] s = Inr ([], [], s)"
| "each_manager f ((a, m) # ms) s =
     bindE (f a m s) (\<lambda>(x, m, s).
     bindE (each_manager f ms s) (\<lambda>(xs, ms, s). Inr (x # xs, m # ms, s)))"

definition coord_get_num_blocks_to_allocate ::
  "string \<Rightarrow> int \<Rightarrow> addr list list \<Rightarrow> int \<Rightarrow> int \<Rightarrow> int \<Rightarrow> bool \<Rightarrow> coordinator \<Rightarrow> (int \<times> coordinator) result" where
  "coord_get_num_blocks_to_allocate rid num_toks new_computed_blocks num_encoder_tokens
     total_computed_tokens num_tokens_main_model apply_admission_cap c =
     bindE (each_manager (\<lambda>i m p.
              bindE (if m_class m = CrossAttentionManager
                     then get_num_blocks_to_allocate rid num_encoder_tokens [] 0 num_encoder_tokens
                            apply_admission_cap m p
                     else bindE (py_index new_computed_blocks (int i)) (\<lambda>blocks.
                            get_num_blocks_to_allocate rid num_toks blocks total_computed_tokens
                              num_tokens_main_model apply_admission_cap m p)) (\<lambda>(n, m).
                Inr (n, m, p)))
              (enumerate 0 (managers c)) (c_pool c)) (\<lambda>(ns, ms, p).
       Inr (sum_list ns, c\<lparr>managers := ms\<rparr>))"

definition coord_allocate_new_computed_blocks ::
  "hash_env \<Rightarrow> string \<Rightarrow> addr list list \<Rightarrow> int \<Rightarrow> int \<Rightarrow> coordinator \<Rightarrow> coordinator result" where
  "coord_allocate_new_computed_blocks env rid new_computed_blocks num_local_computed_tokens
     num_external_computed_tokens c =
     bindE (each_manager (\<lambda>i m p.
              bindE (py_index new_computed_blocks (int i)) (\<lambda>blocks.
              bindE (allocate_new_computed_blocks env rid blocks num_local_computed_tokens
                       num_external_computed_tokens m p) (\<lambda>(m, p). Inr ((), m, p))))
              (enumerate 0 (managers c)) (c_pool c)) (\<lambda>(us, ms, p).
       Inr (c\<lparr>managers := ms, c_pool := p\<rparr>))"

definition coord_allocate_new_blocks ::
  "hash_env \<Rightarrow> string \<Rightarrow> int \<Rightarrow> int \<Rightarrow> int \<Rightarrow> coordinator \<Rightarrow> (addr list list \<times> coordinator) result" where
  "coord_allocate_new_blocks env rid num_toks num_tokens_main_model num_encoder_tokens c =
     bindE (each_manager (\<lambda>i m p.
              allocate_new_blocks env rid
                (if m_class m = CrossAttentionManager then num_encoder_tokens else num_toks)
                num_tokens_main_model m p)
              (enumerate 0 (managers c)) (c_pool c)) (\<lambda>(bs, ms, p).
       Inr (bs, c\<lparr>managers := ms, c_pool := p\<rparr>))"

text \<open>The hybrid coordinator caches up to an aligned length only; EAGLE groups may cache one block more.\<close>

definition tokens_to_cache :: "coordinator \<Rightarrow> int \<Rightarrow> type_manager \<Rightarrow> int result" where
  "tokens_to_cache c computed m =
     (case c_class c of
        Hybrid h groups \<Rightarrow>
          bindE (py_div computed (c_scheduler_block_size c)) (\<lambda>n.
          let aligned = n * c_scheduler_block_size c
          in Inr (if m_use_eagle m \<and> aligned > 0 then min computed (aligned + m_block_size m) else aligned))
      | _ \<Rightarrow> Inr computed)"

definition coord_cache_blocks :: "hash_env \<Rightarrow> request \<Rightarrow> int \<Rightarrow> coordinator \<Rightarrow> (request \<times> coordinator) result" where
  "coord_cache_blocks env r computed c =
     bindE (each_manager (\<lambda>i m (r, p).
              bindE (tokens_to_cache c computed m) (\<lambda>t.
              bindE (cache_blocks env r t (c_retention_interval c) m p) (\<lambda>(r, m, p). Inr ((), m, (r, p)))))
              (enumerate 0 (managers c)) (r, c_pool c)) (\<lambda>(us, ms, r, p).
       Inr (r, c\<lparr>managers := ms, c_pool := p\<rparr>))"

definition coord_free :: "string \<Rightarrow> coordinator \<Rightarrow> coordinator result" where
  "coord_free rid c =
     bindE (each_manager (\<lambda>i m p. bindE (free_request rid m p) (\<lambda>(m, p). Inr ((), m, p)))
              (enumerate 0 (managers c)) (c_pool c)) (\<lambda>(us, ms, p).
       Inr (c\<lparr>managers := ms, c_pool := p\<rparr>))"

definition coord_remove_skipped_blocks :: "string \<Rightarrow> int \<Rightarrow> coordinator \<Rightarrow> coordinator result" where
  "coord_remove_skipped_blocks rid total_computed_tokens c =
     bindE (each_manager (\<lambda>i m p. bindE (remove_skipped_blocks rid total_computed_tokens m p) (\<lambda>(m, p).
                Inr ((), m, p)))
              (enumerate 0 (managers c)) (c_pool c)) (\<lambda>(us, ms, p).
       Inr (c\<lparr>managers := ms, c_pool := p\<rparr>))"

definition coord_get_num_common_prefix_blocks :: "string \<Rightarrow> coordinator \<Rightarrow> int list \<times> coordinator" where
  "coord_get_num_common_prefix_blocks rid c =
     (case c_class c of
        NoPrefixCache \<Rightarrow> (replicate (length (managers c)) 0, c)
      | _ \<Rightarrow>
          let rs = map (\<lambda>m. get_num_common_prefix_blocks rid m (c_pool c)) (managers c)
          in (map fst rs, c\<lparr>managers := map snd rs\<rparr>))"

definition coord_get_blocks :: "string \<Rightarrow> coordinator \<Rightarrow> addr list list" where
  "coord_get_blocks rid c = map (\<lambda>m. blocks_of m rid) (managers c)"

definition coord_new_step_starts :: "coordinator \<Rightarrow> coordinator" where
  "coord_new_step_starts c = c\<lparr>managers := map new_step_starts (managers c)\<rparr>"

subsection \<open>Look-up\<close>

definition unitary_find_longest_cache_hit ::
  "bytes list \<Rightarrow> int \<Rightarrow> coordinator \<Rightarrow> (addr list list \<times> int) result" where
  "unitary_find_longest_cache_hit hashes max_cache_hit_length c =
     (case c_class c of
        Unitary spec block_size dcp_world_size pcp_world_size \<Rightarrow>
          bindE (py_index (managers c) 0) (\<lambda>m.
          bindE (find_longest_cache_hit (m_class m) (PlainHashes hashes) max_cache_hit_length [0] (c_pool c)
                   spec (0 \<in> set (eagle_group_ids c)) block_size dcp_world_size pcp_world_size) (\<lambda>hit_blocks.
          bindE (py_index hit_blocks 0) (\<lambda>blocks.
            Inr (hit_blocks, int (length blocks) * block_size))))
      | _ \<Rightarrow> Inl NotImplementedError)"

definition get_block_hashes :: "int \<Rightarrow> bytes list \<Rightarrow> layer_spec \<Rightarrow> block_hash_list result" where
  "get_block_hashes hash_bs hashes spec =
     (if spec_block_size spec = hash_bs then Inr (PlainHashes hashes)
      else bindE (bhl_init hashes hash_bs (spec_block_size spec)) (\<lambda>l. Inr (ScaledHashes l)))"

definition put_hits :: "int list \<Rightarrow> addr list list \<Rightarrow> addr list option list \<Rightarrow> addr list option list" where
  "put_hits group_ids hit_blocks hits =
     fold (\<lambda>(group_id, blocks) hits. hits[nat group_id := Some blocks]) (zip group_ids hit_blocks) hits"

text \<open>
  One turn of the inner loop: the current length, the blocks found so far per group, and the indices
  of the groups whose EAGLE block has been dropped at this length.
\<close>

definition hybrid_group ::
  "coordinator \<Rightarrow> int \<Rightarrow> bytes list \<Rightarrow> int \<Rightarrow> nat \<times> spec_group \<Rightarrow> int \<times> addr list option list \<times> nat list \<Rightarrow>
     (int \<times> addr list option list \<times> nat list) result" where
  "hybrid_group c hash_bs hashes max_cache_hit_length = (\<lambda>(idx, g) (curr_hit_length, hits, eagle_verified).
     bindE (py_index (sg_group_ids g) 0) (\<lambda>g0.
     bindE (py_index hits g0) (\<lambda>cached_blocks.
     let block_size = spec_block_size (sg_spec g) in
     if is_full g \<and> cached_blocks \<noteq> None
     then bindE (py_div curr_hit_length block_size) (\<lambda>n. Inr (n * block_size, hits, eagle_verified))
     else
       let drop_eagle_block = (sg_use_eagle g \<and> idx \<notin> set eagle_verified);
           max_length = (if drop_eagle_block then min (curr_hit_length + block_size) max_cache_hit_length
                         else curr_hit_length)
       in
       bindE (get_block_hashes hash_bs hashes (sg_spec g)) (\<lambda>hl.
       bindE (find_longest_cache_hit (sg_manager_cls g) hl max_length (sg_group_ids g) (c_pool c) (sg_spec g)
                drop_eagle_block (c_scheduler_block_size c) 1 1) (\<lambda>hit_blocks.
       bindE (py_index hit_blocks 0) (\<lambda>blocks.
       let new_hit_length = int (length blocks) * block_size;
           eagle_verified = (if drop_eagle_block then List.insert idx eagle_verified
                             else if new_hit_length < curr_hit_length then [] else eagle_verified)
       in Inr (new_hit_length, put_hits (sg_group_ids g) hit_blocks hits, eagle_verified)))))))"

text \<open>The outer loop; the fuel only serves to make the definition total.\<close>

fun hybrid_loop ::
  "nat \<Rightarrow> (int \<times> addr list option list \<times> nat list \<Rightarrow> (int \<times> addr list option list \<times> nat list) result) \<Rightarrow> bool \<Rightarrow>
     int \<Rightarrow> addr list option list \<Rightarrow> nat list \<Rightarrow> (int \<times> addr list option list) result" where
  "hybrid_loop 0 turn is_simple_hybrid hit_length hits eagle_verified = Inl NonTermination"
| "hybrid_loop (Suc fuel) turn is_simple_hybrid hit_length hits eagle_verified =
     bindE (turn (hit_length, hits, eagle_verified)) (\<lambda>(curr_hit_length, hits, eagle_verified).
       if curr_hit_length \<ge> hit_length then Inr (hit_length, hits)
       else if is_simple_hybrid then Inr (curr_hit_length, hits)
       else hybrid_loop fuel turn is_simple_hybrid curr_hit_length hits eagle_verified)"

definition cut_hits :: "int list \<Rightarrow> int \<Rightarrow> addr list option list \<Rightarrow> addr list option list" where
  "cut_hits group_ids n hits =
     fold (\<lambda>group_id hits. hits[nat group_id := map_option (\<lambda>blks. py_slice_to blks n) (hits ! nat group_id)])
       group_ids hits"

definition truncate_full :: "spec_group list \<Rightarrow> int \<Rightarrow> addr list option list \<Rightarrow> addr list option list result" where
  "truncate_full groups hit_length hits =
     bindE (py_index groups 0) (\<lambda>first_group.
       if is_full first_group
       then bindE (py_div hit_length (spec_block_size (sg_spec first_group))) (\<lambda>n.
              Inr (cut_hits (sg_group_ids first_group) n hits))
       else Inr hits)"

definition hybrid_find_longest_cache_hit ::
  "bytes list \<Rightarrow> int \<Rightarrow> coordinator \<Rightarrow> (addr list list \<times> int) result" where
  "hybrid_find_longest_cache_hit hashes max_cache_hit_length c =
     (case c_class c of
        Hybrid hash_bs groups \<Rightarrow>
          let is_simple_hybrid = (length groups = 2 \<and> is_full (groups ! 0));
              turn = foldE (hybrid_group c hash_bs hashes max_cache_hit_length) (enumerate 0 groups)
          in
          bindE (hybrid_loop (nat max_cache_hit_length + 2) turn is_simple_hybrid max_cache_hit_length
                   (replicate (length (c_groups c)) None) []) (\<lambda>(hit_length, hits).
          bindE (truncate_full groups hit_length hits) (\<lambda>hits.
            Inr (map (\<lambda>blocks. case blocks of None \<Rightarrow> [] | Some bs \<Rightarrow> bs) hits, hit_length)))
      | _ \<Rightarrow> Inl NotImplementedError)"

definition coord_find_longest_cache_hit ::
  "bytes list \<Rightarrow> int \<Rightarrow> coordinator \<Rightarrow> (addr list list \<times> int) result" where
  "coord_find_longest_cache_hit hashes max_cache_hit_length c =
     (case c_class c of
        NoPrefixCache \<Rightarrow> Inr (map (\<lambda>_. []) (managers c), 0)
      | Unitary _ _ _ _ \<Rightarrow> unitary_find_longest_cache_hit hashes max_cache_hit_length c
      | Hybrid _ _ \<Rightarrow> hybrid_find_longest_cache_hit hashes max_cache_hit_length c)"

subsection \<open>The common length\<close>

lemma length_put_hits [simp]: "length (put_hits gids bss hits) = length hits"
proof -
  have "length (fold (\<lambda>(g, b) hits. hits[nat g := Some b]) xs hits) = length hits" for xs :: "(int \<times> addr list) list" and hits
    by (induction xs arbitrary: hits) auto
  then show ?thesis by (simp add: put_hits_def)
qed

lemma put_hits_Cons: "put_hits (g # gids) (b # bss) hits = put_hits gids bss (hits[nat g := Some b])"
  by (simp add: put_hits_def)

lemma put_hits_other: "j \<notin> nat ` set gids \<Longrightarrow> put_hits gids bss hits ! j = hits ! j"
proof (induction gids arbitrary: bss hits)
  case (Cons g gids)
  then show ?case by (cases bss) (auto simp: put_hits_Cons, simp add: put_hits_def)
qed (simp add: put_hits_def)

lemma put_hits_nth:
  assumes "i < length gids" and "length bss = length gids" and "distinct gids"
    and "\<forall>g \<in> set gids. 0 \<le> g \<and> nat g < length hits"
  shows "put_hits gids bss hits ! nat (gids ! i) = Some (bss ! i)"
  using assms
proof (induction gids arbitrary: i bss hits)
  case (Cons g gids)
  then obtain b bss' where bss: "bss = b # bss'" by (cases bss) auto
  have "nat g \<notin> nat ` set gids" using Cons.prems(3,4) by (auto simp: eq_nat_nat_iff)
  then show ?case using Cons bss by (cases i) (auto simp: put_hits_Cons put_hits_other)
qed simp

definition group_query :: "coordinator \<Rightarrow> int \<Rightarrow> bytes list \<Rightarrow> spec_group \<Rightarrow> lookup_query" where
  "group_query c hash_bs hashes g =
     \<lparr>q_class = sg_manager_cls g, q_spec = sg_spec g, q_groups = sg_group_ids g,
      q_hashes = projr (get_block_hashes hash_bs hashes (sg_spec g)), q_align = c_scheduler_block_size c,
      q_pool = c_pool c, q_dcp = 1, q_pcp = 1\<rparr>"

text \<open>What the look-up needs of a group: it fits its manager, and it names groups of the configuration.\<close>

definition group_ready :: "coordinator \<Rightarrow> int \<Rightarrow> bytes list \<Rightarrow> int \<Rightarrow> spec_group \<Rightarrow> bool" where
  "group_ready c hash_bs hashes L g \<longleftrightarrow>
     (\<exists>hl. get_block_hashes hash_bs hashes (sg_spec g) = Inr hl) \<and>
     query_fits (group_query c hash_bs hashes g) L (sg_use_eagle g) \<and> distinct (sg_group_ids g) \<and>
     (\<forall>i \<in> set (sg_group_ids g). 0 \<le> i \<and> nat i < length (c_groups c)) \<and>
     spec_block_size (sg_spec g) dvd c_scheduler_block_size c"

lemma py_index_nth: "0 \<le> i \<Longrightarrow> nat i < length xs \<Longrightarrow> py_index xs i = Inr (xs ! nat i)"
  by (auto simp: py_index_def Let_def)

lemma py_index_hd: "xs \<noteq> [] \<Longrightarrow> py_index xs 0 = Inr (hd xs)"
  by (simp add: py_index_nth hd_conv_nth)

lemma manager_block_size_one [simp]: "manager_block_size spec 1 1 = spec_block_size spec"
  by (simp add: manager_block_size_def)

lemma group_query_simps [simp]:
  "q_class (group_query c hash_bs hashes g) = sg_manager_cls g" "q_spec (group_query c hash_bs hashes g) = sg_spec g"
  "q_groups (group_query c hash_bs hashes g) = sg_group_ids g" "q_pool (group_query c hash_bs hashes g) = c_pool c"
  "q_align (group_query c hash_bs hashes g) = c_scheduler_block_size c"
  "q_dcp (group_query c hash_bs hashes g) = 1" "q_pcp (group_query c hash_bs hashes g) = 1"
  by (simp_all add: group_query_def)

lemma query_fits_plain: "query_fits q L e \<Longrightarrow> query_fits q L False"
  by (auto simp: query_fits_def lookup_ok_def spec_fits_def split: manager_class.splits)

lemma query_fits_facts:
  assumes "query_fits q L e"
  shows "0 < q_block_size q" and "0 < q_align q" and "q_groups q \<noteq> []"
  using assms by (auto simp: query_fits_def lookup_ok_def groups_ok_def)

text \<open>The blocks stored for a group are a hit of \<open>t\<close> tokens.\<close>

definition stored :: "coordinator \<Rightarrow> int \<Rightarrow> bytes list \<Rightarrow> addr list option list \<Rightarrow> spec_group \<Rightarrow> int \<Rightarrow> bool" where
  "stored c hash_bs hashes hits g t \<longleftrightarrow>
     (\<exists>bss. query_valid (group_query c hash_bs hashes g) bss \<and> query_len (group_query c hash_bs hashes g) bss = t \<and>
        query_reach (group_query c hash_bs hashes g) t \<and> length bss = length (sg_group_ids g) \<and>
        (\<forall>i < length (sg_group_ids g). hits ! nat (sg_group_ids g ! i) = Some (bss ! i)))"

lemma stored_frame:
  assumes "stored c hb hs hits g t" and "\<And>i. i \<in> set (sg_group_ids g) \<Longrightarrow> hits' ! nat i = hits ! nat i"
  shows "stored c hb hs hits' g t"
  using assms unfolding stored_def by (metis nth_mem)

definition lookup_bound :: "spec_group \<Rightarrow> nat \<Rightarrow> nat list \<Rightarrow> int \<Rightarrow> int \<Rightarrow> int" where
  "lookup_bound g idx ev L cl =
     (if sg_use_eagle g \<and> idx \<notin> set ev then min (cl + spec_block_size (sg_spec g)) L else cl)"

lemma hybrid_group_lookup:
  assumes ready: "group_ready c hb hs L g" and cl: "0 \<le> cl" "cl \<le> L" and len: "length hits = length (c_groups c)"
    and new: "\<not> is_full g \<or> hits ! nat (hd (sg_group_ids g)) = None"
  shows "\<exists>t hits' ev'. hybrid_group c hb hs L (idx, g) (cl, hits, ev) = Inr (t, hits', ev') \<and>
     length hits' = length hits \<and> stored c hb hs hits' g t \<and>
     (\<forall>j. j \<notin> nat ` set (sg_group_ids g) \<longrightarrow> hits' ! j = hits ! j) \<and>
     0 \<le> t \<and> t \<le> lookup_bound g idx ev L cl \<and>
     (\<not> sg_use_eagle g \<longrightarrow> (\<forall>m. query_reach (group_query c hb hs g) m \<and> m \<le> cl \<longrightarrow> m \<le> t))"
proof -
  let ?q = "group_query c hb hs g" and ?e = "sg_use_eagle g \<and> idx \<notin> set ev" and ?b = "lookup_bound g idx ev L cl"
  from ready obtain hl where hl: "get_block_hashes hb hs (sg_spec g) = Inr hl" and f: "query_fits ?q L (sg_use_eagle g)"
    and ids: "distinct (sg_group_ids g)" "\<forall>i \<in> set (sg_group_ids g). 0 \<le> i \<and> nat i < length (c_groups c)"
    by (auto simp: group_ready_def)
  note pos = query_fits_facts[OF f]
  have b: "0 \<le> ?b" "?b \<le> L" using cl pos by (auto simp: lookup_bound_def)
  have "query_fits ?q L ?e" using f query_fits_plain by (cases ?e) auto
  then have fb: "query_fits ?q ?b ?e" using b by (rule pl.fits_mono)
  from query_find_law[OF this] obtain bss n where h: "query_find ?q ?b ?e = Inr bss" "length (hd bss) = n"
    and lh: "longest_hit (c_pool c) (q_hashes ?q) (sg_group_ids g) (sg_manager_cls g) (sg_spec g) (spec_block_size (sg_spec g))
       (c_scheduler_block_size c) ?b ?e bss n" by auto
  from pl.find_law[OF fb] h(1) have l: "query_valid ?q bss" "0 \<le> query_len ?q bss" "query_len ?q bss \<le> ?b" by auto
  have r: "query_reach ?q (query_len ?q bss)" using pl.valid_reach[OF fb h(1)] .
  from lh have lb: "length bss = length (sg_group_ids g)" by (auto simp: longest_hit_def prefix_hit_def list_all2_lengthD)
  from pos ids len have i0: "0 \<le> hd (sg_group_ids g)" "nat (hd (sg_group_ids g)) < length hits" by auto
  have g0: "py_index (sg_group_ids g) 0 = Inr (hd (sg_group_ids g))" using pos by (simp add: py_index_hd)
  have h0: "py_index hits (hd (sg_group_ids g)) = Inr (hits ! nat (hd (sg_group_ids g)))"
    using i0 by (simp add: py_index_nth)
  from lb pos have b0: "py_index bss 0 = Inr (hd bss)" by (auto intro!: py_index_hd)
  have find: "find_longest_cache_hit (sg_manager_cls g) hl ?b (sg_group_ids g) (c_pool c) (sg_spec g) ?e
      (c_scheduler_block_size c) 1 1 = Inr bss" using h(1) hl by (simp add: query_find_def group_query_def)
  define ev' where "ev' = (if ?e then List.insert idx ev else if query_len ?q bss < cl then [] else ev)"
  have "hybrid_group c hb hs L (idx, g) (cl, hits, ev) = Inr (query_len ?q bss, put_hits (sg_group_ids g) bss hits, ev')"
    using new find g0 h0 b0 hl unfolding hybrid_group_def lookup_bound_def ev'_def
    by (auto simp: Let_def query_len_def)
  moreover have "stored c hb hs (put_hits (sg_group_ids g) bss hits) g (query_len ?q bss)"
    unfolding stored_def using l(1) r lb ids len by (intro exI[of _ bss]) (simp add: put_hits_nth)
  moreover have "m \<le> query_len ?q bss" if "\<not> sg_use_eagle g" "query_reach ?q m" "m \<le> cl" for m
    using pl.find_max[of ?q ?b bss m] that fb h(1) by (simp add: lookup_bound_def)
  ultimately show ?thesis using l by (simp add: put_hits_other)
qed

lemma hybrid_group_again:
  assumes ready: "group_ready c hb hs L g" and len: "length hits = length (c_groups c)"
    and "is_full g" and "hits ! nat (hd (sg_group_ids g)) \<noteq> None"
  shows "hybrid_group c hb hs L (idx, g) (cl, hits, ev) =
      Inr (cl div spec_block_size (sg_spec g) * spec_block_size (sg_spec g), hits, ev)"
proof -
  from ready have ne: "sg_group_ids g \<noteq> []" and pos: "0 < spec_block_size (sg_spec g)"
    using query_fits_facts[of "group_query c hb hs g"] by (auto simp: group_ready_def)
  then have "0 \<le> hd (sg_group_ids g)" "nat (hd (sg_group_ids g)) < length hits"
    using ready len by (auto simp: group_ready_def)
  then have "py_index hits (hd (sg_group_ids g)) = Inr (hits ! nat (hd (sg_group_ids g)))" by (rule py_index_nth)
  with assms pos show ?thesis
    unfolding hybrid_group_def by (simp only: py_index_hd[OF ne] bindE_simps prod.case) (simp add: py_div_def Let_def)
qed

text \<open>A group returns a length within the bound, whatever the EAGLE flags are.\<close>

lemma hybrid_group_returns:
  assumes ready: "group_ready c hb hs L g" and cl: "0 \<le> cl" "cl \<le> L" and len: "length hits = length (c_groups c)"
  shows "\<exists>t hits' ev'. hybrid_group c hb hs L (idx, g) (cl, hits, ev) = Inr (t, hits', ev') \<and>
     length hits' = length hits \<and> 0 \<le> t \<and> t \<le> L"
proof (cases "\<not> is_full g \<or> hits ! nat (hd (sg_group_ids g)) = None")
  case True
  from ready have pos: "0 < spec_block_size (sg_spec g)"
    using query_fits_facts(1)[of "group_query c hb hs g"] by (auto simp: group_ready_def)
  have b: "lookup_bound g idx ev L cl \<le> L" using cl pos by (auto simp: lookup_bound_def)
  from hybrid_group_lookup[OF assms True, of idx ev] b show ?thesis by fastforce
next
  case False
  from ready have ne: "sg_group_ids g \<noteq> []" and pos: "0 < spec_block_size (sg_spec g)"
    using query_fits_facts[of "group_query c hb hs g"] by (auto simp: group_ready_def)
  have "hybrid_group c hb hs L (idx, g) (cl, hits, ev) =
      Inr (cl div spec_block_size (sg_spec g) * spec_block_size (sg_spec g), hits, ev)"
    using False by (intro hybrid_group_again[OF ready len]) auto
  moreover have "0 \<le> cl div spec_block_size (sg_spec g) * spec_block_size (sg_spec g)"
    "cl div spec_block_size (sg_spec g) * spec_block_size (sg_spec g) \<le> cl"
    using cl pos by (auto simp: pos_imp_zdiv_nonneg_iff zmod_le_nonneg_dividend minus_mod_eq_div_mult[symmetric])
  ultimately show ?thesis using cl by auto
qed

lemma hybrid_turn_returns:
  assumes "\<forall>g \<in> set gs. group_ready c hb hs L g" and "0 \<le> cl" "cl \<le> L" and "length hits = length (c_groups c)"
  shows "\<exists>t hits' ev'. foldE (hybrid_group c hb hs L) (enumerate k gs) (cl, hits, ev) = Inr (t, hits', ev') \<and>
     length hits' = length hits \<and> 0 \<le> t \<and> t \<le> L"
  using assms
proof (induction gs arbitrary: k cl hits ev)
  case (Cons g gs)
  from hybrid_group_returns[of c hb hs L g cl hits k ev] Cons.prems obtain t hits1 ev1 where
    s: "hybrid_group c hb hs L (k, g) (cl, hits, ev) = Inr (t, hits1, ev1)" "length hits1 = length hits" "0 \<le> t" "t \<le> L"
    by auto
  from Cons.IH[of t hits1 "Suc k" ev1] Cons.prems s obtain t' hits' ev' where
    "foldE (hybrid_group c hb hs L) (enumerate (Suc k) gs) (t, hits1, ev1) = Inr (t', hits', ev')"
    "length hits' = length hits" "0 \<le> t'" "t' \<le> L" by auto
  with s show ?case by simp
qed auto

lemma hybrid_loop_returns:
  assumes "\<And>cl hits ev. 0 \<le> cl \<Longrightarrow> cl \<le> L \<Longrightarrow> length hits = n \<Longrightarrow>
       \<exists>t hits' ev'. turn (cl, hits, ev) = Inr (t, hits', ev') \<and> length hits' = length hits \<and> 0 \<le> t \<and> t \<le> L"
    and "0 \<le> H" "H \<le> L" and "length hits = n" and "nat H < fuel"
  shows "\<exists>t hits'. hybrid_loop fuel turn simple H hits ev = Inr (t, hits') \<and> length hits' = n \<and> 0 \<le> t \<and> t \<le> H"
  using assms(2-)
proof (induction fuel arbitrary: H hits ev)
  case (Suc fuel)
  from assms(1)[of H hits ev] Suc.prems obtain t hits1 ev1 where
    t: "turn (H, hits, ev) = Inr (t, hits1, ev1)" "length hits1 = n" "0 \<le> t" "t \<le> L" by auto
  show ?case
  proof (cases "H \<le> t \<or> simple")
    case True
    with t Suc.prems show ?thesis by auto
  next
    case False
    with Suc.IH[of t hits1 ev1] t Suc.prems show ?thesis by fastforce
  qed
qed simp

abbreviation group_ids_of :: "spec_group list \<Rightarrow> int list" where
  "group_ids_of gs \<equiv> concat (map sg_group_ids gs)"

text \<open>A turn over groups without EAGLE and without full attention.\<close>

lemma rest_turn:
  assumes "\<forall>g \<in> set gs. group_ready c hb hs L g \<and> \<not> is_full g \<and> \<not> sg_use_eagle g"
    and "distinct (group_ids_of gs)" and "0 \<le> cl" "cl \<le> L" and "length hits = length (c_groups c)"
  shows "\<exists>t hits' ev'. foldE (hybrid_group c hb hs L) (enumerate k gs) (cl, hits, ev) = Inr (t, hits', ev') \<and>
     length hits' = length hits \<and> 0 \<le> t \<and> t \<le> cl \<and>
     (\<forall>j. j \<notin> nat ` set (group_ids_of gs) \<longrightarrow> hits' ! j = hits ! j) \<and>
     (\<forall>g \<in> set gs. \<exists>u. t \<le> u \<and> u \<le> cl \<and> stored c hb hs hits' g u) \<and>
     (if gs = [] then t = cl else stored c hb hs hits' (last gs) t) \<and>
     (\<forall>m. (\<forall>g \<in> set gs. query_reach (group_query c hb hs g) m) \<and> m \<le> cl \<longrightarrow> m \<le> t)"
  using assms
proof (induction gs arbitrary: k cl hits ev)
  case (Cons g gs)
  from hybrid_group_lookup[of c hb hs L g cl hits k ev] Cons.prems obtain t hits1 ev1 where
    s: "hybrid_group c hb hs L (k, g) (cl, hits, ev) = Inr (t, hits1, ev1)" "length hits1 = length hits"
      "stored c hb hs hits1 g t" "\<forall>j. j \<notin> nat ` set (sg_group_ids g) \<longrightarrow> hits1 ! j = hits ! j"
      "0 \<le> t" "t \<le> cl" "\<forall>m. query_reach (group_query c hb hs g) m \<and> m \<le> cl \<longrightarrow> m \<le> t"
    by (auto simp: lookup_bound_def)
  from Cons.IH[of t hits1 "Suc k" ev1] Cons.prems s obtain t' hits' ev' where
    r: "foldE (hybrid_group c hb hs L) (enumerate (Suc k) gs) (t, hits1, ev1) = Inr (t', hits', ev')"
      "length hits' = length hits" "0 \<le> t'" "t' \<le> t"
      "\<forall>j. j \<notin> nat ` set (group_ids_of gs) \<longrightarrow> hits' ! j = hits1 ! j"
      "\<forall>g \<in> set gs. \<exists>u. t' \<le> u \<and> u \<le> t \<and> stored c hb hs hits' g u"
      "if gs = [] then t' = t else stored c hb hs hits' (last gs) t'"
      "\<forall>m. (\<forall>g \<in> set gs. query_reach (group_query c hb hs g) m) \<and> m \<le> t \<longrightarrow> m \<le> t'"
    by auto
  have "nat i \<notin> nat ` set (group_ids_of gs)" if "i \<in> set (sg_group_ids g)" for i
  proof
    assume "nat i \<in> nat ` set (group_ids_of gs)"
    then obtain g' i' where i': "g' \<in> set gs" "i' \<in> set (sg_group_ids g')" "nat i = nat i'" by auto
    then have "i = i'" using that Cons.prems(1) by (auto simp: group_ready_def eq_nat_nat_iff)
    with i' that Cons.prems(2) show False by auto
  qed
  then have st: "stored c hb hs hits' g t" using stored_frame[OF s(3)] r(5) by blast
  show ?case
  proof (intro exI conjI)
    show "foldE (hybrid_group c hb hs L) (enumerate k (g # gs)) (cl, hits, ev) = Inr (t', hits', ev')"
      using s(1) r(1) by simp
    show "\<forall>j. j \<notin> nat ` set (group_ids_of (g # gs)) \<longrightarrow> hits' ! j = hits ! j"
      using s(4) r(5) by (simp add: image_Un)
    show "\<forall>ga \<in> set (g # gs). \<exists>u. t' \<le> u \<and> u \<le> cl \<and> stored c hb hs hits' ga u"
      using st r(4,6) s(6) by fastforce
    show "if g # gs = [] then t' = cl else stored c hb hs hits' (last (g # gs)) t'"
      using st r(7) by (auto split: if_splits)
    show "\<forall>m. (\<forall>g \<in> set (g # gs). query_reach (group_query c hb hs g) m) \<and> m \<le> cl \<longrightarrow> m \<le> t'"
      using s(7) r(8) by auto
  qed (use r s in auto)
qed simp

text \<open>
  The groups of a model without EAGLE: full attention, if there is any, is the first group only, and no
  two groups share an identifier.
\<close>

definition plain_groups :: "coordinator \<Rightarrow> int \<Rightarrow> bytes list \<Rightarrow> int \<Rightarrow> spec_group list \<Rightarrow> bool" where
  "plain_groups c hash_bs hashes L groups \<longleftrightarrow> 1 < length groups \<and> distinct (group_ids_of groups) \<and>
     (\<forall>g \<in> set groups. group_ready c hash_bs hashes L g \<and> \<not> sg_use_eagle g) \<and>
     (\<forall>g \<in> set (tl groups). \<not> is_full g)"

definition common_length :: "coordinator \<Rightarrow> int \<Rightarrow> bytes list \<Rightarrow> spec_group list \<Rightarrow> int \<Rightarrow> bool" where
  "common_length c hash_bs hashes groups m \<longleftrightarrow>
     (\<forall>g \<in> set groups. query_reach (group_query c hash_bs hashes g) m)"

lemma stored_reach: "stored c hb hs hits g t \<Longrightarrow> query_reach (group_query c hb hs g) t"
  by (auto simp: stored_def)

lemma reach_aligned: "query_reach (group_query c hb hs g) t \<Longrightarrow> c_scheduler_block_size c dvd t"
  by (auto simp: query_reach_def)

lemma ready_ids:
  assumes "group_ready c hb hs L g"
  shows "sg_group_ids g \<noteq> []" and "0 < spec_block_size (sg_spec g)" and "0 < c_scheduler_block_size c"
  using assms query_fits_facts[of "group_query c hb hs g"] by (auto simp: group_ready_def)

lemma stored_first: "group_ready c hb hs L g \<Longrightarrow> stored c hb hs hits g t \<Longrightarrow> hits ! nat (hd (sg_group_ids g)) \<noteq> None"
  using ready_ids(1)[of c hb hs L g] by (auto simp: stored_def hd_conv_nth)

definition turn_start :: "coordinator \<Rightarrow> int \<Rightarrow> bytes list \<Rightarrow> spec_group \<Rightarrow> int \<Rightarrow> addr list option list \<Rightarrow> bool" where
  "turn_start c hb hs g0 H hits \<longleftrightarrow> length hits = length (c_groups c) \<and>
     (is_full g0 \<longrightarrow> hits ! nat (hd (sg_group_ids g0)) = None \<or>
        c_scheduler_block_size c dvd H \<and> (\<exists>t \<ge> H. stored c hb hs hits g0 t))"

definition first_stored :: "coordinator \<Rightarrow> int \<Rightarrow> bytes list \<Rightarrow> spec_group \<Rightarrow> addr list option list \<Rightarrow> int \<Rightarrow> int \<Rightarrow> bool" where
  "first_stored c hb hs g0 hits t H \<longleftrightarrow> (\<exists>u \<ge> t. (\<not> is_full g0 \<longrightarrow> u \<le> H) \<and> stored c hb hs hits g0 u)"

lemma first_turn:
  assumes ready: "group_ready c hb hs L g0" "\<not> sg_use_eagle g0" and st: "turn_start c hb hs g0 H hits"
    and H: "0 \<le> H" "H \<le> L"
  shows "\<exists>t hits' ev'. hybrid_group c hb hs L (k, g0) (H, hits, ev) = Inr (t, hits', ev') \<and>
     length hits' = length hits \<and> 0 \<le> t \<and> t \<le> H \<and> first_stored c hb hs g0 hits' t H \<and>
     (\<forall>m. query_reach (group_query c hb hs g0) m \<and> m \<le> H \<longrightarrow> m \<le> t)"
proof (cases "\<not> is_full g0 \<or> hits ! nat (hd (sg_group_ids g0)) = None")
  case True
  with hybrid_group_lookup[OF ready(1) H _ True, of k ev] ready(2) st show ?thesis
    by (fastforce simp: turn_start_def first_stored_def lookup_bound_def)
next
  case False
  with st have full: "is_full g0" "hits ! nat (hd (sg_group_ids g0)) \<noteq> None"
    and H': "c_scheduler_block_size c dvd H" "\<exists>t \<ge> H. stored c hb hs hits g0 t" and len: "length hits = length (c_groups c)"
    by (auto simp: turn_start_def)
  from ready(1) have "spec_block_size (sg_spec g0) dvd H" using H'(1) by (auto simp: group_ready_def intro: dvd_trans)
  then have "H div spec_block_size (sg_spec g0) * spec_block_size (sg_spec g0) = H" by simp
  with hybrid_group_again[OF ready(1) len full, of k H ev] H'(2) H show ?thesis
    by (auto simp: first_stored_def full)
qed

lemma ids_apart:
  assumes "\<forall>g \<in> set (g0 # gs). group_ready c hb hs L g" and "distinct (group_ids_of (g0 # gs))"
    and "i \<in> set (sg_group_ids g0)"
  shows "nat i \<notin> nat ` set (group_ids_of gs)"
proof
  assume "nat i \<in> nat ` set (group_ids_of gs)"
  then obtain g' i' where i': "g' \<in> set gs" "i' \<in> set (sg_group_ids g')" "nat i = nat i'" by auto
  then have "i = i'" using assms(1,3) by (auto simp: group_ready_def eq_nat_nat_iff)
  with i' assms(2,3) show False by auto
qed

lemma plain_turn:
  assumes plain: "plain_groups c hb hs L (g0 # gs)" and st: "turn_start c hb hs g0 H hits" and H: "0 \<le> H" "H \<le> L"
  shows "\<exists>t hits' ev'. foldE (hybrid_group c hb hs L) (enumerate 0 (g0 # gs)) (H, hits, ev) = Inr (t, hits', ev') \<and>
     length hits' = length hits \<and> 0 \<le> t \<and> t \<le> H \<and> c_scheduler_block_size c dvd t \<and>
     (\<forall>g \<in> set gs. \<exists>u. t \<le> u \<and> u \<le> H \<and> stored c hb hs hits' g u) \<and> stored c hb hs hits' (last gs) t \<and>
     first_stored c hb hs g0 hits' t H \<and> (\<forall>m. common_length c hb hs (g0 # gs) m \<and> m \<le> H \<longrightarrow> m \<le> t)"
proof -
  from plain have ready: "group_ready c hb hs L g0" "\<not> sg_use_eagle g0" and all: "\<forall>g \<in> set (g0 # gs). group_ready c hb hs L g"
    and dist: "distinct (group_ids_of (g0 # gs))" and ne: "gs \<noteq> []"
    and rest: "\<forall>g \<in> set gs. group_ready c hb hs L g \<and> \<not> is_full g \<and> \<not> sg_use_eagle g"
    by (auto simp: plain_groups_def)
  from first_turn[OF ready st H, of 0 ev] obtain t1 hits1 ev1 where
    f: "hybrid_group c hb hs L (0, g0) (H, hits, ev) = Inr (t1, hits1, ev1)" "length hits1 = length hits" "0 \<le> t1" "t1 \<le> H"
      "first_stored c hb hs g0 hits1 t1 H" "\<forall>m. query_reach (group_query c hb hs g0) m \<and> m \<le> H \<longrightarrow> m \<le> t1" by blast
  from st f(2) have "length hits1 = length (c_groups c)" by (simp add: turn_start_def)
  from rest_turn[OF rest _ f(3) _ this, of "Suc 0" ev1] dist f(4) H ne obtain t hits' ev' where
    r: "foldE (hybrid_group c hb hs L) (enumerate (Suc 0) gs) (t1, hits1, ev1) = Inr (t, hits', ev')"
      "length hits' = length hits1" "0 \<le> t" "t \<le> t1" "\<forall>j. j \<notin> nat ` set (group_ids_of gs) \<longrightarrow> hits' ! j = hits1 ! j"
      "\<forall>g \<in> set gs. \<exists>u. t \<le> u \<and> u \<le> t1 \<and> stored c hb hs hits' g u" "stored c hb hs hits' (last gs) t"
      "\<forall>m. (\<forall>g \<in> set gs. query_reach (group_query c hb hs g) m) \<and> m \<le> t1 \<longrightarrow> m \<le> t" by auto
  from f(5) obtain u where u: "t1 \<le> u" "\<not> is_full g0 \<longrightarrow> u \<le> H" "stored c hb hs hits1 g0 u" by (auto simp: first_stored_def)
  have "stored c hb hs hits' g0 u" by (rule stored_frame[OF u(3)]) (use ids_apart[OF all dist] r(5) in blast)
  then have "first_stored c hb hs g0 hits' t H" using u r(4)
    unfolding first_stored_def by (intro exI[of _ u]) auto
  moreover have "c_scheduler_block_size c dvd t" using reach_aligned[OF stored_reach[OF r(7)]] .
  moreover have "\<forall>g \<in> set gs. \<exists>u. t \<le> u \<and> u \<le> H \<and> stored c hb hs hits' g u" using r(6) f(4) by fastforce
  moreover have "\<forall>m. common_length c hb hs (g0 # gs) m \<and> m \<le> H \<longrightarrow> m \<le> t" using f(6) r(8) by (auto simp: common_length_def)
  ultimately show ?thesis using f(1-4) r(1-4,7) by auto
qed

lemma plain_loop:
  assumes plain: "plain_groups c hb hs L (g0 # gs)" and simple: "simple \<longrightarrow> is_full g0 \<and> length gs = 1"
    and turn: "turn = foldE (hybrid_group c hb hs L) (enumerate 0 (g0 # gs))"
    and "turn_start c hb hs g0 H hits" and "0 \<le> H" "H \<le> L" and "nat H < fuel"
    and "hybrid_loop fuel turn simple H hits ev = Inr (t, hits')"
  shows "c_scheduler_block_size c dvd t \<and> 0 \<le> t \<and> length hits' = length hits \<and>
     (\<forall>g \<in> set gs. stored c hb hs hits' g t) \<and>
     first_stored c hb hs g0 hits' t t \<and> (\<forall>m. common_length c hb hs (g0 # gs) m \<and> m \<le> H \<longrightarrow> m \<le> t)"
  using assms(4-)
proof (induction fuel arbitrary: H hits ev)
  case (Suc fuel)
  from plain_turn[OF plain Suc.prems(1-3), of ev] obtain t1 hits1 ev1 where
    r: "turn (H, hits, ev) = Inr (t1, hits1, ev1)"
      "length hits1 = length hits" "0 \<le> t1" "t1 \<le> H" "c_scheduler_block_size c dvd t1"
      "\<forall>g \<in> set gs. \<exists>u. t1 \<le> u \<and> u \<le> H \<and> stored c hb hs hits1 g u" "stored c hb hs hits1 (last gs) t1"
      "first_stored c hb hs g0 hits1 t1 H" "\<forall>m. common_length c hb hs (g0 # gs) m \<and> m \<le> H \<longrightarrow> m \<le> t1"
    unfolding turn by blast
  consider (fixed) "H = t1" | (simple) "t1 < H" simple | (again) "t1 < H" "\<not> simple" using r(4) by linarith
  then show ?case
  proof cases
    case fixed
    with Suc.prems(5) r(1) have "t = t1" "hits' = hits1" by auto
    with fixed r show ?thesis by (auto dest!: bspec)
  next
    case simple
    with Suc.prems(5) r(1) have t: "t = t1" "hits' = hits1" by auto
    from simple assms(2) obtain g1 where "gs = [g1]" "is_full g0" by (auto simp: length_Suc_conv)
    with t r show ?thesis by (auto simp: first_stored_def)
  next
    case again
    with Suc.prems(5) r(1) have l: "hybrid_loop fuel turn simple t1 hits1 ev1 = Inr (t, hits')"
      by auto
    have "turn_start c hb hs g0 t1 hits1" using Suc.prems(1) r by (auto simp: turn_start_def first_stored_def)
    from Suc.IH[OF this r(3) _ _ l] again Suc.prems r show ?thesis by fastforce
  qed
qed simp

lemma cut_hits_simps [simp]:
  "cut_hits [] n hits = hits"
  "cut_hits (g # gids) n hits = cut_hits gids n (hits[nat g := map_option (\<lambda>blks. py_slice_to blks n) (hits ! nat g)])"
  by (simp_all add: cut_hits_def)

lemma length_cut_hits [simp]: "length (cut_hits gids n hits) = length hits"
  by (induction gids arbitrary: hits) auto

lemma cut_hits_other: "j \<notin> nat ` set gids \<Longrightarrow> cut_hits gids n hits ! j = hits ! j"
  by (induction gids arbitrary: hits) auto

lemma cut_hits_nth:
  assumes "g \<in> set gids" and "distinct gids" and "\<forall>g \<in> set gids. 0 \<le> g \<and> nat g < length hits"
  shows "cut_hits gids n hits ! nat g = map_option (\<lambda>blks. py_slice_to blks n) (hits ! nat g)"
  using assms
proof (induction gids arbitrary: hits)
  case (Cons a gids)
  have "nat a \<notin> nat ` set gids" using Cons.prems(2,3) by (auto simp: eq_nat_nat_iff)
  moreover have "nat g \<noteq> nat a" if "g \<in> set gids" using that Cons.prems(2,3) by (auto simp: eq_nat_nat_iff)
  ultimately show ?case using Cons by (auto simp: cut_hits_other)
qed simp

lemma full_class:
  assumes "group_ready c hb hs L g" and "is_full g"
  shows "sg_manager_cls g = FullAttentionManager \<or> sg_manager_cls g = SinkFullAttentionManager"
  using assms
  by (cases "sg_manager_cls g")
     (auto simp: group_ready_def query_fits_def lookup_ok_def spec_fits_def is_full_def isinstance_iff)

lemma full_unskipped:
  "mc = FullAttentionManager \<or> mc = SinkFullAttentionManager \<Longrightarrow> unskipped mc spec bs n i"
  by (auto simp: unskipped_def)

lemma prefix_hit_take:
  assumes "prefix_hit p hl gids mc spec bs hit n" and "mc = FullAttentionManager \<or> mc = SinkFullAttentionManager"
    and "k \<le> n"
  shows "prefix_hit p hl gids mc spec bs (map (take k) hit) k"
  using assms full_unskipped[OF assms(2)] by (auto simp: prefix_hit_def list_all2_conv_all_nth)

text \<open>The blocks returned for a group are a hit of \<open>t\<close> tokens.\<close>

definition group_hit :: "coordinator \<Rightarrow> int \<Rightarrow> bytes list \<Rightarrow> addr list list \<Rightarrow> spec_group \<Rightarrow> int \<Rightarrow> bool" where
  "group_hit c hash_bs hashes blocks g t \<longleftrightarrow>
     (\<exists>n. int n * spec_block_size (sg_spec g) = t \<and>
        prefix_hit (c_pool c) (projr (get_block_hashes hash_bs hashes (sg_spec g))) (sg_group_ids g)
          (sg_manager_cls g) (sg_spec g) (spec_block_size (sg_spec g)) (map (\<lambda>i. blocks ! nat i) (sg_group_ids g)) n)"

abbreviation found_blocks :: "addr list option list \<Rightarrow> addr list list" where
  "found_blocks hits \<equiv> map (\<lambda>blocks. case blocks of None \<Rightarrow> [] | Some bs \<Rightarrow> bs) hits"

lemma stored_group_hit:
  assumes "group_ready c hb hs L g" and "stored c hb hs hits g t" and "length hits = length (c_groups c)"
  shows "group_hit c hb hs (found_blocks hits) g t"
proof -
  from assms(2) obtain bss where b: "query_valid (group_query c hb hs g) bss" "query_len (group_query c hb hs g) bss = t"
    "length bss = length (sg_group_ids g)" "\<forall>i < length (sg_group_ids g). hits ! nat (sg_group_ids g ! i) = Some (bss ! i)"
    by (auto simp: stored_def)
  have "map (\<lambda>i. found_blocks hits ! nat i) (sg_group_ids g) = bss"
    using b(3,4) assms(1,3) by (auto simp: list_eq_iff_nth_eq group_ready_def)
  then show ?thesis using b(1,2) by (auto simp: group_hit_def query_valid_def query_len_def group_query_def)
qed

lemma stored_cut:
  assumes ready: "group_ready c hb hs L g" and full: "is_full g" and st: "stored c hb hs hits g u"
    and t: "0 \<le> t" "t \<le> u" "c_scheduler_block_size c dvd t" and len: "length hits = length (c_groups c)"
  shows "group_hit c hb hs (found_blocks (cut_hits (sg_group_ids g) (t div spec_block_size (sg_spec g)) hits)) g t"
proof -
  let ?bs = "spec_block_size (sg_spec g)" and ?q = "group_query c hb hs g"
  define n where "n = nat (t div ?bs)"
  from st obtain bss where b: "query_valid ?q bss" "query_len ?q bss = u"
    "length bss = length (sg_group_ids g)" "\<forall>i < length (sg_group_ids g). hits ! nat (sg_group_ids g ! i) = Some (bss ! i)"
    by (auto simp: stored_def)
  have pos: "0 < ?bs" using ready_ids[OF ready] by simp
  have "?bs dvd t" using ready t(3) by (auto simp: group_ready_def intro: dvd_trans)
  then have nt: "int n * ?bs = t" using t(1) pos by (simp add: n_def pos_imp_zdiv_nonneg_iff)
  have "n \<le> length (hd bss)" using b(2) t(2) nt pos by (auto simp: query_len_def)
  with b(1) have h: "prefix_hit (c_pool c) (q_hashes ?q) (sg_group_ids g) (sg_manager_cls g) (sg_spec g) ?bs (map (take n) bss) n"
    using full_class[OF ready full] by (auto simp: query_valid_def intro: prefix_hit_take)
  have ids: "distinct (sg_group_ids g)" "\<forall>i \<in> set (sg_group_ids g). 0 \<le> i \<and> nat i < length hits"
    using ready len by (auto simp: group_ready_def)
  have "map (\<lambda>i. found_blocks (cut_hits (sg_group_ids g) (t div ?bs) hits) ! nat i) (sg_group_ids g) = map (take n) bss"
    using b(3,4) ids t(1) pos
    by (auto simp: list_eq_iff_nth_eq cut_hits_nth n_def py_slice_to_nonneg pos_imp_zdiv_nonneg_iff)
  with h nt show ?thesis by (auto simp: group_hit_def group_query_def)
qed

lemma hybrid_returns:
  assumes cls: "c_class c = Hybrid hb groups" and ready: "\<forall>g \<in> set groups. group_ready c hb hashes L g"
    and "groups \<noteq> []" and L: "0 \<le> L"
  obtains t hits where
    "hybrid_loop (nat L + 2) (foldE (hybrid_group c hb hashes L) (enumerate 0 groups))
       (length groups = 2 \<and> is_full (groups ! 0)) L (replicate (length (c_groups c)) None) [] = Inr (t, hits)"
    and "0 \<le> t" "t \<le> L" and "length hits = length (c_groups c)"
    and "coord_find_longest_cache_hit hashes L c =
       Inr (found_blocks (if is_full (hd groups)
              then cut_hits (sg_group_ids (hd groups)) (t div spec_block_size (sg_spec (hd groups))) hits else hits), t)"
proof -
  let ?turn = "foldE (hybrid_group c hb hashes L) (enumerate 0 groups)"
    and ?s = "length groups = 2 \<and> is_full (groups ! 0)"
  have "\<exists>t hits. hybrid_loop (nat L + 2) ?turn ?s L (replicate (length (c_groups c)) None) [] = Inr (t, hits) \<and>
      length hits = length (c_groups c) \<and> 0 \<le> t \<and> t \<le> L"
    by (rule hybrid_loop_returns[where L = L]) (use hybrid_turn_returns[OF ready] L in auto)
  then obtain t hits where l: "hybrid_loop (nat L + 2) ?turn ?s L (replicate (length (c_groups c)) None) [] = Inr (t, hits)"
    "length hits = length (c_groups c)" "0 \<le> t" "t \<le> L" by blast
  have pos: "0 < spec_block_size (sg_spec (hd groups))" using ready assms(3) by (auto intro!: ready_ids(2)[of c hb hashes L])
  have tr: "truncate_full groups t hits = Inr (if is_full (hd groups)
      then cut_hits (sg_group_ids (hd groups)) (t div spec_block_size (sg_spec (hd groups))) hits else hits)"
    unfolding truncate_full_def using py_index_hd[OF assms(3)] pos by (simp only: bindE_simps) (simp add: py_div_def)
  have "coord_find_longest_cache_hit hashes L c =
       Inr (found_blocks (if is_full (hd groups)
              then cut_hits (sg_group_ids (hd groups)) (t div spec_block_size (sg_spec (hd groups))) hits else hits), t)"
    unfolding coord_find_longest_cache_hit_def hybrid_find_longest_cache_hit_def cls Let_def coordinator_class.case
      l(1) bindE_simps prod.case tr by (rule refl)
  with l that show thesis by blast
qed

lemma plain_hits:
  assumes cls: "c_class c = Hybrid hb groups" and plain: "plain_groups c hb hashes L groups" and L: "0 \<le> L"
    and find: "coord_find_longest_cache_hit hashes L c = Inr (blocks, t)"
  shows "c_scheduler_block_size c dvd t \<and> (\<forall>g \<in> set groups. group_hit c hb hashes blocks g t) \<and>
     (\<forall>m. common_length c hb hashes groups m \<and> m \<le> L \<longrightarrow> m \<le> t)"
proof -
  from plain obtain g0 gs where g: "groups = g0 # gs" and gs: "gs \<noteq> []" by (cases groups) (auto simp: plain_groups_def)
  from plain have ready: "\<forall>g \<in> set groups. group_ready c hb hashes L g" and ne: "groups \<noteq> []"
    by (auto simp: plain_groups_def)
  obtain t' hits where l': "hybrid_loop (nat L + 2) (foldE (hybrid_group c hb hashes L) (enumerate 0 groups))
       (length groups = 2 \<and> is_full (groups ! 0)) L (replicate (length (c_groups c)) None) [] = Inr (t', hits)"
    "length hits = length (c_groups c)"
    and f': "coord_find_longest_cache_hit hashes L c =
       Inr (found_blocks (if is_full (hd groups)
              then cut_hits (sg_group_ids (hd groups)) (t' div spec_block_size (sg_spec (hd groups))) hits else hits), t')"
    by (rule hybrid_returns[OF cls ready ne L])
  from f' find have tt: "t' = t" by simp
  note l = l'[unfolded tt]
  from f' find have blocks: "blocks = found_blocks (if is_full g0
      then cut_hits (sg_group_ids g0) (t div spec_block_size (sg_spec g0)) hits else hits)" by (simp add: tt g)
  have r0: "group_ready c hb hashes L g0" using ready g by simp
  from ready_ids(1)[OF r0] r0 have "nat (hd (sg_group_ids g0)) < length (c_groups c)" by (auto simp: group_ready_def)
  then have st: "turn_start c hb hashes g0 L (replicate (length (c_groups c)) None)" by (simp add: turn_start_def)
  from plain_loop[OF plain[unfolded g] _ refl st L order_refl _ l(1)[unfolded g]]
  have r: "c_scheduler_block_size c dvd t" "0 \<le> t" "\<forall>g \<in> set gs. stored c hb hashes hits g t"
    "first_stored c hb hashes g0 hits t t" "\<forall>m. common_length c hb hashes (g0 # gs) m \<and> m \<le> L \<longrightarrow> m \<le> t"
    by auto
  from r(4) obtain u where u: "t \<le> u" "\<not> is_full g0 \<longrightarrow> u \<le> t" "stored c hb hashes hits g0 u"
    unfolding first_stored_def by blast
  have ap: "nat j \<notin> nat ` set (group_ids_of gs)" if "j \<in> set (sg_group_ids g0)" for j
    using plain that unfolding g by (intro ids_apart[of g0 gs c hb hashes L]) (auto simp: plain_groups_def)
  have "group_hit c hb hashes blocks g0 t"
    using stored_cut[OF r0 _ u(3) r(2) u(1) r(1) l(2)] stored_group_hit[OF r0 u(3) l(2)] u(1,2) blocks by auto
  moreover have "group_hit c hb hashes blocks g t" if "g \<in> set gs" for g
  proof (cases "is_full g0")
    case True
    have "stored c hb hashes (cut_hits (sg_group_ids g0) (t div spec_block_size (sg_spec g0)) hits) g t"
    proof (rule stored_frame)
      fix i assume i: "i \<in> set (sg_group_ids g)"
      have "nat i \<in> nat ` set (group_ids_of gs)" using i that by auto
      with ap have "nat i \<notin> nat ` set (sg_group_ids g0)" by (metis imageE)
      then show "cut_hits (sg_group_ids g0) (t div spec_block_size (sg_spec g0)) hits ! nat i = hits ! nat i"
        by (rule cut_hits_other)
    qed (use r(3) that in simp)
    with stored_group_hit[of c hb hashes L g _ t] ready g that True l(2) blocks show ?thesis by simp
  next
    case False
    with stored_group_hit[of c hb hashes L g hits t] ready g that l(2) blocks r(3) show ?thesis by simp
  qed
  ultimately show ?thesis using r g by auto
qed

subsection \<open>Properties of the look-up\<close>

text \<open>Example coordinators: groups that share one pool of cached blocks.\<close>

definition ex_spec_group :: "layer_spec \<Rightarrow> int \<Rightarrow> manager_class \<Rightarrow> bool \<Rightarrow> spec_group" where
  "ex_spec_group spec i mc eagle = \<lparr>sg_spec = spec, sg_group_ids = [i], sg_manager_cls = mc, sg_use_eagle = eagle\<rparr>"

definition ex_hybrid :: "spec_group list \<Rightarrow> block_pool \<Rightarrow> coordinator" where
  "ex_hybrid groups p =
     \<lparr>c_class = Hybrid 16 groups,
      c_groups = map (\<lambda>g. \<lparr>layer_names = [], group_spec = LayerSpec (sg_spec g), is_eagle_group = sg_use_eagle g\<rparr>) groups,
      c_max_model_len = 128, c_enable_caching = True, c_scheduler_block_size = 16, c_pool = p,
      eagle_group_ids = eagle_groups groups,
      managers = map (\<lambda>g. (manager_init (sg_manager_cls g) (sg_spec g) True (hd (sg_group_ids g)) 16 1 1 None)
                         \<lparr>m_use_eagle := sg_use_eagle g\<rparr>) groups,
      c_retention_interval = None\<rparr>"

definition ex_groups :: "spec_group list" where
  "ex_groups = [ex_spec_group (full_layer 64) 0 FullAttentionManager False,
                ex_spec_group narrow_window 1 SlidingWindowManager False]"

definition state_layer :: layer_spec where
  "state_layer = (default_spec MambaSpec)\<lparr>spec_block_size := 16, spec_mamba_cache_mode := ''all''\<rparr>"

text \<open>C38. The search of the hybrid coordinator returns, with at most one turn per token of the bound: for
  any EAGLE flags it ends with a length between zero and the bound. Without EAGLE, and if all full-attention
  layers form the first group, the length is common to all groups: it is a multiple of the scheduler block
  size, every group gets blocks for exactly that many tokens, all blocks that its attention can read are
  cached under the hash of their position, and no longer length within the bound is cached in all groups.\<close>

theorem hybrid_common_prefix:
  assumes "c_class c = Hybrid hash_bs groups" and "groups \<noteq> []" and "0 \<le> L"
    and "\<forall>g \<in> set groups. group_ready c hash_bs hashes L g"
  shows "\<exists>blocks t. coord_find_longest_cache_hit hashes L c = Inr (blocks, t) \<and>
     length blocks = length (c_groups c) \<and> 0 \<le> t \<and> t \<le> L \<and>
     (plain_groups c hash_bs hashes L groups \<longrightarrow>
        c_scheduler_block_size c dvd t \<and> (\<forall>g \<in> set groups. group_hit c hash_bs hashes blocks g t) \<and>
        (\<forall>m. common_length c hash_bs hashes groups m \<and> m \<le> L \<longrightarrow> m \<le> t))"
proof -
  obtain t hits where "0 \<le> t" "t \<le> L" "length hits = length (c_groups c)" and
    "coord_find_longest_cache_hit hashes L c =
       Inr (found_blocks (if is_full (hd groups)
              then cut_hits (sg_group_ids (hd groups)) (t div spec_block_size (sg_spec (hd groups))) hits else hits), t)"
    by (rule hybrid_returns[OF assms(1,4,2,3)])
  moreover from this(4) have "plain_groups c hash_bs hashes L groups \<longrightarrow>
        c_scheduler_block_size c dvd t \<and> (\<forall>g \<in> set groups. group_hit c hash_bs hashes (found_blocks (if is_full (hd groups)
              then cut_hits (sg_group_ids (hd groups)) (t div spec_block_size (sg_spec (hd groups))) hits else hits)) g t) \<and>
        (\<forall>m. common_length c hash_bs hashes groups m \<and> m \<le> L \<longrightarrow> m \<le> t)"
    using plain_hits[OF assms(1) _ assms(3)] by blast
  ultimately show ?thesis by auto
qed

lemma ex_ready:
  assumes "g \<in> set ex_groups"
  shows "group_ready (ex_hybrid ex_groups ex_hit_pool) 16 [[1], [2], [3], [4]] 64 g"
proof -
  have bs: "spec_block_size (sg_spec g) = 16" using assms
    by (auto simp: ex_groups_def ex_spec_group_def full_layer_def narrow_window_def window_layer_def default_spec_def)
  have "groups_ok (sg_group_ids g)" "\<forall>i \<in> set (sg_group_ids g). 0 \<le> i \<and> nat i < 2" "distinct (sg_group_ids g)"
    using assms by (auto simp: ex_groups_def ex_spec_group_def groups_ok_def group_ok_def)
  moreover have "spec_fits (sg_manager_cls g) (sg_spec g) (sg_use_eagle g) 16 1 1"
    using assms by (auto simp: ex_groups_def ex_spec_group_def spec_fits_def full_layer_def narrow_window_def window_layer_def
        default_spec_def isinstance_iff)
  moreover have "length ex_groups = 2" by (simp add: ex_groups_def)
  ultimately show ?thesis using bs ex_hit_pool_state
    by (auto simp: group_ready_def get_block_hashes_def query_fits_def lookup_ok_def group_query_def ex_hybrid_def)
qed

theorem hybrid_common_prefix_witness:
  "coord_find_longest_cache_hit [[1], [2], [3], [4]] 64 (ex_hybrid ex_groups ex_hit_pool) =
     Inr ([[Blk 1, Blk 2, Blk 3], [Blk 0, Blk 4, Blk 5]], 48) \<and>
   \<not> common_length (ex_hybrid ex_groups ex_hit_pool) 16 [[1], [2], [3], [4]] ex_groups 64"
proof -
  let ?c = "ex_hybrid ex_groups ex_hit_pool" and ?hs = "[[1], [2], [3], [4]]"
  have f: "coord_find_longest_cache_hit ?hs 64 ?c = Inr ([[Blk 1, Blk 2, Blk 3], [Blk 0, Blk 4, Blk 5]], 48)" by code_simp
  have ready: "\<forall>g \<in> set ex_groups. group_ready ?c 16 ?hs 64 g" by (blast intro: ex_ready)
  have cls: "c_class ?c = Hybrid 16 ex_groups" "ex_groups \<noteq> []" by (simp_all add: ex_hybrid_def ex_groups_def)
  have "\<forall>g \<in> set (tl ex_groups). \<not> is_full g" "1 < length ex_groups" "distinct (group_ids_of ex_groups)"
    "\<forall>g \<in> set ex_groups. \<not> sg_use_eagle g" by code_simp+
  then have "plain_groups ?c 16 ?hs 64 ex_groups"
    using ready by (simp add: plain_groups_def)
  with hybrid_common_prefix[OF cls _ ready] f have "\<forall>m. common_length ?c 16 ?hs ex_groups m \<and> m \<le> 64 \<longrightarrow> m \<le> 48" by auto
  then have "\<not> common_length ?c 16 ?hs ex_groups 64" by fastforce
  with f show ?thesis by simp
qed


end
