(* ===== verification/KV_Cache_Manager.thy ===== *)
theory KV_Cache_Manager
  imports KV_Coordinator
begin

section \<open>The KV-cache manager\<close>

text \<open>
  vllm/v1/core/kv\_cache\_manager.py, the interface of the scheduler to the KV cache, and the statistics of
  vllm/v1/metrics/stats.py that it records. The manager holds the coordinator, which holds the pool.

  \<open>KVCacheBlocks\<close> objects are compared by identity with the shared empty object, so that object has a
  constructor of its own. The second half shows that after any sequence of operations every block has
  as many references as the requests of all groups hold it.
\<close>

subsection \<open>Block lists\<close>

datatype kv_cache_blocks =
    SharedEmpty nat
  | KVCacheBlocks "addr list list"

fun blocks :: "kv_cache_blocks \<Rightarrow> addr list list" where
  "blocks (SharedEmpty n) = replicate n []"
| "blocks (KVCacheBlocks bs) = bs"

definition blocks_add :: "kv_cache_blocks \<Rightarrow> kv_cache_blocks \<Rightarrow> kv_cache_blocks" where
  "blocks_add a b = KVCacheBlocks (map (\<lambda>(x, y). x @ y) (zip (blocks a) (blocks b)))"

definition blocks_get_block_ids :: "block_pool \<Rightarrow> kv_cache_blocks \<Rightarrow> bool \<Rightarrow> int list list option" where
  "blocks_get_block_ids p a allow_none =
     (if allow_none \<and> (\<forall>group \<in> set (blocks a). length group = 0) then None
      else Some (map (map (\<lambda>b. block_id (blk p b))) (blocks a)))"

definition get_unhashed_block_ids :: "block_pool \<Rightarrow> kv_cache_blocks \<Rightarrow> int list result" where
  "get_unhashed_block_ids p a =
     bindE (assertE (length (blocks a) = 1)) (\<lambda>_.
       Inr (map (\<lambda>b. block_id (blk p b)) (filter (\<lambda>b. block_hash (blk p b) = None) (blocks a ! 0))))"

definition get_unhashed_block_ids_all_groups :: "block_pool \<Rightarrow> kv_cache_blocks \<Rightarrow> int list list" where
  "get_unhashed_block_ids_all_groups p a =
     map (\<lambda>group. map (\<lambda>b. block_id (blk p b))
                   (filter (\<lambda>b. block_hash (blk p b) = None \<and> \<not> is_null (blk p b)) group)) (blocks a)"

definition new_empty :: "kv_cache_blocks \<Rightarrow> kv_cache_blocks" where
  "new_empty a = KVCacheBlocks (replicate (length (blocks a)) [])"

subsection \<open>Statistics\<close>

record prefix_cache_stats =
  ps_reset :: bool
  ps_requests :: int
  ps_queries :: int
  ps_hits :: int
  ps_preempted_requests :: int
  ps_preempted_queries :: int
  ps_preempted_hits :: int

definition new_prefix_cache_stats :: prefix_cache_stats where
  "new_prefix_cache_stats =
     \<lparr>ps_reset = False, ps_requests = 0, ps_queries = 0, ps_hits = 0, ps_preempted_requests = 0,
      ps_preempted_queries = 0, ps_preempted_hits = 0\<rparr>"

definition record_stats :: "int \<Rightarrow> int \<Rightarrow> bool \<Rightarrow> prefix_cache_stats \<Rightarrow> prefix_cache_stats" where
  "record_stats n num_hits preempted s =
     (if preempted
      then s\<lparr>ps_preempted_requests := ps_preempted_requests s + 1,
             ps_preempted_queries := ps_preempted_queries s + n,
             ps_preempted_hits := ps_preempted_hits s + num_hits\<rparr>
      else s\<lparr>ps_requests := ps_requests s + 1, ps_queries := ps_queries s + n, ps_hits := ps_hits s + num_hits\<rparr>)"

subsection \<open>State\<close>

record kv_cache_manager =
  km_max_model_len :: int
  km_enable_caching :: bool
  km_log_stats :: bool
  km_prefix_cache_stats :: "prefix_cache_stats option"
  km_coordinator :: coordinator
  km_num_groups :: nat
  km_event_metadata :: "(kv_cache_spec_kind \<times> int option) list"

abbreviation empty_kv_cache_blocks :: "kv_cache_manager \<Rightarrow> kv_cache_blocks" where
  "empty_kv_cache_blocks k \<equiv> SharedEmpty (km_num_groups k)"

abbreviation km_pool :: "kv_cache_manager \<Rightarrow> block_pool" where
  "km_pool k \<equiv> c_pool (km_coordinator k)"

definition kv_cache_manager_init ::
  "coordinator_args \<Rightarrow> int option \<Rightarrow> bool \<Rightarrow> bool \<Rightarrow> kv_cache_manager result" where
  "kv_cache_manager_init a max_num_batched_tokens caching log_stats =
     (let batched = (case max_num_batched_tokens of None \<Rightarrow> ca_max_model_len a | Some n \<Rightarrow> n) in
      bindE (get_kv_cache_coordinator (a\<lparr>ca_max_num_batched_tokens := batched\<rparr>) caching) (\<lambda>c.
        Inr \<lparr>km_max_model_len = ca_max_model_len a, km_enable_caching = caching, km_log_stats = log_stats,
             km_prefix_cache_stats = (if log_stats then Some new_prefix_cache_stats else None),
             km_coordinator = c, km_num_groups = length (kv_cache_groups (ca_config a)),
             km_event_metadata = map (\<lambda>g. (get_kv_cache_spec_kind (group_spec g),
                                            get_kv_cache_spec_sliding_window (group_spec g)))
                                     (kv_cache_groups (ca_config a))\<rparr>))"

definition km_usage :: "kv_cache_manager \<Rightarrow> rat" where
  "km_usage k = get_usage (km_pool k)"

definition make_prefix_cache_stats :: "kv_cache_manager \<Rightarrow> prefix_cache_stats option \<times> kv_cache_manager" where
  "make_prefix_cache_stats k =
     (if \<not> km_log_stats k then (None, k)
      else (km_prefix_cache_stats k, k\<lparr>km_prefix_cache_stats := Some new_prefix_cache_stats\<rparr>))"

definition create_kv_cache_blocks :: "kv_cache_manager \<Rightarrow> addr list list \<Rightarrow> kv_cache_blocks" where
  "create_kv_cache_blocks k bs =
     (if \<exists>b \<in> set bs. b \<noteq> [] then KVCacheBlocks bs else empty_kv_cache_blocks k)"

definition get_computed_blocks ::
  "request \<Rightarrow> kv_cache_manager \<Rightarrow> (kv_cache_blocks \<times> int \<times> kv_cache_manager) result" where
  "get_computed_blocks r k =
     (if \<not> km_enable_caching k \<or> skip_reading_prefix_cache r then Inr (empty_kv_cache_blocks k, 0, k)
      else
        let max_cache_hit_length = num_tokens r - 1 in
        bindE (coord_find_longest_cache_hit (block_hashes r) max_cache_hit_length (km_coordinator k))
          (\<lambda>(computed_blocks, num_new_computed_tokens).
        bindE (if km_log_stats k
               then (case km_prefix_cache_stats k of
                       None \<Rightarrow> Inl AssertionError
                     | Some s \<Rightarrow> Inr (k\<lparr>km_prefix_cache_stats :=
                         Some (record_stats (num_tokens r) num_new_computed_tokens (num_preemptions r > 0) s)\<rparr>))
               else Inr k) (\<lambda>k.
          Inr (create_kv_cache_blocks k computed_blocks, num_new_computed_tokens, k))))"

subsection \<open>Allocation\<close>

record slot_args =
  num_new_tokens :: int
  num_new_computed_tokens :: int
  new_computed_blocks :: "kv_cache_blocks option"
  num_lookahead_tokens :: int
  num_external_computed_tokens :: int
  delay_cache_blocks :: bool
  num_encoder_tokens :: int
  full_sequence_must_fit :: bool
  reserved_blocks :: int

definition computed_block_list :: "slot_args \<Rightarrow> kv_cache_manager \<Rightarrow> kv_cache_blocks" where
  "computed_block_list a k =
     (case new_computed_blocks a of Some bs \<Rightarrow> bs | None \<Rightarrow> empty_kv_cache_blocks k)"

definition local_computed :: "request \<Rightarrow> slot_args \<Rightarrow> int" where
  "local_computed r a = num_computed_tokens r + num_new_computed_tokens a"

definition total_computed :: "request \<Rightarrow> slot_args \<Rightarrow> kv_cache_manager \<Rightarrow> int" where
  "total_computed r a k = min (local_computed r a + num_external_computed_tokens a) (km_max_model_len k)"

text \<open>The gate for the full sequence.\<close>

definition full_sequence_fits :: "request \<Rightarrow> slot_args \<Rightarrow> kv_cache_manager \<Rightarrow> (bool \<times> coordinator) result" where
  "full_sequence_fits r a k =
     (if full_sequence_must_fit a
      then
        let full_num_tokens = min (num_tokens r) (km_max_model_len k) in
        bindE (coord_get_num_blocks_to_allocate (request_id r) full_num_tokens (blocks (computed_block_list a k))
                 (num_encoder_tokens a) (total_computed r a k) full_num_tokens True (km_coordinator k)) (\<lambda>(n, c).
          Inr (\<not> n > get_num_free_blocks (c_pool c), c))
      else Inr (True, km_coordinator k))"

text \<open>The stages after the second gate: attach the computed blocks, allocate, and cache.\<close>

definition place_slots ::
  "hash_env \<Rightarrow> request \<Rightarrow> slot_args \<Rightarrow> kv_cache_manager \<Rightarrow> coordinator \<Rightarrow>
     (addr list list \<times> request \<times> coordinator) result" where
  "place_slots env r a k c =
     (let num_tokens_main_model = total_computed r a k + num_new_tokens a;
          num_tokens_need_slot = min (num_tokens_main_model + num_lookahead_tokens a) (km_max_model_len k)
      in
      bindE (if computed_block_list a k \<noteq> empty_kv_cache_blocks k \<or> num_external_computed_tokens a > 0
             then coord_allocate_new_computed_blocks env (request_id r) (blocks (computed_block_list a k))
                    (local_computed r a) (num_external_computed_tokens a) c
             else Inr c) (\<lambda>c.
      bindE (coord_allocate_new_blocks env (request_id r) num_tokens_need_slot num_tokens_main_model
               (num_encoder_tokens a) c) (\<lambda>(new_blocks, c).
      if \<not> km_enable_caching k \<or> delay_cache_blocks a then Inr (new_blocks, r, c)
      else
        bindE (coord_cache_blocks env r (min (total_computed r a k + num_new_tokens a) (num_tokens r)) c) (\<lambda>(r, c).
          Inr (new_blocks, r, c)))))"

definition allocate_slots ::
  "hash_env \<Rightarrow> request \<Rightarrow> slot_args \<Rightarrow> kv_cache_manager \<Rightarrow>
     (kv_cache_blocks option \<times> request \<times> kv_cache_manager) result" where
  "allocate_slots env r a k =
     (if num_new_tokens a = 0 \<and> num_external_computed_tokens a = 0 then Inl ValueError
      else
        bindE (full_sequence_fits r a k) (\<lambda>(fits, c).
        if \<not> fits then Inr (None, r, k\<lparr>km_coordinator := c\<rparr>)
        else
          let num_tokens_main_model = total_computed r a k + num_new_tokens a;
              num_tokens_need_slot = min (num_tokens_main_model + num_lookahead_tokens a) (km_max_model_len k)
          in
          bindE (coord_remove_skipped_blocks (request_id r) (total_computed r a k) c) (\<lambda>c.
          bindE (coord_get_num_blocks_to_allocate (request_id r) num_tokens_need_slot
                   (blocks (computed_block_list a k)) (num_encoder_tokens a)
                   (local_computed r a + num_external_computed_tokens a) num_tokens_main_model False c) (\<lambda>(n, c).
          if n > get_num_free_blocks (c_pool c) - reserved_blocks a then Inr (None, r, k\<lparr>km_coordinator := c\<rparr>)
          else
            bindE (place_slots env r a k c) (\<lambda>(new_blocks, r, c).
              Inr (Some (create_kv_cache_blocks k new_blocks), r, k\<lparr>km_coordinator := c\<rparr>))))))"

subsection \<open>The other operations\<close>

definition km_free :: "request \<Rightarrow> kv_cache_manager \<Rightarrow> kv_cache_manager result" where
  "km_free r k = bindE (coord_free (request_id r) (km_coordinator k)) (\<lambda>c. Inr (k\<lparr>km_coordinator := c\<rparr>))"

definition km_remove_skipped_blocks :: "string \<Rightarrow> int \<Rightarrow> kv_cache_manager \<Rightarrow> kv_cache_manager result" where
  "km_remove_skipped_blocks rid total_computed_tokens k =
     bindE (coord_remove_skipped_blocks rid total_computed_tokens (km_coordinator k)) (\<lambda>c.
       Inr (k\<lparr>km_coordinator := c\<rparr>))"

definition km_evict_blocks :: "hash_env \<Rightarrow> int list \<Rightarrow> kv_cache_manager \<Rightarrow> kv_cache_manager result" where
  "km_evict_blocks env block_ids k =
     bindE (evict_blocks env block_ids (km_pool k)) (\<lambda>p.
       Inr (k\<lparr>km_coordinator := (km_coordinator k)\<lparr>c_pool := p\<rparr>\<rparr>))"

definition km_reset_prefix_cache :: "kv_cache_manager \<Rightarrow> (bool \<times> kv_cache_manager) result" where
  "km_reset_prefix_cache k =
     (let (done, p) = reset_prefix_cache (km_pool k);
          k = k\<lparr>km_coordinator := (km_coordinator k)\<lparr>c_pool := p\<rparr>\<rparr>
      in if \<not> done then Inr (False, k)
         else if km_log_stats k
         then (case km_prefix_cache_stats k of
                 None \<Rightarrow> Inl AssertionError
               | Some s \<Rightarrow> Inr (True, k\<lparr>km_prefix_cache_stats := Some (s\<lparr>ps_reset := True\<rparr>)\<rparr>))
         else Inr (True, k))"

definition km_get_num_common_prefix_blocks :: "string \<Rightarrow> kv_cache_manager \<Rightarrow> int list \<times> kv_cache_manager" where
  "km_get_num_common_prefix_blocks rid k =
     (let (ns, c) = coord_get_num_common_prefix_blocks rid (km_coordinator k) in (ns, k\<lparr>km_coordinator := c\<rparr>))"

text \<open>Events with the two attributes that \<open>take_events\<close> adds to stored blocks.\<close>

record annotated_event =
  ev_event :: kv_cache_event
  ev_spec_kind :: "kv_cache_spec_kind option"
  ev_spec_sliding_window :: "int option"

definition annotate_event :: "(kv_cache_spec_kind \<times> int option) list \<Rightarrow> kv_cache_event \<Rightarrow> annotated_event" where
  "annotate_event metadata event =
     (case event of
        BlockStored e \<Rightarrow>
          if ev_group_idx e < 0 \<or> ev_group_idx e \<ge> int (length metadata)
          then \<lparr>ev_event = event, ev_spec_kind = None, ev_spec_sliding_window = None\<rparr>
          else (case metadata ! nat (ev_group_idx e) of
                  (kind, sliding_window) \<Rightarrow>
                    \<lparr>ev_event = event, ev_spec_kind = Some kind, ev_spec_sliding_window = sliding_window\<rparr>)
      | _ \<Rightarrow> \<lparr>ev_event = event, ev_spec_kind = None, ev_spec_sliding_window = None\<rparr>)"

definition take_events :: "kv_cache_manager \<Rightarrow> annotated_event list \<times> kv_cache_manager" where
  "take_events k =
     (let (events, p) = pool_take_events (km_pool k)
      in (map (annotate_event (km_event_metadata k)) events,
          k\<lparr>km_coordinator := (km_coordinator k)\<lparr>c_pool := p\<rparr>\<rparr>))"

definition get_blocks :: "string \<Rightarrow> kv_cache_manager \<Rightarrow> kv_cache_blocks" where
  "get_blocks rid k = create_kv_cache_blocks k (coord_get_blocks rid (km_coordinator k))"

definition get_block_ids :: "string \<Rightarrow> kv_cache_manager \<Rightarrow> int list list option" where
  "get_block_ids rid k = blocks_get_block_ids (km_pool k) (get_blocks rid k) False"

definition km_cache_blocks :: "hash_env \<Rightarrow> request \<Rightarrow> int \<Rightarrow> kv_cache_manager \<Rightarrow> (request \<times> kv_cache_manager) result" where
  "km_cache_blocks env r computed k =
     (if km_enable_caching k
      then bindE (coord_cache_blocks env r computed (km_coordinator k)) (\<lambda>(r, c). Inr (r, k\<lparr>km_coordinator := c\<rparr>))
      else Inr (r, k))"

definition km_take_new_block_ids :: "kv_cache_manager \<Rightarrow> int list \<times> kv_cache_manager" where
  "km_take_new_block_ids k =
     (let rs = map take_new_block_ids (managers (km_coordinator k))
      in (concat (map fst rs), k\<lparr>km_coordinator := (km_coordinator k)\<lparr>managers := map snd rs\<rparr>\<rparr>))"

definition km_new_step_starts :: "kv_cache_manager \<Rightarrow> kv_cache_manager" where
  "km_new_step_starts k = k\<lparr>km_coordinator := coord_new_step_starts (km_coordinator k)\<rparr>"

end
