(* ===== verification/Shared_Ownership.thy ===== *)
theory Shared_Ownership
  imports KV_Cache_Manager
begin

section \<open>All managers share one pool\<close>

text \<open>
  The managers of all KV-cache groups take blocks from one pool. The invariant \<open>coord_ok\<close> says that every
  usable block has as many references as it is listed by the managers, over all requests. The locale
  \<open>manager_op\<close> states what one manager owes for one operation, given that the others hold the rest of the
  references; the loop over all managers is verified once inside it, and every operation of the
  coordinator is an interpretation. The invariant of the KV-cache manager follows.
\<close>

subsection \<open>Requests are kept apart\<close>

text \<open>An operation for one request leaves the blocks of all others alone, and does not shorten its list.\<close>

definition keeps :: "string \<Rightarrow> type_manager \<Rightarrow> type_manager \<Rightarrow> bool" where
  "keeps rid m m' \<longleftrightarrow> (\<forall>r. r \<noteq> rid \<longrightarrow> blocks_of m' r = blocks_of m r) \<and>
     length (blocks_of m rid) \<le> length (blocks_of m' rid) \<and> allocated_block_reqs m' = allocated_block_reqs m \<and>
     m_class m' = m_class m \<and> m_spec m' = m_spec m"

lemma keeps_align:
  assumes "keeps rid m m'" and "align_ok m"
  shows "align_ok m'"
  unfolding align_ok_def
proof (intro ballI)
  fix r assume "r \<in> set (allocated_block_reqs m')"
  then have "m_class m = MambaManager" "spec_mamba_cache_mode (m_spec m) = ''align''"
    "spec_num_speculative_blocks (m_spec m) \<le> int (length (blocks_of m r))"
    using assms by (auto simp: keeps_def align_ok_def)
  moreover have "length (blocks_of m r) \<le> length (blocks_of m' r)"
    using assms(1) by (cases "r = rid") (auto simp: keeps_def)
  ultimately show "m_class m' = MambaManager \<and> spec_mamba_cache_mode (m_spec m') = ''align'' \<and>
      spec_num_speculative_blocks (m_spec m') \<le> int (length (blocks_of m' r))"
    using assms(1) by (auto simp: keeps_def)
qed

lemma keeps_refl [simp]: "keeps rid m m"
  by (simp add: keeps_def)

lemma keeps_trans: "keeps rid m m1 \<Longrightarrow> keeps rid m1 m2 \<Longrightarrow> keeps rid m m2"
  by (auto simp: keeps_def)

lemma keeps_store [simp]: "length (blocks_of m rid) \<le> length bs \<Longrightarrow> keeps rid m (store_blocks rid bs m)"
  by (simp add: keeps_def)

lemma blocks_of_note [simp]: "blocks_of (note_new_blocks p bs m) r = blocks_of m r"
  by (simp add: blocks_of_def)

lemma keeps_note [simp]: "keeps rid m (note_new_blocks p bs m') = keeps rid m m'"
  by (simp add: keeps_def)

lemma keeps_cached [simp]: "keeps rid m (m'\<lparr>num_cached_block := d\<rparr>) = keeps rid m m'"
  by (simp add: keeps_def blocks_of_def)

lemma keeps_step [simp]: "keeps rid m (m'\<lparr>cached_blocks_this_step := d\<rparr>) = keeps rid m m'"
  by (simp add: keeps_def blocks_of_def)

lemma skip_loop_length: "skip_loop p n bs = (c, u, bs') \<Longrightarrow> n \<le> length bs \<Longrightarrow> length bs' = length bs"
  by (rule skip_loop_law(1))

lemma base_remove_keeps:
  assumes "base_remove_skipped_blocks rid t m p = Inr (m', p')"
  shows "keeps rid m m'"
  using assms
  by (auto simp: base_remove_skipped_blocks_def bindE_Inr_iff Let_def split: if_splits prod.splits
      dest!: skip_loop_length)

lemma remove_skipped_keeps:
  assumes "remove_skipped_blocks rid t m p = Inr (m', p')"
  shows "keeps rid m m'"
proof (cases "m_class m = MambaManager")
  case False
  with assms base_remove_keeps show ?thesis by (auto simp: remove_skipped_blocks_def)
next
  case True
  with assms obtain m1 p1 where
    b: "base_remove_skipped_blocks rid (max 0 (t - spec_num_speculative_blocks (m_spec m))) m p = Inr (m1, p1)"
    and m': "keeps rid m1 m'"
    by (auto simp: remove_skipped_blocks_def mamba_remove_skipped_blocks_def bindE_Inr_iff Let_def
        split: if_splits option.splits)
  from base_remove_keeps[OF b] m' show ?thesis by (rule keeps_trans)
qed

lemma base_allocate_keeps:
  assumes "base_allocate_new_blocks env rid t m p = Inr (new, m', p')"
  shows "keeps rid m m'"
  using assms by (auto simp: base_allocate_new_blocks_def bindE_Inr_iff Let_def split: if_splits)

lemma computed_keeps:
  assumes "allocate_new_computed_blocks env rid new lt et m p = Inr (m', p')"
  shows "keeps rid m m'"
proof (cases "m_class m = CrossAttentionManager \<or> rid \<in> set (dict_keys (num_cached_block m))")
  case True
  with assms have "m' = m"
    by (auto simp: allocate_new_computed_blocks_def base_allocate_new_computed_blocks_def bindE_Inr_iff split: if_splits)
  then show ?thesis by simp
next
  case False
  with assms obtain new' k et' t where emp: "blocks_of m rid = []" and
    op: "attach_computed_blocks env rid new' k et' t m p = Inr (m', p')"
    by (auto simp: allocate_new_computed_blocks_def base_allocate_new_computed_blocks_def bindE_Inr_iff Let_def
        split: if_splits)
  have "\<exists>bs d. req_to_blocks m' = dict_set rid bs (req_to_blocks m)" and "allocated_block_reqs m' = allocated_block_reqs m"
    and "m_class m' = m_class m" "m_spec m' = m_spec m"
    using op by (auto simp: attach_computed_blocks_def bindE_Inr_iff Let_def split: if_splits)
  with emp show ?thesis by (auto simp: keeps_def blocks_of_def)
qed

lemma cache_keeps:
  assumes "cache_blocks env r t ri m p = Inr (r', m', p')"
  shows "keeps (request_id r) m m'"
proof -
  have base: "keeps (request_id r) m m'" if "base_cache_blocks env r t ri m p = Inr (r', m', p')" for r' m' p'
    using that by (auto simp: base_cache_blocks_def bindE_Inr_iff Let_def split: if_splits)
  have fold: "keeps rid m0 m2" if "foldE (\<lambda>block m. if is_null (blk p block) then Inr m
      else (case block_hash (blk p block) of None \<Rightarrow> Inl AssertionError
            | Some h \<Rightarrow> Inr (m\<lparr>cached_blocks_this_step := List.insert h (cached_blocks_this_step m)\<rparr>))) bs m1 = Inr m2"
    "keeps rid m0 m1" for bs m0 m1 m2 p and rid
    using that
  proof (induction bs arbitrary: m1)
    case (Cons b bs)
    then show ?case by (auto simp: bindE_Inr_iff split: if_splits option.splits)
  qed simp
  show ?thesis
  proof (cases "m_class m = MambaManager")
    case True
    with assms have "mamba_cache_blocks env r t ri m p = Inr (r', m', p')" by (simp add: cache_blocks_def)
    then obtain r1 m1 p1 where b: "base_cache_blocks env r t ri m p = Inr (r1, m1, p1)"
      and "m' = m1 \<or> (\<exists>bs. foldE (\<lambda>block m. if is_null (blk p1 block) then Inr m
        else (case block_hash (blk p1 block) of None \<Rightarrow> Inl AssertionError
            | Some h \<Rightarrow> Inr (m\<lparr>cached_blocks_this_step := List.insert h (cached_blocks_this_step m)\<rparr>))) bs
          (store_blocks (request_id r) (blocks_of m1 (request_id r)) m1) = Inr m')"
      by (auto simp: mamba_cache_blocks_def bindE_Inr_iff Let_def split: if_splits)
    then show ?thesis using base[OF b] fold[of p1 _ _ m' "request_id r" m1] keeps_trans by fastforce
  next
    case False
    with assms base show ?thesis by (auto simp: cache_blocks_def split: manager_class.splits)
  qed
qed

lemma align_allocate_align:
  assumes pool: "pool_rep p fl" and al: "align_ok m" and st: "static_ok m"
    and cls: "m_class m = MambaManager" "spec_mamba_cache_mode (m_spec m) = ''align''" and t: "0 \<le> t"
    and op: "align_allocate_new_blocks env rid t m p = Inr (new, m', p')"
  shows "align_ok m' \<and> (\<forall>r. r \<noteq> rid \<longrightarrow> blocks_of m' r = blocks_of m r)"
proof -
  let ?bl = "blocks_of m rid" and ?sp = "spec_num_speculative_blocks (m_spec m)"
  let ?r = "cdiv t (m_block_size m) + ?sp"
  have sp: "0 \<le> ?sp" and pos: "0 < m_block_size m" using st cls by (auto simp: static_ok_def)
  have c0: "0 \<le> cdiv t (m_block_size m)" using pos t by (rule cdiv_nonneg)
  note op' = op[unfolded align_allocate_new_blocks_def Let_def]
  show ?thesis
  proof (cases "?r \<le> int (length ?bl)")
    case True
    with op' have "m' = store_blocks rid ?bl m" by (auto simp: bindE_Inr_iff)
    then have k: "keeps rid m m'" by simp
    from keeps_align[OF k al] k show ?thesis by (simp add: keeps_def)
  next
    case False
    let ?al = "rid \<in> set (allocated_block_reqs m)" and ?sk = "?r - ?sp - 1" and ?len = "int (length ?bl)"
    let ?ext = "if ?len < ?sk then ?bl @ replicate (nat (?sk - ?len)) (null_block p) else ?bl"
    from op' False obtain bs nw where
      bs: "(if ?al then reuse_loop (null_block p) ?sk [?len - ?sp..?len - 1] ?ext else Inr ?ext) = Inr bs"
      and new: "get_new_blocks env (?r - int (length bs)) p = Inr (nw, p')"
      and m': "req_to_blocks m' = dict_set rid (bs @ nw) (req_to_blocks m)" "m_class m' = m_class m"
        "m_spec m' = m_spec m" "allocated_block_reqs m' = List.insert rid (allocated_block_reqs m)"
      by (auto simp: bindE_Inr_iff simp del: upto.simps split: prod.splits if_splits)
    have bl: "blocks_of m' r = (if r = rid then bs @ nw else blocks_of m r)" for r
      by (simp add: blocks_of_def m'(1))
    have "?sp \<le> int (length (bs @ nw))"
    proof (cases ?al)
      case True
      then have "?sp \<le> ?len" using al by (simp add: align_ok_def)
      then have "\<forall>i \<in> set [?len - ?sp..?len - 1]. 0 \<le> i" by simp
      with reuse_loop_law(3) bs True have "length ?ext \<le> length bs" by presburger
      with \<open>?sp \<le> ?len\<close> show ?thesis by (auto split: if_splits)
    next
      case f: False
      with bs have "bs = ?ext" by simp
      then have "0 \<le> ?r - int (length bs)" using False sp by auto
      from new_counts(1)[OF pool this new] c0 show ?thesis by simp
    qed
    then show ?thesis using al cls m' bl unfolding align_ok_def by (simp add: bl)
  qed
qed

lemma allocate_keeps:
  assumes pool: "pool_rep p fl" and al: "align_ok m" and st: "static_ok m" and t: "0 \<le> tm"
    and op: "allocate_new_blocks env rid t tm m p = Inr (new, m', p')"
  shows "align_ok m' \<and> (\<forall>r. r \<noteq> rid \<longrightarrow> blocks_of m' r = blocks_of m r)"
proof (cases "m_class m = MambaManager \<and> spec_mamba_cache_mode (m_spec m) = ''align''")
  case True
  with op have "align_allocate_new_blocks env rid tm m p = Inr (new, m', p')"
    by (auto simp: allocate_new_blocks_def mamba_allocate_new_blocks_def bindE_Inr_iff Let_def)
  with align_allocate_align[OF pool al st _ _ t] True show ?thesis by blast
next
  case False
  with op obtain t' where "base_allocate_new_blocks env rid t' m p = Inr (new, m', p')"
    by (auto simp: allocate_new_blocks_def mamba_allocate_new_blocks_def bindE_Inr_iff Let_def split: if_splits)
  from base_allocate_keeps[OF this] keeps_align[OF _ al] show ?thesis by (auto simp: keeps_def)
qed

lemma allocate_balanced:
  assumes pool: "pool_rep p fl" and own: "owner_ok m p" and al: "align_ok m" and st: "static_ok m"
    and op: "allocate_new_blocks env rid t tm m p = Inr (new, m', p')"
  shows "balanced m p m' p'"
proof (cases "m_class m = MambaManager \<and> spec_mamba_cache_mode (m_spec m) = ''align''")
  case True
  with op have "align_allocate_new_blocks env rid tm m p = Inr (new, m', p')"
    by (auto simp: allocate_new_blocks_def mamba_allocate_new_blocks_def bindE_Inr_iff Let_def)
  moreover have "0 \<le> spec_num_speculative_blocks (m_spec m)" using True st by (simp add: static_ok_def)
  ultimately show ?thesis by (intro align_allocate_balanced[OF pool own al])
next
  case False
  with op obtain t' where "base_allocate_new_blocks env rid t' m p = Inr (new, m', p')"
    by (auto simp: allocate_new_blocks_def mamba_allocate_new_blocks_def bindE_Inr_iff Let_def split: if_splits)
  then show ?thesis by (rule base_allocate_balanced[OF pool own])
qed

lemma free_align:
  assumes al: "align_ok m" and op: "free_request rid m p = Inr (m', p')"
  shows "align_ok m'"
proof -
  let ?a = "m_class m = MambaManager \<and> spec_mamba_cache_mode (m_spec m) = ''align''"
  have f: "base_free rid m0 p = Inr (m1, p1) \<Longrightarrow> m1 = forget_request rid m0"
    "swa_free rid m0 p = Inr (m1, p1) \<Longrightarrow> m1 = forget_request rid m0" for m0 m1 p1
    by (auto simp: base_free_def swa_free_def bindE_Inr_iff Let_def)
  show ?thesis
  proof (cases ?a)
    case True
    with op f(1) have "m' = forget_request rid (m\<lparr>allocated_block_reqs := removeAll rid (allocated_block_reqs m),
        last_state_block_idx := dict_del rid (last_state_block_idx m)\<rparr>)" by (auto simp: free_request_def)
    then show ?thesis using al by (auto simp: align_ok_def forget_request_def blocks_of_def)
  next
    case False
    with al have "allocated_block_reqs m = []" by (cases "allocated_block_reqs m") (auto simp: align_ok_def)
    moreover have "m' = forget_request rid m" using op False f by (auto simp: free_request_def split: if_splits)
    ultimately show ?thesis by (simp add: align_ok_def forget_request_def)
  qed
qed

lemma get_num_keeps:
  assumes "get_num_blocks_to_allocate rid t new tc tm cap m p = Inr (n, m')"
  shows "m' = m \<or> m' = store_blocks rid (blocks_of m rid) m"
  using assms
  by (auto simp: get_num_blocks_to_allocate_def mamba_get_num_blocks_to_allocate_def bindE_Inr_iff Let_def
      split: if_splits)

subsection \<open>Loops over the managers\<close>

definition total_held :: "type_manager list \<Rightarrow> addr \<Rightarrow> nat" where
  "total_held ms b = sum_list (map (\<lambda>m. held m b) ms)"

definition managers_ok :: "type_manager list \<Rightarrow> block_pool \<Rightarrow> bool" where
  "managers_ok ms p \<longleftrightarrow> (\<forall>m \<in> set ms. manager_ok m p \<and> static_ok m \<and> align_ok m)"

lemma total_held_simps [simp]:
  "total_held [] b = 0" "total_held (m # ms) b = held m b + total_held ms b"
  by (simp_all add: total_held_def)

lemma balanced_static: "balanced m p m' p' \<Longrightarrow> static_ok m = static_ok m'"
  by (simp add: balanced_def static_ok_def)

lemma managers_ok_same: "same_config p' p \<Longrightarrow> managers_ok ms p' = managers_ok ms p"
  by (simp add: managers_ok_def manager_ok_same)

text \<open>Every reference to a block is a holding of a manager.\<close>

definition shared_ok :: "type_manager list \<Rightarrow> block_pool \<Rightarrow> bool" where
  "shared_ok ms p \<longleftrightarrow> (\<exists>fl. pool_rep p fl) \<and> managers_ok ms p \<and>
     (\<forall>b \<in> usable p. ref_cnt (blk p b) = int (total_held ms b))"

text \<open>The blocks of all other requests stay as they are, and so does the configuration of the manager.\<close>

definition other_kept :: "string \<Rightarrow> type_manager \<Rightarrow> type_manager \<Rightarrow> bool" where
  "other_kept rid m' m \<longleftrightarrow> m_block_size m' = m_block_size m \<and> m_class m' = m_class m \<and> m_spec m' = m_spec m \<and>
     (\<forall>r. r \<noteq> rid \<longrightarrow> blocks_of m' r = blocks_of m r)"

abbreviation others_kept :: "string \<Rightarrow> type_manager list \<Rightarrow> type_manager list \<Rightarrow> bool" where
  "others_kept rid \<equiv> list_all2 (other_kept rid)"

lemma others_kept_refl [simp]: "others_kept rid ms ms"
  by (simp add: other_kept_def list.rel_refl)

lemma others_kept_trans:
  assumes "others_kept rid ms2 ms1" and "others_kept rid ms1 ms"
  shows "others_kept rid ms2 ms"
  by (rule list_all2_trans[OF _ assms]) (simp add: other_kept_def)

text \<open>What an operation owes for one manager; \<open>pool_of\<close> reads the pool from the threaded state.\<close>

locale manager_op =
  fixes f :: "'a \<Rightarrow> type_manager \<Rightarrow> 's \<Rightarrow> ('b \<times> type_manager \<times> 's) result"
    and pool_of :: "'s \<Rightarrow> block_pool" and pre :: "'a \<Rightarrow> type_manager \<Rightarrow> block_pool \<Rightarrow> bool"
    and good :: "'s \<Rightarrow> bool" and rid :: string
  assumes op_balanced: "f a m s = Inr (x, m', s') \<Longrightarrow> good s \<Longrightarrow> pre a m (pool_of s) \<Longrightarrow> pool_rep (pool_of s) fl \<Longrightarrow>
      owner_ok m (pool_of s) \<Longrightarrow> static_ok m \<Longrightarrow> align_ok m \<Longrightarrow>
      balanced m (pool_of s) m' (pool_of s') \<and> align_ok m' \<and> good s' \<and>
      (\<forall>r. r \<noteq> rid \<longrightarrow> blocks_of m' r = blocks_of m r)"
    and pre_same: "same_config p' p \<Longrightarrow> pre a m p \<Longrightarrow> pre a m p'"
begin

lemma each_manager_balanced:
  assumes "each_manager f ams s = Inr (xs, ms', s')" and "good s" and "\<forall>(a, m) \<in> set ams. pre a m (pool_of s)"
    and "\<exists>fl. pool_rep (pool_of s) fl" and "managers_ok (map snd ams) (pool_of s)"
    and "\<forall>b \<in> usable (pool_of s). int (total_held (map snd ams) b) \<le> ref_cnt (blk (pool_of s) b)"
  shows "(\<exists>fl. pool_rep (pool_of s') fl) \<and> same_config (pool_of s') (pool_of s) \<and> managers_ok ms' (pool_of s') \<and>
     others_kept rid ms' (map snd ams) \<and>
     (\<forall>b \<in> usable (pool_of s). ref_cnt (blk (pool_of s') b) + int (total_held (map snd ams) b) =
        ref_cnt (blk (pool_of s) b) + int (total_held ms' b))"
  using assms
proof (induction ams arbitrary: s xs ms')
  case Nil
  then show ?case by (auto simp: managers_ok_def)
next
  case (Cons am ams)
  obtain a m where am: "am = (a, m)" by (cases am)
  from Cons.prems(1) am obtain x m1 s1 xs1 ms1 where
    op: "f a m s = Inr (x, m1, s1)" and rest: "each_manager f ams s1 = Inr (xs1, ms1, s')" and ms': "ms' = m1 # ms1"
    by (auto simp: bindE_Inr_iff)
  let ?p = "pool_of s" and ?p1 = "pool_of s1"
  have mok: "manager_ok m ?p" and st: "static_ok m" and al: "align_ok m"
    using Cons.prems(5) am by (simp_all add: managers_ok_def)
  have bound: "int (held m b) + int (total_held (map snd ams) b) \<le> ref_cnt (blk ?p b)" if "b \<in> usable ?p" for b
    using bspec[OF Cons.prems(6) that] am by simp
  have "int (held m b) \<le> ref_cnt (blk ?p b)" if "b \<in> usable ?p" for b using bound[OF that] by simp
  then have own: "owner_ok m ?p" using mok by (simp add: owner_ok_def)
  from Cons.prems(4) obtain fl where "pool_rep ?p fl" by blast
  from op_balanced[OF op Cons.prems(2) _ this own st al] Cons.prems(3) am
  have b: "balanced m ?p m1 ?p1" "align_ok m1" "good s1" "\<forall>r. r \<noteq> rid \<longrightarrow> blocks_of m1 r = blocks_of m r" by auto
  have same: "same_config ?p1 ?p" and us: "usable ?p1 = usable ?p"
    and refs: "\<forall>b \<in> usable ?p. ref_cnt (blk ?p1 b) + int (held m b) = ref_cnt (blk ?p b) + int (held m1 b)"
    and rep1: "\<exists>fl. pool_rep ?p1 fl" and mok1: "manager_ok m1 ?p1" and st1: "static_ok m1"
    using b(1) st balanced_static[OF b(1)] by (auto simp: balanced_def)
  have oth: "managers_ok (map snd ams) ?p1"
    unfolding managers_ok_same[OF same] using Cons.prems(5) am by (simp add: managers_ok_def)
  have rest_refs: "\<forall>b \<in> usable ?p1. int (total_held (map snd ams) b) \<le> ref_cnt (blk ?p1 b)"
    unfolding us
  proof
    fix b assume b: "b \<in> usable ?p"
    show "int (total_held (map snd ams) b) \<le> ref_cnt (blk ?p1 b)" using bound[OF b] bspec[OF refs b] by simp
  qed
  have pre1: "\<forall>(a, m) \<in> set ams. pre a m ?p1" using Cons.prems(3) pre_same[OF same] by auto
  have ok1: "other_kept rid m1 m" using b(1,4) by (simp add: other_kept_def balanced_def)
  note ih = Cons.IH[OF rest b(3) pre1 rep1 oth rest_refs]
  then have "same_config (pool_of s') ?p" using same by (blast intro: same_config_trans)
  moreover have "managers_ok ms' (pool_of s')"
    using ih ms' mok1 b(2) st1 manager_ok_same[of "pool_of s'" ?p1] by (auto simp: managers_ok_def)
  moreover have "\<forall>b \<in> usable ?p. ref_cnt (blk (pool_of s') b) + int (total_held (map snd (am # ams)) b) =
        ref_cnt (blk ?p b) + int (total_held ms' b)"
  proof
    fix b assume b: "b \<in> usable ?p"
    have "ref_cnt (blk (pool_of s') b) + int (total_held (map snd ams) b) = ref_cnt (blk ?p1 b) + int (total_held ms1 b)"
      using ih b us by blast
    with bspec[OF refs b] show "ref_cnt (blk (pool_of s') b) + int (total_held (map snd (am # ams)) b) =
        ref_cnt (blk ?p b) + int (total_held ms' b)" by (simp add: am ms')
  qed
  moreover have "others_kept rid ms' (map snd (am # ams))"
    using ih ok1 by (simp add: ms' am)
  ultimately show ?case using ih by blast
qed

lemma each_manager_shared:
  assumes op: "each_manager f ams s = Inr (xs, ms', s')" and good: "good s" and pre: "\<forall>(a, m) \<in> set ams. pre a m (pool_of s)"
    and ok: "shared_ok (map snd ams) (pool_of s)"
  shows "shared_ok ms' (pool_of s') \<and> same_config (pool_of s') (pool_of s) \<and> others_kept rid ms' (map snd ams)"
proof -
  have refs: "\<forall>b \<in> usable (pool_of s). int (total_held (map snd ams) b) \<le> ref_cnt (blk (pool_of s) b)"
    using ok by (simp add: shared_ok_def)
  from ok have e: "\<exists>fl. pool_rep (pool_of s) fl" "managers_ok (map snd ams) (pool_of s)" by (simp_all add: shared_ok_def)
  note r = each_manager_balanced[OF op good pre e refs]
  have "ref_cnt (blk (pool_of s') b) = int (total_held ms' b)" if "b \<in> usable (pool_of s')" for b
  proof -
    have b: "b \<in> usable (pool_of s)" using that r usable_same by blast
    then have "ref_cnt (blk (pool_of s) b) = int (total_held (map snd ams) b)" using ok by (simp add: shared_ok_def)
    with r b show ?thesis by fastforce
  qed
  with r show ?thesis by (simp add: shared_ok_def)
qed

end

text \<open>An operation that returns for every manager returns for all of them.\<close>

locale total_manager_op = manager_op +
  assumes op_total: "good s \<Longrightarrow> pre a m (pool_of s) \<Longrightarrow> pool_rep (pool_of s) fl \<Longrightarrow> owner_ok m (pool_of s) \<Longrightarrow>
      static_ok m \<Longrightarrow> align_ok m \<Longrightarrow> \<exists>x m' s'. f a m s = Inr (x, m', s')"
begin

lemma each_manager_total:
  assumes "good s" and "\<forall>(a, m) \<in> set ams. pre a m (pool_of s)"
    and "\<exists>fl. pool_rep (pool_of s) fl" and "managers_ok (map snd ams) (pool_of s)"
    and "\<forall>b \<in> usable (pool_of s). int (total_held (map snd ams) b) \<le> ref_cnt (blk (pool_of s) b)"
  shows "\<exists>xs ms' s'. each_manager f ams s = Inr (xs, ms', s')"
  using assms
proof (induction ams arbitrary: s)
  case (Cons am ams)
  obtain a m where am: "am = (a, m)" by (cases am)
  let ?p = "pool_of s"
  have mok: "manager_ok m ?p" and st: "static_ok m" and al: "align_ok m" and rest: "managers_ok (map snd ams) ?p"
    using Cons.prems(4) am by (simp_all add: managers_ok_def)
  have bound: "int (held m b) + int (total_held (map snd ams) b) \<le> ref_cnt (blk ?p b)" if "b \<in> usable ?p" for b
    using bspec[OF Cons.prems(5) that] am by simp
  have "int (held m b) \<le> ref_cnt (blk ?p b)" if "b \<in> usable ?p" for b using bound[OF that] by simp
  then have own: "owner_ok m ?p" using mok by (simp add: owner_ok_def)
  from Cons.prems(3) obtain fl where fl: "pool_rep ?p fl" by blast
  have pre: "pre a m ?p" using Cons.prems(2) am by auto
  from op_total[OF Cons.prems(1) pre fl own st al] obtain x m1 s1 where op: "f a m s = Inr (x, m1, s1)" by blast
  from op_balanced[OF op Cons.prems(1) pre fl own st al]
  have b: "balanced m ?p m1 (pool_of s1)" "good s1" by auto
  then have same: "same_config (pool_of s1) ?p" and rep1: "\<exists>fl. pool_rep (pool_of s1) fl"
    and refs: "\<forall>b \<in> usable ?p. ref_cnt (blk (pool_of s1) b) + int (held m b) = ref_cnt (blk ?p b) + int (held m1 b)"
    by (simp_all add: balanced_def)
  have "int (total_held (map snd ams) b) \<le> ref_cnt (blk (pool_of s1) b)" if "b \<in> usable (pool_of s1)" for b
    using bound[of b] bspec[OF refs, of b] that usable_same[OF same] by simp
  moreover have pre1: "\<forall>(a, m) \<in> set ams. pre a m (pool_of s1)" using Cons.prems(2) pre_same[OF same] by auto
  ultimately have "\<exists>xs ms' s'. each_manager f ams s1 = Inr (xs, ms', s')"
    using Cons.IH[of s1] b(2) rep1 rest managers_ok_same[OF same] pre1 by blast
  then show ?case using op am by auto
qed simp

end

subsection \<open>The operations of the coordinator\<close>

lemma extra_keys_request:
  "generate_block_hash_extra_keys env r s e idx = Inr (k, idx', r') \<Longrightarrow> request_id r' = request_id r"
  by (auto simp: generate_block_hash_extra_keys_def bindE_Inr_iff Let_def gen_prompt_embeds_extra_hash_keys_def
      split: prod.splits option.splits if_splits)

lemma event_keys_request:
  "event_extra_keys env bm bs nc p bl is idx r = Inr (ks, r') \<Longrightarrow> request_id r' = request_id r"
  by (induction "is" arbitrary: idx r ks r')
     (auto simp: bindE_Inr_iff Let_def dest: extra_keys_request split: if_splits)

lemma cache_full_request:
  assumes "cache_full_blocks env bl nc nf bs g bm r p = Inr (r', p')"
  shows "request_id r' = request_id r"
  using assms
  by (auto simp: cache_full_blocks_def emit_block_stored_def bindE_Inr_iff Let_def dest: event_keys_request split: if_splits)

lemma base_cache_request:
  assumes "base_cache_blocks env r t ri m p = Inr (r', m', p')"
  shows "request_id r' = request_id r"
  using assms by (auto simp: base_cache_blocks_def bindE_Inr_iff Let_def dest: cache_full_request split: if_splits)

lemma cache_request:
  assumes "cache_blocks env r t ri m p = Inr (r', m', p')"
  shows "request_id r' = request_id r"
  using assms
  by (auto simp: cache_blocks_def mamba_cache_blocks_def bindE_Inr_iff Let_def dest: base_cache_request
      split: manager_class.splits if_splits)

interpretation free_op: manager_op "\<lambda>i m p. bindE (free_request rid m p) (\<lambda>(m, p). Inr ((), m, p))"
  "\<lambda>p. p" "\<lambda>_ _ _. True" "\<lambda>_. True" rid for rid
proof (unfold_locales, goal_cases)
  case (1 a m s x m' s' fl)
  from 1(1) have "free_request rid m s = Inr (m', s')" by (auto simp: bindE_Inr_iff)
  with free_request_balanced[OF 1(4,5), of rid] free_align[OF 1(7)] show ?case by auto
qed

interpretation skip_op: manager_op
  "\<lambda>i m p. bindE (remove_skipped_blocks rid t m p) (\<lambda>(m, p). Inr ((), m, p))"
  "\<lambda>p. p" "\<lambda>_ _ _. 0 \<le> t" "\<lambda>_. True" rid for rid t
proof (unfold_locales, goal_cases)
  case (1 a m s x m' s' fl)
  from 1(1) have op: "remove_skipped_blocks rid t m s = Inr (m', s')" by (auto simp: bindE_Inr_iff)
  from remove_skipped_balanced[OF 1(4,5,6,3) op] remove_skipped_keeps[OF op] keeps_align[OF _ 1(7)] show ?case
    by (auto simp: keeps_def)
qed

interpretation alloc_op: manager_op
  "\<lambda>i m p. allocate_new_blocks env rid (if m_class m = CrossAttentionManager then et else t) tm m p"
  "\<lambda>p. p" "\<lambda>_ _ _. 0 \<le> tm" "\<lambda>_. True" rid for env rid et t tm
proof (unfold_locales, goal_cases)
  case (1 a m s x m' s' fl)
  from allocate_balanced[OF 1(4,5,7,6) 1(1)] allocate_keeps[OF 1(4,7,6,3) 1(1)] show ?case by simp
qed

text \<open>The hit of a group fits the computed tokens.\<close>

definition group_computed_ok :: "addr list list \<Rightarrow> int \<Rightarrow> int \<Rightarrow> nat \<Rightarrow> type_manager \<Rightarrow> block_pool \<Rightarrow> bool" where
  "group_computed_ok bss local_tokens external_tokens i m p \<longleftrightarrow>
     i < length bss \<longrightarrow> computed_ok (bss ! i) local_tokens external_tokens m p"

interpretation computed_op: manager_op
  "\<lambda>i m p. bindE (py_index bss (int i)) (\<lambda>blocks.
     bindE (allocate_new_computed_blocks env rid blocks lt et m p) (\<lambda>(m, p). Inr ((), m, p)))"
  "\<lambda>p. p" "group_computed_ok bss lt et" "\<lambda>_. True" rid for env rid bss lt et
proof (unfold_locales, goal_cases)
  case (1 a m s x m' s' fl)
  from 1(1) have i: "a < length bss" and op: "allocate_new_computed_blocks env rid (bss ! a) lt et m s = Inr (m', s')"
    by (auto simp: bindE_Inr_iff split: if_splits)
  have "computed_ok (bss ! a) lt et m s" using 1(3) i by (simp add: group_computed_ok_def)
  from allocate_computed_balanced[OF 1(4,5,6) this op] computed_keeps[OF op] keeps_align[OF _ 1(7)] show ?case
    by (auto simp: keeps_def)
next
  case (2 p' p a m)
  then show ?case by (simp add: group_computed_ok_def computed_ok_def proper_same)
qed

interpretation cache_op: manager_op
  "\<lambda>i m (r, p). bindE (tokens_to_cache c computed m) (\<lambda>t.
     bindE (cache_blocks env r t (c_retention_interval c) m p) (\<lambda>(r, m, p). Inr ((), m, (r, p))))"
  snd "\<lambda>_ _ _. True" "\<lambda>(r, p). request_id r = rid" rid for env c computed rid
proof (unfold_locales, goal_cases)
  case (1 a m s x m' s' fl)
  obtain r p where s: "s = (r, p)" by (cases s)
  obtain r' p' where s': "s' = (r', p')" by (cases s')
  from 1(1) s s' obtain t where op: "cache_blocks env r t (c_retention_interval c) m p = Inr (r', m', p')"
    by (auto simp: bindE_Inr_iff)
  have rep: "pool_rep p fl" and mok: "manager_ok m p" using 1(4,5) s by (simp_all add: owner_ok_def)
  from cache_blocks_balanced[OF rep mok op] cache_keeps[OF op] keeps_align[OF _ 1(7)] cache_request[OF op] 1(2) s s'
  show ?case by (auto simp: keeps_def)
qed

interpretation predict_op: manager_op
  "\<lambda>i m p. bindE (if m_class m = CrossAttentionManager
                then get_num_blocks_to_allocate rid et [] 0 et cap m p
                else bindE (py_index bss (int i)) (\<lambda>blocks.
                       get_num_blocks_to_allocate rid t blocks tc tm cap m p)) (\<lambda>(n, m). Inr (n, m, p))"
  "\<lambda>p. p" "\<lambda>_ _ _. True" "\<lambda>_. True" rid for rid et cap bss t tc tm
proof (unfold_locales, goal_cases)
  case (1 a m s x m' s' fl)
  have mok: "manager_ok m s" using 1(5) by (simp add: owner_ok_def)
  from 1(1) have "s' = s" and "m' = m \<or> m' = store_blocks rid (blocks_of m rid) m"
    by (auto simp: bindE_Inr_iff split: if_splits dest!: get_num_keeps)
  moreover have "balanced m s m s" using 1(4) mok by (auto simp: balanced_def)
  moreover have "align_ok (store_blocks rid (blocks_of m rid) m)" by (rule keeps_align[of rid, OF _ 1(7)]) simp
  ultimately show ?case using store_same_balanced[OF 1(4) mok, of rid] 1(7) by auto
qed

abbreviation coord_ok :: "coordinator \<Rightarrow> bool" where
  "coord_ok c \<equiv> shared_ok (managers c) (c_pool c)"

text \<open>A step of the coordinator for one request.\<close>

definition coord_step :: "string \<Rightarrow> coordinator \<Rightarrow> coordinator \<Rightarrow> bool" where
  "coord_step rid c c' \<longleftrightarrow> coord_ok c' \<and> same_config (c_pool c') (c_pool c) \<and> others_kept rid (managers c') (managers c) \<and>
     c_class c' = c_class c \<and> c_groups c' = c_groups c"

lemma coord_step_refl: "coord_ok c \<Longrightarrow> coord_step rid c c"
  by (simp add: coord_step_def same_config_def)

lemma coord_step_trans:
  assumes "coord_step rid c c1" and "coord_step rid c1 c2"
  shows "coord_step rid c c2"
  using assms others_kept_trans[of rid "managers c2" "managers c1" "managers c"]
    same_config_trans[of "c_pool c2" "c_pool c1" "c_pool c"] by (simp add: coord_step_def)

lemma coord_free_step:
  assumes "coord_ok c" and "coord_free rid c = Inr c'"
  shows "coord_step rid c c'"
proof -
  from assms(2) obtain us ms p where
    l: "each_manager (\<lambda>i m p. bindE (free_request rid m p) (\<lambda>(m, p). Inr ((), m, p))) (enumerate 0 (managers c)) (c_pool c)
      = Inr (us, ms, p)" and c': "c' = c\<lparr>managers := ms, c_pool := p\<rparr>"
    by (auto simp: coord_free_def bindE_Inr_iff)
  from free_op.each_manager_shared[OF l] assms(1) c' show ?thesis by (simp add: coord_step_def)
qed

lemma coord_skip_step:
  assumes "coord_ok c" and "0 \<le> t" and "coord_remove_skipped_blocks rid t c = Inr c'"
  shows "coord_step rid c c'"
proof -
  from assms(3) obtain us ms p where
    l: "each_manager (\<lambda>i m p. bindE (remove_skipped_blocks rid t m p) (\<lambda>(m, p). Inr ((), m, p))) (enumerate 0 (managers c))
      (c_pool c) = Inr (us, ms, p)" and c': "c' = c\<lparr>managers := ms, c_pool := p\<rparr>"
    by (auto simp: coord_remove_skipped_blocks_def bindE_Inr_iff)
  from skip_op.each_manager_shared[OF l] assms(1,2) c' show ?thesis by (simp add: coord_step_def)
qed

lemma coord_allocate_step:
  assumes "coord_ok c" and "0 \<le> tm" and "coord_allocate_new_blocks env rid t tm et c = Inr (bss, c')"
  shows "coord_step rid c c'"
proof -
  from assms(3) obtain ms p where
    l: "each_manager (\<lambda>i m p. allocate_new_blocks env rid (if m_class m = CrossAttentionManager then et else t) tm m p)
      (enumerate 0 (managers c)) (c_pool c) = Inr (bss, ms, p)" and c': "c' = c\<lparr>managers := ms, c_pool := p\<rparr>"
    by (auto simp: coord_allocate_new_blocks_def bindE_Inr_iff)
  from alloc_op.each_manager_shared[OF l] assms(1,2) c' show ?thesis by (simp add: coord_step_def)
qed

lemma coord_computed_step:
  assumes "coord_ok c" and "\<forall>(i, m) \<in> set (enumerate 0 (managers c)). group_computed_ok bss lt et i m (c_pool c)"
    and "coord_allocate_new_computed_blocks env rid bss lt et c = Inr c'"
  shows "coord_step rid c c'"
proof -
  from assms(3) obtain us ms p where
    l: "each_manager (\<lambda>i m p. bindE (py_index bss (int i)) (\<lambda>blocks.
        bindE (allocate_new_computed_blocks env rid blocks lt et m p) (\<lambda>(m, p). Inr ((), m, p))))
      (enumerate 0 (managers c)) (c_pool c) = Inr (us, ms, p)" and c': "c' = c\<lparr>managers := ms, c_pool := p\<rparr>"
    by (auto simp: coord_allocate_new_computed_blocks_def bindE_Inr_iff simp del: py_index_of_nat)
  from computed_op.each_manager_shared[OF l] assms(1,2) c' show ?thesis by (simp add: coord_step_def)
qed

lemma coord_cache_step:
  assumes "coord_ok c" and "coord_cache_blocks env r t c = Inr (r', c')"
  shows "coord_step (request_id r) c c'"
proof -
  from assms(2) obtain us ms p where
    l: "each_manager (\<lambda>i m (r, p). bindE (tokens_to_cache c t m) (\<lambda>t.
          bindE (cache_blocks env r t (c_retention_interval c) m p) (\<lambda>(r, m, p). Inr ((), m, (r, p)))))
      (enumerate 0 (managers c)) (r, c_pool c) = Inr (us, ms, r', p)" and c': "c' = c\<lparr>managers := ms, c_pool := p\<rparr>"
    by (auto simp: coord_cache_blocks_def bindE_Inr_iff)
  from cache_op.each_manager_shared[OF l, of "request_id r"] assms(1) c' show ?thesis by (simp add: coord_step_def)
qed

lemma coord_predict_step:
  assumes "coord_ok c" and "coord_get_num_blocks_to_allocate rid t bss et tc tm cap c = Inr (n, c')"
  shows "coord_step rid c c' \<and> c_pool c' = c_pool c"
proof -
  from assms(2) obtain ns ms p where
    l: "each_manager (\<lambda>i m p. bindE (if m_class m = CrossAttentionManager
                then get_num_blocks_to_allocate rid et [] 0 et cap m p
                else bindE (py_index bss (int i)) (\<lambda>blocks.
                       get_num_blocks_to_allocate rid t blocks tc tm cap m p)) (\<lambda>(n, m). Inr (n, m, p)))
      (enumerate 0 (managers c)) (c_pool c) = Inr (ns, ms, p)" and c': "c' = c\<lparr>managers := ms\<rparr>"
    by (auto simp: coord_get_num_blocks_to_allocate_def bindE_Inr_iff simp del: py_index_of_nat)
  have "p = s" if "each_manager (\<lambda>i m p. bindE (g i m p) (\<lambda>(n, m). Inr (n, m, p))) ams s = Inr (ns, ms, p)"
    for g :: "nat \<Rightarrow> type_manager \<Rightarrow> block_pool \<Rightarrow> (int \<times> type_manager) result" and ams s ns ms
    using that by (induction ams arbitrary: s ns ms) (auto simp: bindE_Inr_iff)
  from this[OF l] predict_op.each_manager_shared[OF l] assms(1) c' show ?thesis by (simp add: coord_step_def)
qed

interpretation free_total: total_manager_op "\<lambda>i m p. bindE (free_request rid m p) (\<lambda>(m, p). Inr ((), m, p))"
  "\<lambda>p. p" "\<lambda>_ _ _. True" "\<lambda>_. True" rid for rid
proof (unfold_locales, goal_cases)
  case (1 s a m fl)
  from free_request_balanced[OF 1(3,4), of rid] show ?case by auto
qed

lemma each_free_gone:
  assumes "each_manager (\<lambda>i m p. bindE (free_request rid m p) (\<lambda>(m, p). Inr ((), m, p))) ams s = Inr (us, ms, p)"
  shows "\<forall>m \<in> set ms. blocks_of m rid = []"
  using assms
proof (induction ams arbitrary: s us ms)
  case (Cons am ams)
  have gone: "blocks_of m' rid = []" if "free_request rid m p = Inr (m', p')" for m m' p p'
    using that by (auto simp: free_request_def base_free_def swa_free_def bindE_Inr_iff Let_def split: if_splits)
  from Cons show ?case by (cases am) (auto simp: bindE_Inr_iff dest: gone)
qed simp

lemma coord_free_total:
  assumes "coord_ok c"
  shows "\<exists>c'. coord_free rid c = Inr c' \<and> coord_step rid c c' \<and> (\<forall>m \<in> set (managers c'). blocks_of m rid = [])"
proof -
  have "\<exists>us ms p. each_manager (\<lambda>i m p. bindE (free_request rid m p) (\<lambda>(m, p). Inr ((), m, p)))
      (enumerate 0 (managers c)) (c_pool c) = Inr (us, ms, p)"
    by (rule free_total.each_manager_total) (use assms in \<open>auto simp: shared_ok_def\<close>)
  then obtain us ms p where l: "each_manager (\<lambda>i m p. bindE (free_request rid m p) (\<lambda>(m, p). Inr ((), m, p)))
      (enumerate 0 (managers c)) (c_pool c) = Inr (us, ms, p)" by blast
  then have c': "coord_free rid c = Inr (c\<lparr>managers := ms, c_pool := p\<rparr>)" by (simp add: coord_free_def)
  with coord_free_step[OF assms c'] each_free_gone[OF l] show ?thesis by auto
qed

end
