(* ===== verification/Cache_Invariant.thy ===== *)
theory Cache_Invariant
  imports Shared_Ownership
begin

section \<open>The invariant of the KV-cache manager\<close>

text \<open>
  Every operation that \<open>KVCacheManager\<close> offers to the scheduler, as a step of a transition system. The
  invariant of \<open>Shared_Ownership\<close> holds initially and is kept by every step, so that in every reachable
  state a block has exactly the references which the block lists of the requests account for.
\<close>

text \<open>What the scheduler owes to \<open>allocate_slots\<close>: the hits are blocks of the pool, no longer than the computed tokens.\<close>

definition slots_ok :: "request \<Rightarrow> slot_args \<Rightarrow> kv_cache_manager \<Rightarrow> bool" where
  "slots_ok r a k \<longleftrightarrow> 0 \<le> local_computed r a \<and> 0 \<le> num_external_computed_tokens a \<and> 0 \<le> num_new_tokens a \<and>
     0 \<le> km_max_model_len k \<and>
     (\<forall>(i, m) \<in> set (enumerate 0 (managers (km_coordinator k))).
        group_computed_ok (blocks (computed_block_list a k)) (local_computed r a) (num_external_computed_tokens a)
          i m (km_pool k))"

inductive cache_step :: "hash_env \<Rightarrow> kv_cache_manager \<Rightarrow> kv_cache_manager \<Rightarrow> bool" for env where
  allocate: "slots_ok r a k \<Longrightarrow> allocate_slots env r a k = Inr (res, r', k') \<Longrightarrow> cache_step env k k'"
| free: "km_free r k = Inr k' \<Longrightarrow> cache_step env k k'"
| skip: "0 \<le> t \<Longrightarrow> km_remove_skipped_blocks rid t k = Inr k' \<Longrightarrow> cache_step env k k'"
| evict: "\<forall>i \<in> set ids. 0 \<le> i \<and> i < num_gpu_blocks (km_pool k) \<Longrightarrow> km_evict_blocks env ids k = Inr k' \<Longrightarrow>
    cache_step env k k'"
| reset: "km_reset_prefix_cache k = Inr (cleared, k') \<Longrightarrow> cache_step env k k'"
| cache: "km_cache_blocks env r t k = Inr (r', k') \<Longrightarrow> cache_step env k k'"
| look_up: "get_computed_blocks r k = Inr (bs, n, k') \<Longrightarrow> cache_step env k k'"
| common: "km_get_num_common_prefix_blocks rid k = (ns, k') \<Longrightarrow> cache_step env k k'"
| events: "take_events k = (es, k') \<Longrightarrow> cache_step env k k'"
| stats: "make_prefix_cache_stats k = (s, k') \<Longrightarrow> cache_step env k k'"
| new_ids: "km_take_new_block_ids k = (ids, k') \<Longrightarrow> cache_step env k k'"
| new_step: "cache_step env k (km_new_step_starts k)"

abbreviation km_ok :: "kv_cache_manager \<Rightarrow> bool" where
  "km_ok k \<equiv> coord_ok (km_coordinator k)"

subsection \<open>Allocation\<close>

lemma group_computed_kept:
  assumes "\<forall>(i, m) \<in> set (enumerate 0 ms). group_computed_ok bss lt et i m p" and "others_kept rid ms' ms"
    and "same_config p' p"
  shows "\<forall>(i, m) \<in> set (enumerate 0 ms'). group_computed_ok bss lt et i m p'"
proof -
  have "group_computed_ok bss lt et i (ms' ! i) p'" if "i < length ms'" for i
  proof -
    have l: "i < length ms" and b: "m_block_size (ms' ! i) = m_block_size (ms ! i)"
      using assms(2) that by (auto simp: list_all2_conv_all_nth other_kept_def)
    then have "(i, ms ! i) \<in> set (enumerate 0 ms)" by (auto simp: in_set_enumerate_eq)
    with assms(1) have "group_computed_ok bss lt et i (ms ! i) p" by auto
    then show ?thesis using b proper_same[OF assms(3)] by (simp add: group_computed_ok_def computed_ok_def)
  qed
  then show ?thesis by (auto simp: in_set_enumerate_eq)
qed

lemma place_slots_step:
  assumes ok: "coord_ok c" and a: "0 \<le> total_computed r a k + num_new_tokens a"
    and bss: "\<forall>(i, m) \<in> set (enumerate 0 (managers c)).
      group_computed_ok (blocks (computed_block_list a k)) (local_computed r a) (num_external_computed_tokens a) i m (c_pool c)"
    and op: "place_slots env r a k c = Inr (bs, r', c')"
  shows "coord_step (request_id r) c c'"
proof -
  note op' = op[unfolded place_slots_def Let_def]
  from op' obtain c1 where c1: "c1 = c \<or> coord_allocate_new_computed_blocks env (request_id r) (blocks (computed_block_list a k))
      (local_computed r a) (num_external_computed_tokens a) c = Inr c1" and
    rest: "\<exists>nb c2. coord_allocate_new_blocks env (request_id r)
        (min (total_computed r a k + num_new_tokens a + num_lookahead_tokens a) (km_max_model_len k))
        (total_computed r a k + num_new_tokens a) (num_encoder_tokens a) c1 = Inr (nb, c2) \<and>
      (c' = c2 \<or> (\<exists>t. coord_cache_blocks env r t c2 = Inr (r', c')))"
    by (auto simp: bindE_Inr_iff split: if_splits)
  from c1 have s1: "coord_step (request_id r) c c1"
    using coord_step_refl[OF ok] coord_computed_step[OF ok bss] by blast
  from rest obtain nb c2 where al: "coord_allocate_new_blocks env (request_id r)
        (min (total_computed r a k + num_new_tokens a + num_lookahead_tokens a) (km_max_model_len k))
        (total_computed r a k + num_new_tokens a) (num_encoder_tokens a) c1 = Inr (nb, c2)" and
    ca: "c' = c2 \<or> (\<exists>t. coord_cache_blocks env r t c2 = Inr (r', c'))" by blast
  have ok1: "coord_ok c1" using s1 by (simp add: coord_step_def)
  note s2 = coord_allocate_step[OF ok1 a al]
  have ok2: "coord_ok c2" using s2 by (simp add: coord_step_def)
  from ca coord_cache_step[OF ok2] coord_step_refl[OF ok2] have "coord_step (request_id r) c2 c'" by blast
  then show ?thesis using coord_step_trans s1 s2 by blast
qed

lemma full_sequence_step:
  assumes "km_ok k" and "full_sequence_fits r a k = Inr (fits, c)"
  shows "coord_step (request_id r) (km_coordinator k) c"
  using assms coord_predict_step coord_step_refl
  by (auto simp: full_sequence_fits_def Let_def bindE_Inr_iff split: if_splits)

lemma allocate_slots_step:
  assumes ok: "km_ok k" and sl: "slots_ok r a k" and op: "allocate_slots env r a k = Inr (res, r', k')"
  shows "coord_step (request_id r) (km_coordinator k) (km_coordinator k')"
proof -
  let ?t = "total_computed r a k"
  have t: "0 \<le> ?t" "0 \<le> ?t + num_new_tokens a" using sl by (auto simp: slots_ok_def total_computed_def)
  note op' = op[unfolded allocate_slots_def Let_def]
  from op' obtain fits c0 where f: "full_sequence_fits r a k = Inr (fits, c0)"
    by (auto simp: bindE_Inr_iff split: if_splits)
  note s0 = full_sequence_step[OF ok f]
  have ok0: "coord_ok c0" using s0 by (simp add: coord_step_def)
  show ?thesis
  proof (cases fits)
    case False
    with op' f s0 show ?thesis by (auto split: if_splits)
  next
    case True
    with op' f obtain c1 where c1: "coord_remove_skipped_blocks (request_id r) ?t c0 = Inr c1"
      by (auto simp: bindE_Inr_iff split: if_splits)
    note s1 = coord_step_trans[OF s0 coord_skip_step[OF ok0 t(1) c1]]
    have ok1: "coord_ok c1" using s1 by (simp add: coord_step_def)
    from op' f True c1 obtain n c2 where
      c2: "coord_get_num_blocks_to_allocate (request_id r)
         (min (?t + num_new_tokens a + num_lookahead_tokens a) (km_max_model_len k)) (blocks (computed_block_list a k))
         (num_encoder_tokens a) (local_computed r a + num_external_computed_tokens a) (?t + num_new_tokens a) False c1 = Inr (n, c2)"
      and k': "km_coordinator k' = c2 \<or> (\<exists>bs. place_slots env r a k c2 = Inr (bs, r', km_coordinator k'))"
      by (auto simp: bindE_Inr_iff split: if_splits)
    note s2 = coord_step_trans[OF s1 conjunct1[OF coord_predict_step[OF ok1 c2]]]
    have ok2: "coord_ok c2" using s2 by (simp add: coord_step_def)
    have "\<forall>(i, m) \<in> set (enumerate 0 (managers c2)). group_computed_ok (blocks (computed_block_list a k))
        (local_computed r a) (num_external_computed_tokens a) i m (c_pool c2)"
      by (rule group_computed_kept[of "managers (km_coordinator k)" _ _ _ "km_pool k" "request_id r"])
        (use sl s2 in \<open>simp_all add: slots_ok_def coord_step_def\<close>)
    from k' place_slots_step[OF ok2 t(2) this] coord_step_refl[OF ok2]
    have "coord_step (request_id r) c2 (km_coordinator k')" by blast
    with s2 show ?thesis by (rule coord_step_trans)
  qed
qed

subsection \<open>Preservation\<close>

lemma shared_ok_refs:
  assumes "shared_ok ms p" and "\<exists>fl. pool_rep p' fl" and "same_config p' p"
    and "\<forall>b \<in> usable p. ref_cnt (blk p' b) = ref_cnt (blk p b)"
  shows "shared_ok ms p'"
  using assms managers_ok_same[OF assms(3)] usable_same[OF assms(3)] by (simp add: shared_ok_def)

lemma shared_ok_managers:
  assumes "shared_ok ms p" and "list_all2 (\<lambda>m' m. req_to_blocks m' = req_to_blocks m \<and> allocated_block_reqs m' = allocated_block_reqs m \<and>
      m_class m' = m_class m \<and> m_spec m' = m_spec m \<and> m_block_size m' = m_block_size m) ms' ms"
  shows "shared_ok ms' p"
proof -
  have "total_held ms' b = total_held ms b" for b
    using assms(2) by (induction rule: list_all2_induct) (auto simp: held_def)
  moreover have "managers_ok ms' p = managers_ok ms p"
    using assms(2)
    by (induction rule: list_all2_induct)
       (auto simp: managers_ok_def manager_ok_def static_ok_def align_ok_def blocks_of_def)
  ultimately show ?thesis using assms(1) by (simp add: shared_ok_def)
qed

lemma pool_rep_events: "pool_rep (p\<lparr>kv_event_queue := q\<rparr>) fl = pool_rep p fl"
  by (simp add: pool_rep_def pool_state_def usable_def ids_ok_def cache_ok_def)

lemma shared_ok_events: "shared_ok ms (p\<lparr>kv_event_queue := q\<rparr>) = shared_ok ms p"
proof -
  have "same_config (p\<lparr>kv_event_queue := q\<rparr>) p" by (simp add: same_config_def)
  from managers_ok_same[OF this] usable_same[OF this] show ?thesis by (simp add: shared_ok_def pool_rep_events)
qed

lemma evict_shared:
  assumes "shared_ok ms p" and "\<forall>i \<in> set ids. 0 \<le> i \<and> i < num_gpu_blocks p" and "evict_blocks env ids p = Inr p'"
  shows "shared_ok ms p'"
proof -
  from assms(1) obtain fl where "pool_rep p fl" by (auto simp: shared_ok_def)
  from evict_blocks_state[OF this assms(2), of env] assms(3)
  have p': "pool_rep p' fl" "same_config p' p" and pay: "payload (blk p' c) =
      payload (if c \<in> Blk ` nat ` set ids then (blk p c)\<lparr>block_hash := None\<rparr> else blk p c)" for c by auto
  have "ref_cnt (blk p' c) = ref_cnt (blk p c)" for c using payload_fields(2)[OF pay[of c]] by (simp split: if_splits)
  with p' show ?thesis by (intro shared_ok_refs[OF assms(1)]) auto
qed

lemma reset_shared:
  assumes "shared_ok ms p" and "reset_prefix_cache p = (cleared, p')"
  shows "shared_ok ms p'"
proof -
  from assms(1) obtain fl where rep: "pool_rep p fl" by (auto simp: shared_ok_def)
  note r = reset_prefix_cache_state[OF rep assms(2)]
  show ?thesis
  proof (cases cleared)
    case True
    with r(1) have zero: "\<forall>b \<in> usable p. ref_cnt (blk p b) = 0" by simp
    then have "set fl = usable p" using rep by (auto simp: pool_rep_def pool_state_def)
    then have "\<forall>b \<in> usable p. ref_cnt (blk p' b) = 0" using r(2) by (auto simp: pool_rep_def pool_state_def)
    with zero r(2,3) show ?thesis by (intro shared_ok_refs[OF assms(1)]) auto
  next
    case False
    with r(5) assms(1) show ?thesis by simp
  qed
qed

lemma touch_key_shared:
  assumes ok: "shared_ok ms p" and f: "\<forall>m \<in> set ms. f m = m \<or> f m = store_blocks rid (blocks_of m rid) m"
  shows "shared_ok (map f ms) p"
proof -
  have one: "held (f m) b = held m b \<and> manager_ok (f m) p \<and> static_ok (f m) \<and> align_ok (f m)"
    if "m \<in> set ms" for m b
  proof -
    have mok: "manager_ok m p" "static_ok m" "align_ok m" using ok that by (auto simp: shared_ok_def managers_ok_def)
    let ?m = "store_blocks rid (blocks_of m rid) m"
    have "held ?m b = held m b" using held_store[OF mok(1), of rid "blocks_of m rid" b] by simp
    moreover have "manager_ok ?m p" using mok(1) by (simp add: manager_ok_store manager_ok_blocks)
    moreover have "align_ok ?m" by (rule keeps_align[of rid, OF _ mok(3)]) simp
    moreover have "static_ok ?m" using mok(2) by (simp add: static_ok_def)
    ultimately show ?thesis using f that mok by fastforce
  qed
  have "total_held (map f ms) b = total_held ms b" for b
    unfolding total_held_def using one by (simp add: comp_def cong: map_cong)
  with ok one show ?thesis by (simp add: shared_ok_def managers_ok_def)
qed

lemma common_shared:
  assumes "km_ok k" and "km_get_num_common_prefix_blocks rid k = (ns, k')"
  shows "km_ok k'"
proof -
  have m: "snd (get_num_common_prefix_blocks rid m p) = m \<or>
      snd (get_num_common_prefix_blocks rid m p) = store_blocks rid (blocks_of m rid) m" for m p
    by (auto simp: get_num_common_prefix_blocks_def Let_def)
  have "shared_ok (map (\<lambda>m. snd (get_num_common_prefix_blocks rid m (km_pool k))) (managers (km_coordinator k))) (km_pool k)"
    by (rule touch_key_shared[OF assms(1), of _ rid]) (use m in blast)
  with assms show ?thesis
    by (auto simp: km_get_num_common_prefix_blocks_def coord_get_num_common_prefix_blocks_def Let_def comp_def
        split: coordinator_class.splits)
qed

lemma cache_step_ok:
  assumes "cache_step env k k'" and "km_ok k"
  shows "km_ok k'"
  using assms
proof (induction rule: cache_step.induct)
  case (allocate r a k res r' k')
  from allocate_slots_step[OF allocate(3,1,2)] show ?case by (simp add: coord_step_def)
next
  case (free r k k')
  then obtain c where "coord_free (request_id r) (km_coordinator k) = Inr c" "k' = k\<lparr>km_coordinator := c\<rparr>"
    by (auto simp: km_free_def bindE_Inr_iff)
  with coord_free_step[OF free(2)] show ?case by (simp add: coord_step_def)
next
  case (skip t rid k k')
  then obtain c where "coord_remove_skipped_blocks rid t (km_coordinator k) = Inr c" "k' = k\<lparr>km_coordinator := c\<rparr>"
    by (auto simp: km_remove_skipped_blocks_def bindE_Inr_iff)
  with coord_skip_step[OF skip(3,1)] show ?case by (simp add: coord_step_def)
next
  case (evict ids k k')
  then obtain p where "evict_blocks env ids (km_pool k) = Inr p" "k' = k\<lparr>km_coordinator := (km_coordinator k)\<lparr>c_pool := p\<rparr>\<rparr>"
    by (auto simp: km_evict_blocks_def bindE_Inr_iff)
  with evict_shared[OF evict(3,1)] show ?case by simp
next
  case (reset k d k')
  obtain d' p where p: "reset_prefix_cache (km_pool k) = (d', p)" by fastforce
  have "km_coordinator k' = (km_coordinator k)\<lparr>c_pool := p\<rparr>"
    using reset(1)[unfolded km_reset_prefix_cache_def p Let_def prod.case]
    by (cases d'; cases "km_log_stats k"; cases "km_prefix_cache_stats k") auto
  with reset_shared[OF reset(2) p] show ?case by simp
next
  case (cache r t k r' k')
  show ?case
  proof (cases "km_enable_caching k")
    case True
    with cache(1) have b: "bindE (coord_cache_blocks env r t (km_coordinator k)) (\<lambda>(r, c). Inr (r, k\<lparr>km_coordinator := c\<rparr>)) =
      Inr (r', k')" by (simp add: km_cache_blocks_def)
    then obtain r1 c where c: "coord_cache_blocks env r t (km_coordinator k) = Inr (r1, c)"
      unfolding bindE_Inr_iff by (metis surj_pair)
    with b have "km_coordinator k' = c" by auto
    with coord_cache_step[OF cache(2) c] show ?thesis by (simp add: coord_step_def)
  next
    case False
    with cache show ?thesis by (simp add: km_cache_blocks_def)
  qed
next
  case (look_up r k bs n k')
  have "km_coordinator k' = km_coordinator k"
  proof (cases "\<not> km_enable_caching k \<or> skip_reading_prefix_cache r")
    case True
    with look_up(1) show ?thesis by (simp add: get_computed_blocks_def)
  next
    case False
    obtain h where h: "coord_find_longest_cache_hit (block_hashes r) (num_tokens r - 1) (km_coordinator k) = Inr h"
      using look_up(1) False by (auto simp: get_computed_blocks_def Let_def bindE_Inr_iff)
    show ?thesis using look_up(1) False h
      by (cases h; cases "km_log_stats k"; cases "km_prefix_cache_stats k") (auto simp: get_computed_blocks_def Let_def)
  qed
  with look_up(2) show ?case by simp
next
  case (common rid k ns k')
  then show ?case using common_shared by blast
next
  case (events k es k')
  then have "km_pool k' = km_pool k \<or> km_pool k' = (km_pool k)\<lparr>kv_event_queue := []\<rparr>"
    "managers (km_coordinator k') = managers (km_coordinator k)"
    by (auto simp: take_events_def pool_take_events_def split: if_splits)
  then show ?case using events(2) shared_ok_events by metis
next
  case (stats k s k')
  then show ?case by (auto simp: make_prefix_cache_stats_def split: if_splits)
next
  case (new_ids k ids k')
  then have k': "km_pool k' = km_pool k"
    "managers (km_coordinator k') = map (\<lambda>m. m\<lparr>m_new_block_ids := []\<rparr>) (managers (km_coordinator k))"
    by (auto simp: km_take_new_block_ids_def take_new_block_ids_def Let_def)
  show ?case unfolding k' by (rule shared_ok_managers[OF new_ids(2)]) (simp add: list_all2_conv_all_nth)
next
  case (new_step k)
  have k': "km_pool (km_new_step_starts k) = km_pool k"
    "managers (km_coordinator (km_new_step_starts k)) = map new_step_starts (managers (km_coordinator k))"
    by (simp_all add: km_new_step_starts_def coord_new_step_starts_def)
  show ?case unfolding k' by (rule shared_ok_managers[OF new_step]) (simp add: list_all2_conv_all_nth new_step_starts_def)
qed

subsection \<open>The initial state\<close>

definition fresh_manager :: "type_manager \<Rightarrow> bool" where
  "fresh_manager m \<longleftrightarrow> req_to_blocks m = [] \<and> allocated_block_reqs m = []"

lemma new_manager_fresh:
  assumes "get_manager_for_kv_cache_spec reg s mb ml caching i dcp pcp sbs = Inr m"
  shows "fresh_manager m"
proof -
  note op = assms[unfolded get_manager_for_kv_cache_spec_def]
  then obtain mc where mc: "get_manager_class reg s = Inr mc" unfolding bindE_Inr_iff by blast
  note op' = op[unfolded mc bindE_simps]
  from op' obtain c spec where s: "mc = Some c" "s = LayerSpec spec"
    by (cases mc; cases s) auto
  from op'[unfolded s prod.case option.case kv_cache_spec.case] obtain mx where
    "(if c = SinkFullAttentionManager then Inl TypeError
      else Inr (manager_init c spec caching i sbs dcp pcp mx)) = Inr m"
    unfolding bindE_Inr_iff by blast
  then show ?thesis by (auto simp: manager_init_def fresh_manager_def split: if_splits)
qed

lemma coordinator_init_fresh:
  assumes "coordinator_init a caching = Inr c"
  shows "(\<forall>m \<in> set (managers c). fresh_manager m) \<and> 0 < num_blocks (ca_config a) \<and>
    block_pool_init (num_blocks (ca_config a)) caching (ca_hash_block_size a) (ca_enable_kv_cache_events a) (ca_metrics a)
      = Inr (c_pool c)"
proof -
  from assms obtain ms p where
    ms: "mapE (\<lambda>(i, g). get_manager_for_kv_cache_spec (ca_registry a) (group_spec g)
           (ca_max_num_batched_tokens a) (ca_max_model_len a) caching (int i)
           (ca_dcp_world_size a) (ca_pcp_world_size a) (ca_scheduler_block_size a))
           (enumerate 0 (kv_cache_groups (ca_config a))) = Inr ms"
    and p: "block_pool_init (num_blocks (ca_config a)) caching (ca_hash_block_size a) (ca_enable_kv_cache_events a) (ca_metrics a) = Inr p"
    and c: "managers c = ms" "c_pool c = p"
    unfolding coordinator_init_def Let_def bindE_Inr_iff by (elim exE conjE) auto
  have "fresh_manager m" if "m \<in> set ms" for m
  proof -
    from that obtain j where j: "j < length ms" "m = ms ! j" by (auto simp: in_set_conv_nth)
    obtain i g where g: "enumerate 0 (kv_cache_groups (ca_config a)) ! j = (i, g)" by fastforce
    from mapE_nth[OF ms, of j] mapE_length[OF ms] j g show ?thesis by (auto dest: new_manager_fresh)
  qed
  moreover from p have "0 < num_blocks (ca_config a)" by (auto simp: block_pool_init_def bindE_Inr_iff)
  ultimately show ?thesis using p c by simp
qed

lemma coordinator_fresh:
  assumes "get_kv_cache_coordinator a caching = Inr c"
  shows "(\<forall>m \<in> set (managers c). fresh_manager m) \<and> 0 < num_blocks (ca_config a) \<and>
    (\<exists>b. block_pool_init (num_blocks (ca_config a)) b (ca_hash_block_size a) (ca_enable_kv_cache_events a) (ca_metrics a)
      = Inr (c_pool c))"
proof -
  have eagle: "fresh_manager m \<Longrightarrow> fresh_manager (m\<lparr>m_use_eagle := e\<rparr>)" for m e by (simp add: fresh_manager_def)
  consider "coordinator_init a False = Inr c" | "unitary_init a caching = Inr c" | "hybrid_init a caching = Inr c"
    using assms by (auto simp: get_kv_cache_coordinator_def split: if_splits)
  then show ?thesis
  proof cases
    case 1
    from coordinator_init_fresh[OF this] show ?thesis by blast
  next
    case 2
    then obtain c0 m e where c0: "coordinator_init a caching = Inr c0" and m: "py_index (managers c0) 0 = Inr m" and
      c: "c_pool c = c_pool c0" "managers c = (managers c0)[0 := m\<lparr>m_use_eagle := e\<rparr>]"
      unfolding unitary_init_def Let_def bindE_Inr_iff by (elim exE conjE) auto
    note f = coordinator_init_fresh[OF c0]
    have "m \<in> set (managers c0)" using m by (auto simp: py_index_def Let_def split: if_splits)
    then have "fresh_manager (m\<lparr>m_use_eagle := e\<rparr>)" using f eagle by blast
    then have "\<forall>x \<in> set (managers c). fresh_manager x" using f c(2) set_update_subset_insert by fastforce
    then show ?thesis using f c(1) by auto
  next
    case 3
    from 3 obtain c0 where c0: "coordinator_init a caching = Inr c0" unfolding hybrid_init_def bindE_Inr_iff by blast
    from 3 obtain groups where "c0\<lparr>c_class := Hybrid (ca_hash_block_size a) groups,
        managers := map (\<lambda>(i, m). if int i \<in> set (eagle_groups groups) then m\<lparr>m_use_eagle := True\<rparr> else m)
          (enumerate 0 (managers c0))\<rparr> = c"
      unfolding hybrid_init_def c0 bindE_simps bindE_Inr_iff sum.inject by blast
    then have c: "c_pool c = c_pool c0" "managers c = map (\<lambda>(i, m). if int i \<in> set (eagle_groups groups)
        then m\<lparr>m_use_eagle := True\<rparr> else m) (enumerate 0 (managers c0))" by auto
    note f = coordinator_init_fresh[OF c0]
    then have "\<forall>x \<in> set (managers c). fresh_manager x" using eagle c(2) by (auto simp: in_set_enumerate_eq)
    then show ?thesis using f c(1) by auto
  qed
qed

lemma init_ok:
  assumes "kv_cache_manager_init a mb caching log_stats = Inr k" and "\<forall>m \<in> set (managers (km_coordinator k)). static_ok m"
  shows "km_ok k"
proof -
  define a' where "a' = a\<lparr>ca_max_num_batched_tokens := (case mb of None \<Rightarrow> ca_max_model_len a | Some n \<Rightarrow> n)\<rparr>"
  from assms(1) have c: "get_kv_cache_coordinator a' caching = Inr (km_coordinator k)"
    by (auto simp: kv_cache_manager_init_def bindE_Inr_iff a'_def)
  from coordinator_fresh[OF c] obtain b where fresh: "\<forall>m \<in> set (managers (km_coordinator k)). fresh_manager m" and
    pos: "0 < num_blocks (ca_config a')" and
    p: "block_pool_init (num_blocks (ca_config a')) b (ca_hash_block_size a') (ca_enable_kv_cache_events a') (ca_metrics a')
      = Inr (km_pool k)" by blast
  from block_pool_init_state[OF pos, of b "ca_hash_block_size a'" "ca_enable_kv_cache_events a'" "ca_metrics a'"] p
  have rep: "\<exists>fl. pool_rep (km_pool k) fl" and zero: "\<forall>i. ref_cnt (blk (km_pool k) (Blk i)) = 0" by auto
  have m: "held m b = 0 \<and> manager_ok m (km_pool k) \<and> align_ok m" if "m \<in> set (managers (km_coordinator k))" for m b
    using fresh that by (auto simp: fresh_manager_def held_def manager_ok_def align_ok_def blocks_of_def dict_get_default_def)
  then have "total_held (managers (km_coordinator k)) b = 0" for b by (auto simp: total_held_def)
  then show ?thesis using rep zero m assms(2) by (auto simp: shared_ok_def managers_ok_def usable_def)
qed

lemma run_ok:
  assumes "kv_cache_manager_init a mb caching log_stats = Inr k0" and "\<forall>m \<in> set (managers (km_coordinator k0)). static_ok m"
    and "(cache_step env)\<^sup>*\<^sup>* k0 k"
  shows "km_ok k"
  using assms(3) by (induction rule: rtranclp_induct) (use init_ok[OF assms(1,2)] cache_step_ok in blast)+

lemma held_zero_iff:
  assumes "manager_ok m p"
  shows "held m b = 0 \<longleftrightarrow> (\<forall>rid. b \<notin> set (blocks_of m rid))"
proof
  assume "held m b = 0"
  then show "\<forall>rid. b \<notin> set (blocks_of m rid)" using held_ge[OF assms, of _ b] by (metis count_list_0_iff le_zero_eq)
next
  assume a: "\<forall>rid. b \<notin> set (blocks_of m rid)"
  have "b \<notin> set bs" if "(rid, bs) \<in> set (req_to_blocks m)" for rid bs
    using a that assms by (auto simp: manager_ok_def blocks_of_def dict_get_default_def)
  then show "held m b = 0" by (auto simp: held_def count_list_0_iff)
qed

subsection \<open>Properties\<close>

text \<open>C2. No block is leaked and none is freed too early. In every state that the operations of the KV-cache
  manager reach from the initial one, every usable block has as many references as it occurs in the
  block lists of all requests, summed over all KV-cache groups. So the number of free blocks is the
  number of blocks which no request lists. Freeing a request always succeeds; afterwards it lists no block, and
  the block lists of all other requests are unchanged.\<close>

theorem references_are_holdings:
  assumes "kv_cache_manager_init a mb caching log_stats = Inr k0" and "\<forall>m \<in> set (managers (km_coordinator k0)). static_ok m"
    and "(cache_step env)\<^sup>*\<^sup>* k0 k"
  shows "(\<forall>b \<in> usable (km_pool k). ref_cnt (blk (km_pool k) b) =
       (\<Sum>m\<leftarrow>managers (km_coordinator k). int (held m b))) \<and>
     get_num_free_blocks (km_pool k) = int (card {b \<in> usable (km_pool k).
       \<forall>m \<in> set (managers (km_coordinator k)). \<forall>rid. b \<notin> set (blocks_of m rid)}) \<and>
     (\<forall>r. \<exists>k'. km_free r k = Inr k' \<and>
        list_all2 (\<lambda>m' m. blocks_of m' (request_id r) = [] \<and>
            (\<forall>rid. rid \<noteq> request_id r \<longrightarrow> blocks_of m' rid = blocks_of m rid))
          (managers (km_coordinator k')) (managers (km_coordinator k)))"
proof -
  have ok: "km_ok k" by (rule run_ok[OF assms])
  then obtain fl where rep: "pool_rep (km_pool k) fl" and refs: "\<forall>b \<in> usable (km_pool k).
      ref_cnt (blk (km_pool k) b) = int (total_held (managers (km_coordinator k)) b)"
    and mok: "\<forall>m \<in> set (managers (km_coordinator k)). manager_ok m (km_pool k)"
    by (auto simp: shared_ok_def managers_ok_def)
  have th: "int (total_held ms b) = (\<Sum>m\<leftarrow>ms. int (held m b))" for ms b by (induction ms) auto
  have "total_held ms b = 0 \<longleftrightarrow> (\<forall>m \<in> set ms. held m b = 0)" for ms b by (induction ms) auto
  then have "ref_cnt (blk (km_pool k) b) = 0 \<longleftrightarrow>
      (\<forall>m \<in> set (managers (km_coordinator k)). \<forall>rid. b \<notin> set (blocks_of m rid))" if "b \<in> usable (km_pool k)" for b
    using refs mok that held_zero_iff[of _ "km_pool k" b] by auto
  then have "{b \<in> usable (km_pool k). ref_cnt (blk (km_pool k) b) = 0} = {b \<in> usable (km_pool k).
       \<forall>m \<in> set (managers (km_coordinator k)). \<forall>rid. b \<notin> set (blocks_of m rid)}" by blast
  moreover have "\<exists>k'. km_free r k = Inr k' \<and>
        list_all2 (\<lambda>m' m. blocks_of m' (request_id r) = [] \<and>
            (\<forall>rid. rid \<noteq> request_id r \<longrightarrow> blocks_of m' rid = blocks_of m rid))
          (managers (km_coordinator k')) (managers (km_coordinator k))" for r
    using coord_free_total[OF ok, of "request_id r"]
    by (fastforce simp: km_free_def coord_step_def list_all2_conv_all_nth other_kept_def)
  ultimately show ?thesis using refs th free_list_card(1)[OF rep] by auto
qed

text \<open>An example: one group of full attention and three usable blocks; a request takes two of them.\<close>

definition ex_cache_args :: coordinator_args where
  "ex_cache_args =
     \<lparr>ca_config = \<lparr>num_blocks = 4, kv_cache_tensors = [],
        kv_cache_groups = [\<lparr>layer_names = [''l''], group_spec = LayerSpec (full_layer 64), is_eagle_group = False\<rparr>]\<rparr>,
      ca_max_model_len = 64, ca_max_num_batched_tokens = 64, ca_use_eagle = False, ca_enable_kv_cache_events = False,
      ca_dcp_world_size = 1, ca_pcp_world_size = 1, ca_scheduler_block_size = 16, ca_hash_block_size = 16,
      ca_metrics = None, ca_registry = builtin_registry, ca_retention_interval = None\<rparr>"

definition ex_cache :: kv_cache_manager where
  "ex_cache = projr (kv_cache_manager_init ex_cache_args None False False)"

definition ex_slots :: slot_args where
  "ex_slots =
     \<lparr>num_new_tokens = 17, num_new_computed_tokens = 0, new_computed_blocks = None, num_lookahead_tokens = 0,
      num_external_computed_tokens = 0, delay_cache_blocks = False, num_encoder_tokens = 0,
      full_sequence_must_fit = False, reserved_blocks = 0\<rparr>"

abbreviation ex_reader :: request where
  "ex_reader \<equiv> ex_request [1, 2, 3] []"

definition ex_used :: kv_cache_manager where
  "ex_used = snd (snd (projr (allocate_slots ex_env ex_reader ex_slots ex_cache)))"

lemma isr_projr: "\<not> isl x \<Longrightarrow> x = Inr (projr x)"
  by (cases x) auto

lemma ex_cache_init: "kv_cache_manager_init ex_cache_args None False False = Inr ex_cache"
  unfolding ex_cache_def by (rule isr_projr) code_simp

lemma ex_cache_static: "\<forall>m \<in> set (managers (km_coordinator ex_cache)). static_ok m"
proof -
  have "map (\<lambda>m. (m_class m, m_block_size m)) (managers (km_coordinator ex_cache)) = [(FullAttentionManager, 16)]" by code_simp
  then show ?thesis by (auto simp: static_ok_def)
qed

lemma ex_cache_slots: "slots_ok ex_reader ex_slots ex_cache"
proof -
  have "num_computed_tokens ex_reader = 0" "km_max_model_len ex_cache = 64" "km_num_groups ex_cache = 1" by code_simp+
  then show ?thesis
    by (auto simp: slots_ok_def group_computed_ok_def computed_ok_def local_computed_def ex_slots_def computed_block_list_def)
qed

lemma ex_cache_run: "cache_step ex_env ex_cache ex_used"
proof (rule cache_step.allocate[OF ex_cache_slots])
  have "\<not> isl (allocate_slots ex_env ex_reader ex_slots ex_cache)" by code_simp
  from isr_projr[OF this] show "allocate_slots ex_env ex_reader ex_slots ex_cache =
      Inr (fst (projr (allocate_slots ex_env ex_reader ex_slots ex_cache)),
        fst (snd (projr (allocate_slots ex_env ex_reader ex_slots ex_cache))), ex_used)"
    unfolding ex_used_def by simp
qed

theorem references_are_holdings_witness:
  "map (\<lambda>m. blocks_of m (request_id ex_reader)) (managers (km_coordinator ex_used)) = [[Blk 1, Blk 2]] \<and>
   ref_cnt (blk (km_pool ex_used) (Blk 2)) = (\<Sum>m\<leftarrow>managers (km_coordinator ex_used). int (held m (Blk 2))) \<and>
   get_num_free_blocks (km_pool ex_used) = 1"
proof -
  have "Blk 2 \<in> usable (km_pool ex_used)" by code_simp
  with references_are_holdings[OF ex_cache_init ex_cache_static r_into_rtranclp[of "cache_step ex_env", OF ex_cache_run]]
  have "ref_cnt (blk (km_pool ex_used) (Blk 2)) = (\<Sum>m\<leftarrow>managers (km_coordinator ex_used). int (held m (Blk 2)))" by blast
  moreover have "map (\<lambda>m. blocks_of m (request_id ex_reader)) (managers (km_coordinator ex_used)) = [[Blk 1, Blk 2]]"
    "get_num_free_blocks (km_pool ex_used) = 1" by code_simp+
  ultimately show ?thesis by blast
qed

end
