(* ===== verification/Spec2Isabelle.thy ===== *)
theory Spec2Isabelle
  imports Prelude Free_Block_Queue Hash_Keys Request Block_Hashing KV_Cache_Metrics Block_Map Block_Pool
    Prefix_Cache Stop_Checks Heapq Request_Queue Encoder_Cache Encoder_Scheduling KV_Cache_Spec
    KV_Cache_Config KV_Cache_Tensors KV_Cache_Plan Cache_Hit Type_Managers Block_Ownership KV_Coordinator
    KV_Cache_Manager Shared_Ownership Cache_Invariant
begin

text \<open>
  Verification of the KV-cache management of vLLM.
\<close>

end
